(* ===== verification/Prelude.thy ===== *)
theory Prelude
  imports Main "HOL-Library.Word" "HOL-Library.List_Lexorder" "HOL-Library.Monad_Syntax"
begin

text \<open>
  Shared vocabulary of the development.

  Bytes are \<open>8 word\<close>, memory is a list of bytes.  A computation that the C++ standard leaves
  undefined (a read past the end of an array, a null dereference, a string that is not terminated)
  is the value \<open>None\<close> of the option monad, so every theorem that says a function returns
  \<open>Some\<close> also says that it is free of undefined behaviour.  The C library functions the sources
  call (\<open>strlen\<close>, \<open>strcmp\<close>, \<open>strcpy\<close>) and bounds-checked array access are
  defined here, with their relation to the lexicographic order on byte strings.
\<close>

unbundle bit_operations_syntax

type_synonym byte = "8 word"
type_synonym bytes = "8 word list"
type_synonym u32 = "32 word"
type_synonym u64 = "64 word"

named_theorems cstr_simps \<open>C strings: termination and the text before the terminator\<close>

section \<open>Bounds-checked arrays\<close>

definition nth_opt :: "'a list \<Rightarrow> nat \<Rightarrow> 'a option" where
  "nth_opt xs i = (if i < length xs then Some (xs ! i) else None)"

lemma nth_opt_in [simp]: "i < length xs \<Longrightarrow> nth_opt xs i = Some (xs ! i)"
  by (simp add: nth_opt_def)

lemma nth_opt_Some_iff: "nth_opt xs i = Some x \<longleftrightarrow> i < length xs \<and> xs ! i = x"
  by (auto simp: nth_opt_def)

lemma nth_opt_None_iff: "nth_opt xs i = None \<longleftrightarrow> length xs \<le> i"
  by (auto simp: nth_opt_def)

section \<open>C strings\<close>

definition terminated :: "bytes \<Rightarrow> bool" where
  "terminated m \<longleftrightarrow> 0 \<in> set m"

definition cstr :: "bytes \<Rightarrow> bytes" where
  "cstr m = takeWhile (\<lambda>b. b \<noteq> 0) m"

definition strlen :: "bytes \<Rightarrow> nat option" where
  "strlen m = (if terminated m then Some (length (cstr m)) else None)"

fun strcmp :: "bytes \<Rightarrow> bytes \<Rightarrow> int option" where
  "strcmp (a # as) (b # bs) =
     (if a \<noteq> b then Some (uint a - uint b) else if a = 0 then Some 0 else strcmp as bs)"
| "strcmp _ _ = None"

definition strcpy :: "bytes \<Rightarrow> bytes \<Rightarrow> bytes option" where
  "strcpy dst src =
     (if terminated src \<and> length (cstr src) < length dst
      then Some (cstr src @ 0 # drop (Suc (length (cstr src))) dst) else None)"

text \<open>\<open>c_str()\<close> of a \<open>std::string\<close>: its bytes followed by the terminator.\<close>

definition c_str :: "bytes \<Rightarrow> bytes" where
  "c_str s = s @ [0]"

lemma terminated_c_str [cstr_simps, simp]: "terminated (c_str s)"
  by (simp add: terminated_def c_str_def)

lemma cstr_c_str [cstr_simps, simp]: "0 \<notin> set s \<Longrightarrow> cstr (c_str s) = s"
  by (simp add: cstr_def c_str_def takeWhile_append takeWhile_eq_all_conv [THEN iffD2] )

lemma zero_notin_cstr [simp]: "0 \<notin> set (cstr m)"
  by (auto simp: cstr_def dest: set_takeWhileD)

lemma terminated_app: "0 \<notin> set s \<Longrightarrow> cstr (s @ 0 # r) = s \<and> terminated (s @ 0 # r)"
  by (auto simp: cstr_def terminated_def takeWhile_append)

lemma terminatedE:
  assumes "terminated m"
  obtains r where "m = cstr m @ 0 # r"
proof -
  have "m = takeWhile (\<lambda>b. b \<noteq> 0) m @ dropWhile (\<lambda>b. b \<noteq> 0) m" by simp
  moreover from assms have "dropWhile (\<lambda>b. b \<noteq> 0) m \<noteq> []"
    by (auto simp: terminated_def dropWhile_eq_Nil_conv)
  then obtain b r where r: "dropWhile (\<lambda>b. b \<noteq> 0) m = b # r" by (cases "dropWhile (\<lambda>b. b \<noteq> 0) m") auto
  then have "b = 0" by (metis (mono_tags) hd_dropWhile list.distinct(1) list.sel(1))
  ultimately show ?thesis using r that by (simp add: cstr_def)
qed

lemma strlen_terminated [cstr_simps, simp]: "terminated m \<Longrightarrow> strlen m = Some (length (cstr m))"
  by (simp add: strlen_def)

lemma strcpy_Some:
  assumes "terminated src" "length (cstr src) < length dst"
  shows "\<exists>d. strcpy dst src = Some d \<and> cstr d = cstr src \<and> terminated d \<and> length d = length dst"
  using assms by (simp add: strcpy_def terminated_app)

lemma strcmp_append:
  "0 \<notin> set a \<Longrightarrow> 0 \<notin> set b \<Longrightarrow>
   \<exists>c. strcmp (a @ 0 # r) (b @ 0 # s) = Some c \<and> (c = 0 \<longleftrightarrow> a = b) \<and> (c < 0 \<longleftrightarrow> a < b)"
proof (induction a arbitrary: b)
  case Nil
  then show ?case
    by (cases b) (auto simp: word_neq_0_conv word_less_def)
next
  case (Cons x a)
  then show ?case
    by (cases b) (auto simp: word_less_def word_uint_eq_iff)
qed

text \<open>On terminated strings \<open>strcmp\<close> is defined and its sign is the lexicographic order.\<close>

lemma strcmp_total:
  assumes "terminated a" "terminated b"
  obtains c where "strcmp a b = Some c" "c = 0 \<longleftrightarrow> cstr a = cstr b" "c < 0 \<longleftrightarrow> cstr a < cstr b"
    "c > 0 \<longleftrightarrow> cstr b < cstr a" "c \<le> 0 \<longleftrightarrow> cstr a \<le> cstr b"
proof -
  obtain r s where rs: "a = cstr a @ 0 # r" "b = cstr b @ 0 # s"
    using assms by (auto elim!: terminatedE)
  obtain c where c: "strcmp a b = Some c" "c = 0 \<longleftrightarrow> cstr a = cstr b" "c < 0 \<longleftrightarrow> cstr a < cstr b"
    using strcmp_append [of "cstr a" "cstr b" r s] rs by auto
  then show ?thesis using that by (metis linorder_neqE_linordered_idom linorder_less_linear
        order_less_imp_not_less not_less_iff_gr_or_eq linorder_not_less)
qed

section \<open>Lists\<close>

lemma take_Suc_update: "i < length xs \<Longrightarrow> take (Suc i) (xs[i := x]) = take i xs @ [x]"
  by (simp add: take_Suc_conv_app_nth)

lemma map_update_nth: "i < length xs \<Longrightarrow> map f (xs[i := x]) = (map f xs)[i := f x]"
  by (simp add: map_update)

section \<open>Words\<close>

lemma unat_small: "n < 2 ^ 32 \<Longrightarrow> unat (of_nat n :: u32) = n"
  by (simp add: unat_of_nat)

lemma unat_small64: "n < 2 ^ 64 \<Longrightarrow> unat (of_nat n :: u64) = n"
  by (simp add: unat_of_nat)

end
