(* ===== verification/Slices.thy ===== *)
theory Slices
  imports Prelude
begin

text \<open>
  \<open>Slice\<close> (include/rocksdb/slice.h).  A slice is a pointer and a size; the pointer is modelled
  by the memory readable from it on, so that code which ignores the size (the C-string functions
  ScreeDB calls on \<open>data_\<close>) can be expressed.  \<open>slice_bytes\<close> is the text a slice denotes.
  Components that respect the size work on that text directly.
\<close>

record Slice =
  data_ptr :: bytes
  size_of :: nat

definition slice_bytes :: "Slice \<Rightarrow> bytes" where
  "slice_bytes s = take (size_of s) (data_ptr s)"

text \<open>Every byte the slice denotes is readable.\<close>

definition slice_ok :: "Slice \<Rightarrow> bool" where
  "slice_ok s \<longleftrightarrow> size_of s \<le> length (data_ptr s)"

definition Slice_empty :: Slice where
  "Slice_empty = \<lparr>data_ptr = [0], size_of = 0\<rparr>"

definition Slice_of_string :: "bytes \<Rightarrow> Slice" where
  "Slice_of_string s = \<lparr>data_ptr = c_str s, size_of = length s\<rparr>"

definition Slice_of_cstr :: "bytes \<Rightarrow> Slice option" where
  "Slice_of_cstr m = map_option (\<lambda>n. \<lparr>data_ptr = m, size_of = n\<rparr>) (strlen m)"

definition Slice_nth :: "Slice \<Rightarrow> nat \<Rightarrow> byte option" where
  "Slice_nth s n = (if n < size_of s then nth_opt (data_ptr s) n else None)"

definition remove_prefix :: "nat \<Rightarrow> Slice \<Rightarrow> Slice option" where
  "remove_prefix n s =
     (if n \<le> size_of s \<and> n \<le> length (data_ptr s)
      then Some \<lparr>data_ptr = drop n (data_ptr s), size_of = size_of s - n\<rparr> else None)"

definition remove_suffix :: "nat \<Rightarrow> Slice \<Rightarrow> Slice option" where
  "remove_suffix n s = (if n \<le> size_of s then Some (s\<lparr>size_of := size_of s - n\<rparr>) else None)"

text \<open>\<open>memcmp\<close>: the sign of the first difference, reading \<open>n\<close> bytes of both.\<close>

fun memcmp :: "bytes \<Rightarrow> bytes \<Rightarrow> nat \<Rightarrow> int option" where
  "memcmp as bs 0 = Some 0"
| "memcmp (a # as) (b # bs) (Suc n) =
     (if a \<noteq> b then Some (uint a - uint b) else memcmp as bs n)"
| "memcmp _ _ (Suc n) = None"

definition Slice_compare :: "Slice \<Rightarrow> Slice \<Rightarrow> int option" where
  "Slice_compare a b = do {
     r \<leftarrow> memcmp (data_ptr a) (data_ptr b) (if size_of a < size_of b then size_of a else size_of b);
     Some (if r = 0 then (if size_of a < size_of b then -1 else if size_of a > size_of b then 1 else r)
           else r) }"

definition Slice_eq :: "Slice \<Rightarrow> Slice \<Rightarrow> bool option" where
  "Slice_eq x y =
     (if size_of x = size_of y
      then map_option (\<lambda>r. r = 0) (memcmp (data_ptr x) (data_ptr y) (size_of x)) else Some False)"

definition starts_with :: "Slice \<Rightarrow> Slice \<Rightarrow> bool option" where
  "starts_with s x =
     (if size_of s \<ge> size_of x
      then map_option (\<lambda>r. r = 0) (memcmp (data_ptr s) (data_ptr x) (size_of x)) else Some False)"

definition ends_with :: "Slice \<Rightarrow> Slice \<Rightarrow> bool option" where
  "ends_with s x =
     (if size_of s \<ge> size_of x
      then map_option (\<lambda>r. r = 0)
             (memcmp (drop (size_of s - size_of x) (data_ptr s)) (data_ptr x) (size_of x))
      else Some False)"

fun difference_loop :: "bytes \<Rightarrow> bytes \<Rightarrow> nat \<Rightarrow> nat option" where
  "difference_loop as bs 0 = Some 0"
| "difference_loop (a # as) (b # bs) (Suc n) =
     (if a \<noteq> b then Some 0 else map_option Suc (difference_loop as bs n))"
| "difference_loop _ _ (Suc n) = None"

definition difference_offset :: "Slice \<Rightarrow> Slice \<Rightarrow> nat option" where
  "difference_offset a b =
     difference_loop (data_ptr a) (data_ptr b) (if size_of a < size_of b then size_of a else size_of b)"

definition hex_digit :: "nat \<Rightarrow> byte" where
  "hex_digit n = (if n < 10 then of_nat (48 + n) else of_nat (55 + n))"

definition Slice_ToString :: "bool \<Rightarrow> Slice \<Rightarrow> bytes" where
  "Slice_ToString hex s =
     (if hex then concat (map (\<lambda>b. [hex_digit (unat b div 16), hex_digit (unat b mod 16)]) (slice_bytes s))
      else slice_bytes s)"

section \<open>Slices denote byte strings\<close>

lemma memcmp_take:
  "n \<le> length as \<Longrightarrow> n \<le> length bs \<Longrightarrow>
   \<exists>r. memcmp as bs n = Some r \<and> (r = 0 \<longleftrightarrow> take n as = take n bs) \<and>
       (r < 0 \<longleftrightarrow> take n as < take n bs)"
proof (induction as bs n rule: memcmp.induct)
  case (2 a as b bs n)
  then show ?case by (auto simp: word_less_def word_uint_eq_iff)
qed auto

lemma take_lex_cases:
  fixes as bs :: bytes
  assumes "n = min (length as) (length bs)"
  shows "as < bs \<longleftrightarrow> take n as < take n bs \<or> (take n as = take n bs \<and> length as < length bs)"
  unfolding assms
proof (induction as arbitrary: bs)
  case Nil then show ?case by (cases bs) auto
next
  case (Cons a as) then show ?case by (cases bs) auto
qed

lemma take_eq_cases:
  assumes "n = min (length as) (length bs)" "length as = length bs"
  shows "as = bs \<longleftrightarrow> take n as = take n bs"
  using assms by simp

text \<open>\<open>Slice::compare\<close> is the lexicographic order of the denoted texts.\<close>

lemma Slice_compare_total:
  assumes "slice_ok a" "slice_ok b"
  obtains r where "Slice_compare a b = Some r" "r = 0 \<longleftrightarrow> slice_bytes a = slice_bytes b"
    "r < 0 \<longleftrightarrow> slice_bytes a < slice_bytes b"
proof -
  define n where "n = (if size_of a < size_of b then size_of a else size_of b)"
  have len: "length (slice_bytes a) = size_of a" "length (slice_bytes b) = size_of b"
    using assms by (auto simp: slice_bytes_def slice_ok_def)
  have n: "n = min (length (slice_bytes a)) (length (slice_bytes b))" by (simp add: len n_def)
  have tk: "take n (data_ptr a) = take n (slice_bytes a)" "take n (data_ptr b) = take n (slice_bytes b)"
    by (auto simp: slice_bytes_def min_def n_def)
  have "n \<le> length (data_ptr a)" "n \<le> length (data_ptr b)"
    using assms by (auto simp: slice_ok_def n_def)
  from memcmp_take [OF this] obtain r where r: "memcmp (data_ptr a) (data_ptr b) n = Some r"
    "r = 0 \<longleftrightarrow> take n (slice_bytes a) = take n (slice_bytes b)"
    "r < 0 \<longleftrightarrow> take n (slice_bytes a) < take n (slice_bytes b)"
    unfolding tk by blast
  note lt = take_lex_cases [OF n]
  have eq: "slice_bytes a = slice_bytes b \<longleftrightarrow> take n (slice_bytes a) = take n (slice_bytes b) \<and> size_of a = size_of b"
    using take_eq_cases [OF n] len by metis
  show ?thesis
  proof (rule that)
    show "Slice_compare a b = Some (if r = 0 then (if size_of a < size_of b then -1
      else if size_of a > size_of b then 1 else r) else r)"
      by (simp add: Slice_compare_def r(1) flip: n_def)
  qed (use r(2,3) lt eq len in \<open>auto split: if_splits\<close>)
qed

lemma difference_loop_take:
  "n \<le> length as \<Longrightarrow> n \<le> length bs \<Longrightarrow>
   \<exists>k. difference_loop as bs n = Some k \<and> k \<le> n \<and> take k as = take k bs \<and>
       (k < n \<longrightarrow> as ! k \<noteq> bs ! k)"
proof (induction as bs n rule: difference_loop.induct)
  case (2 a as b bs n)
  then show ?case by (cases "a = b") auto
qed auto

lemma slice_bytes_of_string [simp]: "slice_bytes (Slice_of_string s) = s"
  by (simp add: slice_bytes_def Slice_of_string_def c_str_def)

lemma slice_ok_of_string [simp]: "slice_ok (Slice_of_string s)"
  by (simp add: slice_ok_def Slice_of_string_def c_str_def)

lemma slice_bytes_remove_prefix:
  "slice_ok s \<Longrightarrow> n \<le> size_of s \<Longrightarrow>
   \<exists>s'. remove_prefix n s = Some s' \<and> slice_ok s' \<and> slice_bytes s' = drop n (slice_bytes s)"
  by (auto simp: remove_prefix_def slice_ok_def slice_bytes_def drop_take)

lemma Slice_of_cstr_bytes:
  "terminated m \<Longrightarrow> Slice_of_cstr m = Some \<lparr>data_ptr = m, size_of = length (cstr m)\<rparr>"
  by (simp add: Slice_of_cstr_def)

end
