(* ===== verification/Scree_Data.thy ===== *)
theory Scree_Data
  imports Slices
begin

text \<open>
  The data of ScreeDB (utilities/screedb/screedb.h) and its string and hash helpers
  (utilities/screedb/screedb.cc): persistent strings, persistent leaves and root, volatile nodes,
  the Pearson hash.  Pointers are natural numbers into two heaps, one volatile (nodes) and one
  persistent (leaves); a null pointer is \<open>None\<close>.  The character array a long
  \<open>ScreeDBString\<close> points to is owned by that string alone, so it is stored inside it.

  Allocation in the persistent pool belongs to the NVML library.  Whether the \<open>i\<close>-th
  allocation of a run succeeds is the parameter \<open>alloc\<close> of the operations; a failed one throws,
  and the enclosing transaction rolls the persistent data back.
\<close>

section \<open>Constants\<close>

definition INNER_KEYS :: nat where "INNER_KEYS = 4"
definition INNER_KEYS_MIDPOINT :: nat where "INNER_KEYS_MIDPOINT = INNER_KEYS div 2"
definition INNER_KEYS_UPPER :: nat where "INNER_KEYS_UPPER = INNER_KEYS div 2 + 1"
definition NODE_KEYS :: nat where "NODE_KEYS = 48"
definition NODE_KEYS_MIDPOINT :: nat where "NODE_KEYS_MIDPOINT = 24"
definition SSO_CHARS :: nat where "SSO_CHARS = 15"
definition SSO_SIZE :: nat where "SSO_SIZE = SSO_CHARS + 1"

lemmas scree_consts = INNER_KEYS_def INNER_KEYS_MIDPOINT_def INNER_KEYS_UPPER_def NODE_KEYS_def
  NODE_KEYS_MIDPOINT_def SSO_CHARS_def SSO_SIZE_def

section \<open>Persistent and volatile structures\<close>

record ScreeDBString =
  sso :: bytes
  str :: "bytes option"

record ScreeDBLeaf =
  phashes :: "byte list"
  next_leaf :: "nat option"
  kv_keys :: "ScreeDBString list"
  kv_values :: "ScreeDBString list"

record ScreeDBRoot =
  opened :: u64
  closed :: u64
  head :: "nat option"

record ScreeDBNode =
  is_leaf :: bool
  parent :: "nat option"

record ScreeDBInnerNode = ScreeDBNode +
  keycount :: nat
  keys :: "bytes list"
  children :: "nat option list"

record ScreeDBLeafNode = ScreeDBNode +
  hashes :: "byte list"
  leaf :: "nat option"
  lock :: bool

datatype vnode = VInner ScreeDBInnerNode | VLeaf ScreeDBLeafNode

text \<open>The state of a \<open>ScreeDBTree\<close>: both heaps with their next free address, the top of the
  volatile tree, the persistent root, and the number of persistent allocations so far.\<close>

record ScreeDBTree =
  vheap :: "nat \<Rightarrow> vnode option"
  vnext :: nat
  top_node :: "nat option"
  pheap :: "nat \<Rightarrow> ScreeDBLeaf option"
  pnext :: nat
  proot :: ScreeDBRoot
  allocs :: nat

text \<open>What value-initialisation gives (\<open>new T()\<close>, \<open>make_persistent<T>()\<close>).\<close>

definition new_ScreeDBString :: ScreeDBString where
  "new_ScreeDBString = \<lparr>sso = replicate SSO_SIZE 0, str = None\<rparr>"

definition new_ScreeDBLeaf :: ScreeDBLeaf where
  "new_ScreeDBLeaf = \<lparr>phashes = replicate NODE_KEYS 0, next_leaf = None,
     kv_keys = replicate NODE_KEYS new_ScreeDBString, kv_values = replicate NODE_KEYS new_ScreeDBString\<rparr>"

definition new_ScreeDBInnerNode :: ScreeDBInnerNode where
  "new_ScreeDBInnerNode = \<lparr>is_leaf = False, parent = None, keycount = 0,
     keys = replicate (INNER_KEYS + 1) [], children = replicate (INNER_KEYS + 2) None\<rparr>"

definition new_ScreeDBLeafNode :: ScreeDBLeafNode where
  "new_ScreeDBLeafNode = \<lparr>is_leaf = False, parent = None,
     hashes = replicate NODE_KEYS 0, leaf = None, lock = False\<rparr>"

definition new_ScreeDBRoot :: ScreeDBRoot where
  "new_ScreeDBRoot = \<lparr>opened = 0, closed = 0, head = None\<rparr>"

text \<open>Fields of the common base struct, whatever the node is.\<close>

definition node_is_leaf :: "vnode \<Rightarrow> bool" where
  "node_is_leaf v = (case v of VInner i \<Rightarrow> is_leaf i | VLeaf l \<Rightarrow> is_leaf l)"

definition node_parent :: "vnode \<Rightarrow> nat option" where
  "node_parent v = (case v of VInner i \<Rightarrow> parent i | VLeaf l \<Rightarrow> parent l)"

definition set_parent :: "nat option \<Rightarrow> vnode \<Rightarrow> vnode" where
  "set_parent p v = (case v of VInner i \<Rightarrow> VInner (i\<lparr>parent := p\<rparr>) | VLeaf l \<Rightarrow> VLeaf (l\<lparr>parent := p\<rparr>))"

text \<open>Dereferencing with the cast the code makes.\<close>

definition inner_at :: "(nat \<Rightarrow> vnode option) \<Rightarrow> nat \<Rightarrow> ScreeDBInnerNode option" where
  "inner_at h a = (case h a of Some (VInner i) \<Rightarrow> Some i | _ \<Rightarrow> None)"

definition leafnode_at :: "(nat \<Rightarrow> vnode option) \<Rightarrow> nat \<Rightarrow> ScreeDBLeafNode option" where
  "leafnode_at h a = (case h a of Some (VLeaf l) \<Rightarrow> Some l | _ \<Rightarrow> None)"

definition leaf_at :: "(nat \<Rightarrow> ScreeDBLeaf option) \<Rightarrow> nat option \<Rightarrow> ScreeDBLeaf option" where
  "leaf_at P p = Option.bind p P"

section \<open>Persistent strings\<close>

definition data :: "ScreeDBString \<Rightarrow> bytes" where
  "data s = (case str s of Some m \<Rightarrow> m | None \<Rightarrow> sso s)"

definition is_short :: "ScreeDBString \<Rightarrow> bool" where
  "is_short s \<longleftrightarrow> str s = None"

text \<open>\<open>set\<close> runs inside a transaction.  The result says whether it returned normally; when it
  did not, the transaction aborts and the string it was given stays.\<close>

definition set_string :: "(nat \<Rightarrow> bool) \<Rightarrow> Slice \<Rightarrow> nat \<Rightarrow> ScreeDBString \<Rightarrow> (bool \<times> nat \<times> ScreeDBString) option" where
  "set_string alloc sl n s = do {
     _ \<leftarrow> (case str s of Some m \<Rightarrow> strlen m | None \<Rightarrow> Some 0);
     if size_of sl \<le> SSO_CHARS then do {
       b \<leftarrow> strcpy (sso s) (data_ptr sl);
       Some (True, n, s\<lparr>str := None, sso := b\<rparr>)
     } else if alloc n then do {
       m \<leftarrow> strcpy (replicate (size_of sl + 1) 0) (data_ptr sl);
       Some (True, Suc n, s\<lparr>str := Some m\<rparr>)
     } else Some (False, Suc n, s) }"

section \<open>The Pearson hash\<close>

definition PEARSON_LOOKUP_TABLE :: "byte list" where
  "PEARSON_LOOKUP_TABLE = [
        251, 175, 119, 215, 81, 14, 79, 191, 103, 49, 181, 143, 186, 157, 0,
        232, 31, 32, 55, 60, 152, 58, 17, 237, 174, 70, 160, 144, 220, 90, 57,
        223, 59, 3, 18, 140, 111, 166, 203, 196, 134, 243, 124, 95, 222, 179,
        197, 65, 180, 48, 36, 15, 107, 46, 233, 130, 165, 30, 123, 161, 209, 23,
        97, 16, 40, 91, 219, 61, 100, 10, 210, 109, 250, 127, 22, 138, 29, 108,
        244, 67, 207, 9, 178, 204, 74, 98, 126, 249, 167, 116, 34, 77, 193,
        200, 121, 5, 20, 113, 71, 35, 128, 13, 182, 94, 25, 226, 227, 199, 75,
        27, 41, 245, 230, 224, 43, 225, 177, 26, 155, 150, 212, 142, 218, 115,
        241, 73, 88, 105, 39, 114, 62, 255, 192, 201, 145, 214, 168, 158, 221,
        148, 154, 122, 12, 84, 82, 163, 44, 139, 228, 236, 205, 242, 217, 11,
        187, 146, 159, 64, 86, 239, 195, 42, 106, 198, 118, 112, 184, 172, 87,
        2, 173, 117, 176, 229, 247, 253, 137, 185, 99, 164, 102, 147, 45, 66,
        231, 52, 141, 211, 194, 206, 246, 238, 56, 110, 78, 248, 63, 240, 189,
        93, 92, 51, 53, 183, 19, 171, 72, 50, 33, 104, 101, 69, 8, 252, 83, 120,
        76, 135, 85, 54, 202, 125, 188, 213, 96, 235, 136, 208, 162, 129, 190,
        132, 156, 38, 47, 1, 7, 254, 24, 4, 216, 131, 89, 21, 28, 133, 37, 153,
        149, 80, 170, 68, 6, 169, 234, 151]"

text \<open>The table index is an \<open>int\<close>: the hash is an unsigned byte, the character is a
  (signed) \<open>char\<close> and both are promoted, so a character above 127 gives a negative index.\<close>

definition pearson_index :: "byte \<Rightarrow> byte \<Rightarrow> int" where
  "pearson_index hash c = uint hash XOR sint c"

definition pearson_step :: "byte \<Rightarrow> byte \<Rightarrow> byte option" where
  "pearson_step hash c =
     (if 0 \<le> pearson_index hash c then nth_opt PEARSON_LOOKUP_TABLE (nat (pearson_index hash c)) else None)"

fun pearson_loop :: "bytes \<Rightarrow> nat \<Rightarrow> byte \<Rightarrow> byte option" where
  "pearson_loop d 0 hash = Some hash"
| "pearson_loop d (Suc i) hash = do {
     c \<leftarrow> nth_opt d i;
     hash' \<leftarrow> pearson_step hash c;
     pearson_loop d i hash' }"

definition PearsonHash :: "bytes \<Rightarrow> nat \<Rightarrow> byte option" where
  "PearsonHash d sz = do {
     hash \<leftarrow> pearson_loop d sz (of_nat sz);
     Some (if hash = 0 then 1 else hash) }"

section \<open>Facts about the hash\<close>

definition ascii :: "bytes \<Rightarrow> bool" where
  "ascii bs \<longleftrightarrow> (\<forall>b\<in>set bs. b < 128)"

lemma length_PEARSON [simp]: "length PEARSON_LOOKUP_TABLE = 256"
  by (simp add: PEARSON_LOOKUP_TABLE_def)

lemma pearson_index_ascii: "c < 128 \<Longrightarrow> pearson_index h c = uint (h XOR c)"
proof -
  assume "c < 128"
  then have "uint c < 128" by (simp add: word_less_def)
  then have "signed_take_bit 7 (uint c) = uint c"
    by (intro signed_take_bit_int_eq_self) (auto intro: order_trans [of _ 0])
  then have "sint c = uint c" by (simp add: sint_uint)
  then show ?thesis by (simp add: pearson_index_def unsigned_xor_eq)
qed

lemma pearson_index_signed: "\<not> c < 128 \<Longrightarrow> pearson_index h c < 0"
proof -
  assume "\<not> c < 128"
  then have "2 ^ 7 \<le> uint c" by (simp add: word_less_def)
  from signed_take_bit_int_less_eq [OF this] have "sint c \<le> uint c - 256" by (simp add: sint_uint)
  moreover have "uint c < 256" using uint_lt2p [of c] by simp
  ultimately have "sint c < 0" by linarith
  then show ?thesis by (simp add: pearson_index_def xor_negative_int_iff not_less)
qed

lemma pearson_step_ascii:
  assumes "c < 128"
  shows "pearson_step h c = Some (PEARSON_LOOKUP_TABLE ! unat (h XOR c))"
proof -
  have "unat (h XOR c) < 256" using unsigned_less [of "h XOR c"] by simp
  then show ?thesis using assms
    by (simp add: pearson_step_def pearson_index_ascii flip: unat_eq_nat_uint)
qed

lemma pearson_step_signed: "\<not> c < 128 \<Longrightarrow> pearson_step h c = None"
  using pearson_index_signed [of c h] by (simp add: pearson_step_def)

lemma pearson_loop_take:
  "i \<le> n \<Longrightarrow> n \<le> length d \<Longrightarrow> pearson_loop (take n d) i h = pearson_loop d i h"
  by (induction i arbitrary: h) (auto intro!: Option.bind_cong)

lemma pearson_loop_defined:
  "i \<le> length d \<Longrightarrow> pearson_loop d i h \<noteq> None \<longleftrightarrow> ascii (take i d)"
proof (induction i arbitrary: h)
  case (Suc i)
  then show ?case
    by (cases "d ! i < 128")
      (auto simp: pearson_step_ascii pearson_step_signed ascii_def take_Suc_conv_app_nth)
qed (simp add: ascii_def)

lemma PearsonHash_defined:
  "n \<le> length d \<Longrightarrow> PearsonHash d n \<noteq> None \<longleftrightarrow> ascii (take n d)"
  using pearson_loop_defined [of n d "of_nat n"] by (auto simp: PearsonHash_def split: bind_splits)

text \<open>The hash of a key, for keys on which it is defined.\<close>

definition key_hash :: "bytes \<Rightarrow> byte" where
  "key_hash k = the (PearsonHash k (length k))"

lemma PearsonHash_ascii:
  assumes "n \<le> length d" "ascii (take n d)"
  shows "PearsonHash d n = Some (key_hash (take n d))"
proof -
  have "PearsonHash d n = PearsonHash (take n d) n"
    using assms(1) by (simp add: PearsonHash_def pearson_loop_take)
  moreover have "PearsonHash d n \<noteq> None" using PearsonHash_defined assms by blast
  ultimately show ?thesis using assms(1) by (auto simp: key_hash_def)
qed

lemma key_hash_nonzero: "ascii k \<Longrightarrow> key_hash k \<noteq> 0"
  using PearsonHash_ascii [of "length k" k] by (auto simp: PearsonHash_def split: bind_splits if_splits)

section \<open>Facts about persistent strings\<close>

definition str_ok :: "ScreeDBString \<Rightarrow> bool" where
  "str_ok s \<longleftrightarrow> length (sso s) = SSO_SIZE \<and> terminated (sso s) \<and> (\<forall>m. str s = Some m \<longrightarrow> terminated m)"

definition content :: "ScreeDBString \<Rightarrow> bytes" where
  "content s = cstr (data s)"

lemma str_ok_new [simp]: "str_ok new_ScreeDBString"
  by (simp add: str_ok_def new_ScreeDBString_def terminated_def SSO_SIZE_def)

lemma str_ok_data [simp]: "str_ok s \<Longrightarrow> terminated (data s)"
  by (auto simp: str_ok_def data_def split: option.splits)

lemma length_cstr_less: "terminated m \<Longrightarrow> length (cstr m) < length m"
  by (metis terminatedE length_append length_Cons less_add_Suc1 add_Suc_right)

lemma is_short_content: "str_ok s \<Longrightarrow> is_short s \<Longrightarrow> length (content s) \<le> SSO_CHARS"
  using length_cstr_less [of "sso s"]
  by (auto simp: str_ok_def is_short_def content_def data_def SSO_SIZE_def)

lemma set_string_short:
  assumes "str_ok s" "terminated m" "length (cstr m) \<le> SSO_CHARS"
  shows "\<exists>s'. set_string alloc \<lparr>data_ptr = m, size_of = length (cstr m)\<rparr> n s = Some (True, n, s') \<and>
    str_ok s' \<and> content s' = cstr m"
proof -
  obtain b where "strcpy (sso s) m = Some b" "cstr b = cstr m" "terminated b" "length b = length (sso s)"
    using strcpy_Some [of m "sso s"] assms by (auto simp: str_ok_def SSO_SIZE_def)
  then show ?thesis using assms
    by (auto simp: set_string_def str_ok_def content_def data_def split: option.splits)
qed

lemma set_string_ok:
  assumes "str_ok s" "terminated m" "\<forall>i. alloc i"
  shows "\<exists>n' s'. set_string alloc \<lparr>data_ptr = m, size_of = length (cstr m)\<rparr> n s = Some (True, n', s') \<and>
    str_ok s' \<and> content s' = cstr m"
proof (cases "length (cstr m) \<le> SSO_CHARS")
  case True
  then show ?thesis using set_string_short [OF assms(1,2), of alloc n] by blast
next
  case False
  obtain b where "strcpy (replicate (length (cstr m) + 1) 0) m = Some b" "cstr b = cstr m" "terminated b"
    using strcpy_Some [of m "replicate (length (cstr m) + 1) 0"] assms by auto
  then show ?thesis using False assms
    by (auto simp: set_string_def str_ok_def content_def data_def split: option.splits)
qed

end
