(* ===== verification/Scree_Tree.thy ===== *)
theory Scree_Tree
  imports Scree_Data
begin

text \<open>
  The volatile tree of ScreeDB: \<open>LeafSearch\<close> and \<open>LeafUpdateParentsAfterSplit\<close>
  (utilities/screedb/screedb.cc), on the pointer structure the code uses, parent pointers included.

  The abstraction of a tree is the sequence of its leaves interleaved with the separator keys, in
  order (\<open>flat\<close>).  \<open>LeafSearch\<close> finds the position of a key in that sequence, and
  \<open>LeafUpdateParentsAfterSplit\<close> inserts a separator and a leaf after the split leaf, whatever
  inner nodes it has to split on the way up.
\<close>

section \<open>Searching\<close>

text \<open>The \<open>for\<close> loop over the keys of an inner node: index \<open>idx\<close>, \<open>n\<close> keys to go.\<close>

fun inner_search :: "bytes \<Rightarrow> ScreeDBInnerNode \<Rightarrow> nat \<Rightarrow> nat \<Rightarrow> nat option option" where
  "inner_search k i idx 0 = nth_opt (children i) idx"
| "inner_search k i idx (Suc n) = do {
     c \<leftarrow> nth_opt (children i) idx;
     s \<leftarrow> nth_opt (keys i) idx;
     r \<leftarrow> strcmp k (c_str s);
     if r \<le> 0 then Some c else inner_search k i (Suc idx) n }"

partial_function (option) search_loop :: "bytes \<Rightarrow> (nat \<Rightarrow> vnode option) \<Rightarrow> nat option \<Rightarrow> nat option" where
  "search_loop k h p = do {
     a \<leftarrow> p;
     v \<leftarrow> h a;
     if node_is_leaf v then Some a
     else do {
       i \<leftarrow> inner_at h a;
       c \<leftarrow> inner_search k i 0 (keycount i);
       search_loop k h c } }"

definition LeafSearch :: "Slice \<Rightarrow> ScreeDBTree \<Rightarrow> nat option option" where
  "LeafSearch key s =
     (case top_node s of
        None \<Rightarrow> Some None
      | Some a \<Rightarrow> map_option Some (search_loop (data_ptr key) (vheap s) (Some a)))"

section \<open>Updating the parents after a split\<close>

text \<open>The position of the split key, \<open>std::string::compare\<close> being the lexicographic order.\<close>

fun insert_pos :: "bytes list \<Rightarrow> bytes \<Rightarrow> nat \<Rightarrow> nat \<Rightarrow> nat" where
  "insert_pos ks sk idx 0 = idx"
| "insert_pos ks sk idx (Suc n) = (if ks ! idx \<le> sk then insert_pos ks sk (Suc idx) n else idx)"

text \<open>The two loops that make room move the elements \<open>lo .. n - 1\<close> one place up, last one first.\<close>

fun shift_up :: "'a list \<Rightarrow> nat \<Rightarrow> nat \<Rightarrow> 'a list" where
  "shift_up xs lo n = (if lo < n then shift_up (xs[n := xs ! (n - 1)]) lo (n - 1) else xs)"

declare shift_up.simps [simp del]

definition insert_child :: "ScreeDBInnerNode \<Rightarrow> bytes \<Rightarrow> nat \<Rightarrow> ScreeDBInnerNode option" where
  "insert_child i sk new_node =
     (if keycount i < length (keys i) \<and> keycount i + 1 < length (children i) then
        (let idx = insert_pos (keys i) sk 0 (keycount i) in
         Some (i\<lparr>keys := (shift_up (keys i) idx (keycount i))[idx := sk],
                 children := (shift_up (children i) idx (keycount i + 1))[idx + 1 := Some new_node],
                 keycount := keycount i + 1\<rparr>))
      else None)"

text \<open>Copying the upper half of the children to the new inner node and repointing their parent.\<close>

fun move_children :: "nat \<Rightarrow> ScreeDBInnerNode \<Rightarrow> nat list \<Rightarrow> ScreeDBInnerNode \<times> (nat \<Rightarrow> vnode option)
    \<Rightarrow> (ScreeDBInnerNode \<times> (nat \<Rightarrow> vnode option)) option" where
  "move_children q i [] st = Some st"
| "move_children q i (j # js) (ni, h) = do {
     c \<leftarrow> nth_opt (children i) j;
     a \<leftarrow> c;
     v \<leftarrow> h a;
     move_children q i js
       (ni\<lparr>children := (children ni)[j - INNER_KEYS_UPPER := c]\<rparr>, h(a \<mapsto> set_parent (Some q) v)) }"

definition copy_keys :: "ScreeDBInnerNode \<Rightarrow> bytes list \<Rightarrow> bytes list" where
  "copy_keys i ks =
     fold (\<lambda>j ks. ks[j - INNER_KEYS_UPPER := keys i ! j]) [INNER_KEYS_UPPER..<keycount i] ks"

text \<open>Splitting the overfull inner node at address \<open>p\<close>; gives the new node and its split key.\<close>

definition split_inner :: "nat \<Rightarrow> ScreeDBInnerNode \<Rightarrow> ScreeDBTree \<Rightarrow> (nat \<times> bytes \<times> ScreeDBTree) option" where
  "split_inner p i s = do {
     let q = vnext s;
     let ni = new_ScreeDBInnerNode\<lparr>parent := parent i, keys := copy_keys i (keys new_ScreeDBInnerNode)\<rparr>;
     (ni', h) \<leftarrow> move_children q i [INNER_KEYS_UPPER..<keycount i + 1] (ni, vheap s);
     new_split_key \<leftarrow> nth_opt (keys i) INNER_KEYS_MIDPOINT;
     Some (q, new_split_key,
           s\<lparr>vheap := h(q \<mapsto> VInner (ni'\<lparr>keycount := INNER_KEYS_MIDPOINT\<rparr>),
                        p \<mapsto> VInner (i\<lparr>keycount := INNER_KEYS_MIDPOINT\<rparr>)),
             vnext := Suc q\<rparr>) }"

partial_function (option) LeafUpdateParentsAfterSplit ::
    "nat \<Rightarrow> nat \<Rightarrow> bytes \<Rightarrow> ScreeDBTree \<Rightarrow> ScreeDBTree option" where
  "LeafUpdateParentsAfterSplit node new_node split_key s = do {
     v \<leftarrow> vheap s node;
     (case node_parent v of
        None \<Rightarrow> do {
          let t = vnext s;
          let h1 = (vheap s)(t \<mapsto> VInner (new_ScreeDBInnerNode\<lparr>keycount := 1,
               keys := (keys new_ScreeDBInnerNode)[0 := split_key],
               children := (children new_ScreeDBInnerNode)[0 := Some node, 1 := Some new_node]\<rparr>));
          v1 \<leftarrow> h1 node;
          let h2 = h1(node \<mapsto> set_parent (Some t) v1);
          v2 \<leftarrow> h2 new_node;
          Some (s\<lparr>vheap := h2(new_node \<mapsto> set_parent (Some t) v2), vnext := Suc t, top_node := Some t\<rparr>) }
      | Some p \<Rightarrow> do {
          i \<leftarrow> inner_at (vheap s) p;
          i' \<leftarrow> insert_child i split_key new_node;
          let s' = s\<lparr>vheap := (vheap s)(p \<mapsto> VInner i')\<rparr>;
          if keycount i' \<le> INNER_KEYS then Some s'
          else do {
            (q, new_split_key, s'') \<leftarrow> split_inner p i' s';
            LeafUpdateParentsAfterSplit p q new_split_key s'' } }) }"

section \<open>Trees and their sequence of leaves and separators\<close>

datatype gtree = GLeaf nat | GInner nat "bytes list" "gtree list"

datatype item = L nat | K bytes

primrec gaddr :: "gtree \<Rightarrow> nat" where
  "gaddr (GLeaf a) = a"
| "gaddr (GInner a ks ts) = a"

fun gaddrs :: "gtree \<Rightarrow> nat list" where
  "gaddrs (GLeaf a) = [a]"
| "gaddrs (GInner a ks ts) = a # concat (map gaddrs ts)"

fun weave :: "item list list \<Rightarrow> bytes list \<Rightarrow> item list" where
  "weave [] ks = []"
| "weave [x] ks = x"
| "weave (x # y # xs) [] = x"
| "weave (x # y # xs) (k # ks) = x @ K k # weave (y # xs) ks"

fun flat :: "gtree \<Rightarrow> item list" where
  "flat (GLeaf a) = [L a]"
| "flat (GInner a ks ts) = weave (map flat ts) ks"

definition seps :: "item list \<Rightarrow> bytes list" where
  "seps xs = concat (map (\<lambda>x. case x of K k \<Rightarrow> [k] | L a \<Rightarrow> []) xs)"

definition lvs :: "item list \<Rightarrow> nat list" where
  "lvs xs = concat (map (\<lambda>x. case x of L a \<Rightarrow> [a] | K k \<Rightarrow> []) xs)"

lemma seps_simps [simp]: "seps [] = []" "seps (L a # xs) = seps xs" "seps (K k # xs) = k # seps xs"
  "seps (xs @ ys) = seps xs @ seps ys"
  by (auto simp: seps_def)

lemma lvs_simps [simp]: "lvs [] = []" "lvs (L a # xs) = a # lvs xs" "lvs (K k # xs) = lvs xs"
  "lvs (xs @ ys) = lvs xs @ lvs ys"
  by (auto simp: lvs_def)

lemma set_lvs: "a \<in> set (lvs xs) \<longleftrightarrow> L a \<in> set xs"
  by (induction xs) (auto simp: lvs_def split: item.splits)

text \<open>One inner node of the heap: its parent, its keys and its children.\<close>

definition node_rep :: "(nat \<Rightarrow> vnode option) \<Rightarrow> nat option \<Rightarrow> nat \<Rightarrow> bytes list \<Rightarrow> nat list \<Rightarrow> bool" where
  "node_rep h p a ks cs \<longleftrightarrow> (\<exists>i. h a = Some (VInner i) \<and> \<not> is_leaf i \<and> parent i = p \<and>
     keycount i = length ks \<and> length cs = Suc (length ks) \<and> ks \<noteq> [] \<and> length ks \<le> INNER_KEYS \<and>
     length (keys i) = INNER_KEYS + 1 \<and> length (children i) = INNER_KEYS + 2 \<and>
     take (length ks) (keys i) = ks \<and> take (length cs) (children i) = map Some cs)"

fun rep :: "(nat \<Rightarrow> vnode option) \<Rightarrow> nat option \<Rightarrow> gtree \<Rightarrow> bool" where
  "rep h p (GLeaf a) \<longleftrightarrow> (\<exists>l. h a = Some (VLeaf l) \<and> is_leaf l \<and> parent l = p)"
| "rep h p (GInner a ks ts) \<longleftrightarrow> node_rep h p a ks (map gaddr ts) \<and> (\<forall>t\<in>set ts. rep h (Some a) t)"

section \<open>The sequence around one child\<close>

definition wl :: "item list list \<Rightarrow> bytes list \<Rightarrow> item list" where
  "wl xs ks = concat (map2 (\<lambda>x k. x @ [K k]) xs ks)"

definition wr :: "bytes list \<Rightarrow> item list list \<Rightarrow> item list" where
  "wr ks xs = concat (map2 (\<lambda>k x. K k # x) ks xs)"

lemma wl_simps [simp]: "wl [] ks = []" "wl (x # xs) (k # ks) = x @ K k # wl xs ks"
  "length xs = length ks \<Longrightarrow> wl (xs @ [x]) (ks @ [k]) = wl xs ks @ x @ [K k]"
  by (auto simp: wl_def)

lemma wr_simps [simp]: "wr [] xs = []" "wr (k # ks) (x # xs) = K k # x @ wr ks xs"
  by (auto simp: wr_def)

lemma weave_Cons: "length ks = length xs \<Longrightarrow> weave (x # xs) ks = x @ wr ks xs"
  by (induction xs arbitrary: x ks) (auto simp: length_Suc_conv Suc_length_conv)

lemma weave_split:
  "length xs = length ks \<Longrightarrow> length ys = length ls \<Longrightarrow>
   weave (xs @ y # ys) (ks @ ls) = wl xs ks @ y @ wr ls ys"
proof (induction xs arbitrary: ks)
  case (Cons x xs)
  then show ?case by (cases ks; cases xs) (auto simp: weave_Cons)
qed (simp add: weave_Cons)

lemma seps_wl_last:
  assumes "length xs = length ks" "ks \<noteq> []"
  shows "\<exists>S. seps (wl xs ks) = S @ [last ks]"
proof -
  obtain ks' k where k: "ks = ks' @ [k]" using assms(2) by (cases ks rule: rev_cases) auto
  with assms(1) obtain xs' x where "xs = xs' @ [x]" "length xs' = length ks'"
    by (cases xs rule: rev_cases) auto
  with k show ?thesis by simp
qed

lemma seps_wr_hd: "length ks = length xs \<Longrightarrow> ks \<noteq> [] \<Longrightarrow> \<exists>S. seps (wr ks xs) = hd ks # S"
  by (cases ks; cases xs) auto

section \<open>Searching finds the leaf whose range holds the key\<close>

lemma inner_search_spec:
  assumes "n = length ks - idx" "idx \<le> length ks" "terminated k" "\<forall>s\<in>set ks. 0 \<notin> set s"
    "take (length ks) (keys i) = ks" "length ks \<le> length (keys i)"
    "take (Suc (length ks)) (children i) = map Some cs" "length ks < length (children i)"
    "\<forall>j<idx. ks ! j < cstr k"
  shows "\<exists>j\<le>length ks. inner_search k i idx n = Some (Some (cs ! j)) \<and> (\<forall>m<j. ks ! m < cstr k) \<and>
     (j < length ks \<longrightarrow> cstr k \<le> ks ! j)"
  using assms
proof (induction n arbitrary: idx)
  case 0
  then have idx: "idx = length ks" by simp
  have "children i ! idx = take (Suc (length ks)) (children i) ! idx" by (simp add: idx)
  also have "length cs = Suc (length ks)" using 0 by (metis length_map length_take min.absorb4 Suc_leI min_absorb2)
  then have "take (Suc (length ks)) (children i) ! idx = Some (cs ! idx)" using 0 idx by simp
  finally show ?case using 0 idx by (intro exI [of _ idx]) auto
next
  case (Suc n)
  have idx: "idx < length ks" using Suc.prems(1) by simp
  have "length cs = Suc (length ks)" using Suc.prems(7,8) by (metis length_map length_take Suc_leI min_absorb2)
  then have c: "children i ! idx = Some (cs ! idx)"
    using Suc.prems(7) idx by (metis less_SucI nth_map nth_take)
  have s: "keys i ! idx = ks ! idx" using Suc.prems(5) idx by (metis nth_take)
  have z: "cstr (c_str (ks ! idx)) = ks ! idx" using Suc.prems(4) idx by simp
  obtain r where r: "strcmp k (c_str (ks ! idx)) = Some r" "r \<le> 0 \<longleftrightarrow> cstr k \<le> ks ! idx"
    using strcmp_total [OF Suc.prems(3) terminated_c_str [of "ks ! idx"]] z by metis
  show ?case
  proof (cases "r \<le> 0")
    case True
    have "inner_search k i idx (Suc n) = Some (Some (cs ! idx))"
      using True idx c s r Suc.prems(6,8) by (simp add: nth_opt_def)
    then show ?thesis using Suc.prems(9) idx r True by (intro exI [of _ idx]) auto
  next
    case False
    have "\<exists>j\<le>length ks. inner_search k i (Suc idx) n = Some (Some (cs ! j)) \<and> (\<forall>m<j. ks ! m < cstr k) \<and>
       (j < length ks \<longrightarrow> cstr k \<le> ks ! j)"
      by (rule Suc.IH) (use Suc.prems idx False r in \<open>auto simp: less_Suc_eq\<close>)
    moreover have "inner_search k i idx (Suc n) = inner_search k i (Suc idx) n"
      using False idx c s r Suc.prems(6,8) by (simp add: nth_opt_def)
    ultimately show ?thesis by simp
  qed
qed

lemma search_ok:
  assumes "rep h p t" "terminated k" "\<forall>s\<in>set (seps (flat t)). 0 \<notin> set s" "sorted (seps (flat t))"
  shows "\<exists>a X Y. search_loop k h (Some (gaddr t)) = Some a \<and> flat t = X @ L a # Y \<and>
     (\<forall>s\<in>set (seps X). s < cstr k) \<and> (\<forall>s\<in>set (seps Y). cstr k \<le> s)"
  using assms
proof (induction t arbitrary: p)
  case (GLeaf a)
  then obtain l where "h a = Some (VLeaf l)" "is_leaf l" by auto
  then have "search_loop k h (Some a) = Some a"
    by (subst search_loop.simps) (simp add: node_is_leaf_def)
  then show ?case by (intro exI [of _ a] exI [of _ "[]"]) simp
next
  case (GInner a ks ts)
  from GInner.prems(1) obtain i where i: "h a = Some (VInner i)" "\<not> is_leaf i" "keycount i = length ks"
    "length ts = Suc (length ks)" "length (keys i) = INNER_KEYS + 1" "length (children i) = INNER_KEYS + 2"
    "length ks \<le> INNER_KEYS" "take (length ks) (keys i) = ks" "take (length ts) (children i) = map Some (map gaddr ts)"
    by (auto simp: node_rep_def)
  have ch: "\<And>t. t \<in> set ts \<Longrightarrow> rep h (Some a) t" using GInner.prems(1) by simp
  have dec: "flat (GInner a ks ts) = wl (take j (map flat ts)) (take j ks) @ flat (ts ! j) @ wr (drop j ks) (drop (Suc j) (map flat ts))"
    if "j \<le> length ks" for j
    using weave_split [of "take j (map flat ts)" "take j ks" "drop (Suc j) (map flat ts)" "drop j ks" "flat (ts ! j)"]
      that i(4) id_take_nth_drop [of j "map flat ts"] by simp
  have nul: "\<forall>s\<in>set ks. 0 \<notin> set s"
  proof
    fix s assume "s \<in> set ks"
    then obtain j where j: "j < length ks" "ks ! j = s" by (auto simp: in_set_conv_nth)
    have "s \<in> set (seps (wr (drop j ks) (drop (Suc j) (map flat ts))))"
      using seps_wr_hd [of "drop j ks" "drop (Suc j) (map flat ts)"] j i(4) by (auto simp: hd_drop_conv_nth)
    then show "0 \<notin> set s" using GInner.prems(3) dec [of j] j by simp
  qed
  have "\<exists>j\<le>length ks. inner_search k i 0 (keycount i) = Some (Some (map gaddr ts ! j)) \<and>
     (\<forall>m<j. ks ! m < cstr k) \<and> (j < length ks \<longrightarrow> cstr k \<le> ks ! j)"
    by (rule inner_search_spec) (use i nul GInner.prems(2) in auto)
  then obtain j where j: "j \<le> length ks" "inner_search k i 0 (keycount i) = Some (Some (gaddr (ts ! j)))"
    "\<forall>m<j. ks ! m < cstr k" "j < length ks \<longrightarrow> cstr k \<le> ks ! j"
    using i(4) by (metis le_imp_less_Suc nth_map)
  have tj: "ts ! j \<in> set ts" using j(1) i(4) by simp
  note D = dec [OF j(1)]
  have srt: "sorted (seps (flat (ts ! j)))" "\<forall>s\<in>set (seps (flat (ts ! j))). 0 \<notin> set s"
    using GInner.prems(3,4) unfolding D by (auto simp: sorted_append)
  from GInner.IH [OF tj ch [OF tj] GInner.prems(2) srt(2,1)]
  obtain b X Y where b: "search_loop k h (Some (gaddr (ts ! j))) = Some b" "flat (ts ! j) = X @ L b # Y"
    "\<forall>s\<in>set (seps X). s < cstr k" "\<forall>s\<in>set (seps Y). cstr k \<le> s" by blast
  let ?l = "wl (take j (map flat ts)) (take j ks)" and ?r = "wr (drop j ks) (drop (Suc j) (map flat ts))"
  have left: "s < cstr k" if "s \<in> set (seps ?l)" for s
  proof (cases j)
    case (Suc m)
    then obtain S where S: "seps ?l = S @ [ks ! m]"
      using seps_wl_last [of "take j (map flat ts)" "take j ks"] j(1) i(4)
      by (cases "ks = []") (auto simp: last_conv_nth)
    then have "s \<le> ks ! m" using that GInner.prems(4) unfolding D by (auto simp: sorted_append)
    then show ?thesis using j(3) Suc by (meson lessI order_le_less_trans)
  qed (use that in simp)
  have right: "cstr k \<le> s" if "s \<in> set (seps ?r)" for s
  proof (cases "j < length ks")
    case True
    then obtain S where S: "seps ?r = ks ! j # S"
      using seps_wr_hd [of "drop j ks" "drop (Suc j) (map flat ts)"] i(4) by (auto simp: hd_drop_conv_nth)
    then have "ks ! j \<le> s" using that GInner.prems(4) unfolding D by (auto simp: sorted_append)
    then show ?thesis using j(4) True by auto
  qed (use that j(1) in simp)
  have "search_loop k h (Some a) = Some b"
    by (subst search_loop.simps) (simp add: i(1,2) node_is_leaf_def inner_at_def j(2) b(1))
  moreover have "flat (GInner a ks ts) = (?l @ X) @ L b # (Y @ ?r)" unfolding D b(2) by simp
  ultimately show ?case using left right b(3,4)
    by (intro exI [of _ b] exI [of _ "?l @ X"] exI [of _ "Y @ ?r"]) auto
qed

section \<open>Inserting into one inner node\<close>

lemma length_shift_up [simp]: "length (shift_up xs lo n) = length xs"
  by (induction xs lo n rule: shift_up.induct) (subst shift_up.simps, simp)

lemma nth_shift_up:
  "n < length xs \<Longrightarrow> j < length xs \<Longrightarrow>
   shift_up xs lo n ! j = (if lo < j \<and> j \<le> n then xs ! (j - 1) else xs ! j)"
proof (induction xs lo n arbitrary: j rule: shift_up.induct)
  case (1 xs lo n)
  show ?case
  proof (cases "lo < n")
    case True
    then have "shift_up xs lo n ! j = shift_up (xs[n := xs ! (n - 1)]) lo (n - 1) ! j"
      by (subst shift_up.simps) simp
    also have "\<dots> = (if lo < j \<and> j \<le> n - 1 then xs[n := xs ! (n - 1)] ! (j - 1) else xs[n := xs ! (n - 1)] ! j)"
      using True 1 by simp
    finally show ?thesis using True 1(2,3) by (auto simp: nth_list_update)
  next
    case False
    then show ?thesis by (subst shift_up.simps) auto
  qed
qed

lemma insert_pos_eq:
  assumes "\<forall>k\<in>set lks. k \<le> sk" "rks \<noteq> [] \<Longrightarrow> sk < hd rks" "take (length (lks @ rks)) ks = lks @ rks"
    "length (lks @ rks) \<le> length ks"
  shows "insert_pos ks sk 0 (length (lks @ rks)) = length lks"
proof -
  have nth: "ks ! j = (lks @ rks) ! j" if "j < length (lks @ rks)" for j
    using assms(3) that by (metis nth_take)
  have "insert_pos ks sk idx n = length lks"
    if "idx \<le> length lks" "n = length (lks @ rks) - idx" for idx n
    using that
  proof (induction n arbitrary: idx)
    case 0 then show ?case by simp
  next
    case (Suc n)
    then have idx: "idx < length (lks @ rks)" by simp
    show ?case
    proof (cases "idx < length lks")
      case True
      then have "ks ! idx \<le> sk" using nth [OF idx] assms(1) by (simp add: nth_append)
      moreover have "insert_pos ks sk (Suc idx) n = length lks"
        using Suc.prems True by (intro Suc.IH) auto
      ultimately show ?thesis by simp
    next
      case False
      then have i: "idx = length lks" using Suc.prems by simp
      then have "rks \<noteq> []" using idx by auto
      then have "sk < ks ! idx" using nth [OF idx] assms(2) i by (simp add: nth_append hd_conv_nth)
      then show ?thesis using i by (auto dest: leD)
    qed
  qed
  from this [of 0] show ?thesis by simp
qed

lemma shift_insert:
  assumes "take (length (l @ r)) xs = l @ r" "length (l @ r) < length xs"
  shows "take (Suc (length (l @ r))) ((shift_up xs (length l) (length (l @ r)))[length l := x]) = l @ x # r"
proof (rule nth_equalityI)
  show len: "length (take (Suc (length (l @ r))) ((shift_up xs (length l) (length (l @ r)))[length l := x])) = length (l @ x # r)"
    using assms(2) by simp
  fix j assume "j < length (take (Suc (length (l @ r))) ((shift_up xs (length l) (length (l @ r)))[length l := x]))"
  then have j: "j < Suc (length (l @ r))" by simp
  have nth: "xs ! i = (l @ r) ! i" if "i < length (l @ r)" for i
    using assms(1) that by (metis nth_take)
  show "take (Suc (length (l @ r))) ((shift_up xs (length l) (length (l @ r)))[length l := x]) ! j = (l @ x # r) ! j"
    using j assms(2) nth [of j] nth [of "j - 1"]
    by (auto simp: nth_list_update nth_shift_up nth_append nth_Cons' not_less)
qed

lemma shift_insert_child:
  assumes "take (Suc (length (l @ r))) xs = l @ y # r" "Suc (length (l @ r)) < length xs"
  shows "take (Suc (Suc (length (l @ r)))) ((shift_up xs (length l) (Suc (length (l @ r))))[Suc (length l) := x]) = l @ y # x # r"
proof (rule nth_equalityI)
  show "length (take (Suc (Suc (length (l @ r)))) ((shift_up xs (length l) (Suc (length (l @ r))))[Suc (length l) := x])) = length (l @ y # x # r)"
    using assms(2) by simp
  fix j assume "j < length (take (Suc (Suc (length (l @ r)))) ((shift_up xs (length l) (Suc (length (l @ r))))[Suc (length l) := x]))"
  then have j: "j < Suc (Suc (length (l @ r)))" by simp
  have nth: "xs ! i = (l @ y # r) ! i" if "i < Suc (length (l @ r))" for i
    using assms(1) that by (metis nth_take)
  show "take (Suc (Suc (length (l @ r)))) ((shift_up xs (length l) (Suc (length (l @ r))))[Suc (length l) := x]) ! j = (l @ y # x # r) ! j"
    using j assms(2) nth [of j] nth [of "j - 1"]
    by (auto simp: nth_list_update nth_shift_up nth_append nth_Cons' not_less)
qed

text \<open>The inner node after the insertion of \<open>sk\<close> and \<open>n'\<close> behind the child \<open>n\<close>; it may now be overfull.\<close>

lemma insert_child_ok:
  assumes "node_rep h p a (lks @ rks) (lcs @ n # rcs)" "length lks = length lcs" "length rks = length rcs"
    "\<forall>k\<in>set lks. k \<le> sk" "rks \<noteq> [] \<Longrightarrow> sk < hd rks"
  obtains i i' where "inner_at h a = Some i" "insert_child i sk n' = Some i'"
    "\<not> is_leaf i'" "parent i' = p" "keycount i' = Suc (length (lks @ rks))"
    "length (keys i') = INNER_KEYS + 1" "length (children i') = INNER_KEYS + 2"
    "take (Suc (length (lks @ rks))) (keys i') = lks @ sk # rks"
    "take (Suc (Suc (length (lks @ rks)))) (children i') = map Some (lcs @ n # n' # rcs)"
proof -
  from assms(1) obtain i where i: "h a = Some (VInner i)" "\<not> is_leaf i" "parent i = p"
    "keycount i = length (lks @ rks)" "length (lks @ rks) \<le> INNER_KEYS"
    "length (keys i) = INNER_KEYS + 1" "length (children i) = INNER_KEYS + 2"
    "take (length (lks @ rks)) (keys i) = lks @ rks"
    "take (length (lcs @ n # rcs)) (children i) = map Some (lcs @ n # rcs)"
    unfolding node_rep_def by blast
  have idx: "insert_pos (keys i) sk 0 (keycount i) = length lks"
    unfolding i(4) by (rule insert_pos_eq) (use assms(4,5) i in auto)
  have ks: "take (Suc (length (lks @ rks))) ((shift_up (keys i) (length lks) (keycount i))[length lks := sk]) = lks @ sk # rks"
    unfolding i(4) by (rule shift_insert) (use i in auto)
  have cs: "take (Suc (Suc (length (lks @ rks)))) ((shift_up (children i) (length lks) (Suc (keycount i)))[Suc (length lks) := Some n'])
      = map Some (lcs @ n # n' # rcs)"
    using shift_insert_child [of "map Some lcs" "map Some rcs" "children i" "Some n" "Some n'"] i(4,5,7,9) assms(2,3)
    by simp
  show ?thesis
  proof (rule that)
    show "inner_at h a = Some i" by (simp add: inner_at_def i(1))
    show "insert_child i sk n' = Some (i\<lparr>keys := (shift_up (keys i) (length lks) (keycount i))[length lks := sk],
        children := (shift_up (children i) (length lks) (Suc (keycount i)))[Suc (length lks) := Some n'],
        keycount := keycount i + 1\<rparr>)"
      unfolding insert_child_def idx using i(4-7) by (simp add: Let_def)
  qed (use i ks cs in simp_all)
qed

section \<open>Contexts: the path from a node to the top\<close>

text \<open>A frame is an inner node with one child left out, a context a path of them, innermost first.\<close>

datatype frame = Frame nat "bytes list" "gtree list" "bytes list" "gtree list"

fun plug :: "frame \<Rightarrow> gtree \<Rightarrow> gtree" where
  "plug (Frame a lks lts rks rts) t = GInner a (lks @ rks) (lts @ t # rts)"

fun plugs :: "frame list \<Rightarrow> gtree \<Rightarrow> gtree" where
  "plugs [] t = t"
| "plugs (f # c) t = plugs c (plug f t)"

fun frame_ok :: "frame \<Rightarrow> bool" where
  "frame_ok (Frame a lks lts rks rts) \<longleftrightarrow> length lks = length lts \<and> length rks = length rts"

fun cleft :: "frame list \<Rightarrow> item list" where
  "cleft [] = []"
| "cleft (Frame a lks lts rks rts # c) = cleft c @ wl (map flat lts) lks"

fun cright :: "frame list \<Rightarrow> item list" where
  "cright [] = []"
| "cright (Frame a lks lts rks rts # c) = wr rks (map flat rts) @ cright c"

lemma flat_plugs: "list_all frame_ok c \<Longrightarrow> flat (plugs c t) = cleft c @ flat t @ cright c"
proof (induction c arbitrary: t)
  case (Cons f c)
  obtain a lks lts rks rts where f: "f = Frame a lks lts rks rts" by (cases f)
  show ?case using Cons weave_split [of "map flat lts" lks "map flat rts" rks "flat t"]
    by (simp add: f)
qed simp

lemma plugs_append: "plugs (c @ d) t = plugs d (plugs c t)"
  by (induction c arbitrary: t) auto

lemma cleft_append: "cleft (c @ d) = cleft d @ cleft c"
  by (induction c rule: cleft.induct) auto

lemma cright_append: "cright (c @ d) = cright c @ cright d"
  by (induction c rule: cright.induct) auto

lemma item_in_weave:
  assumes "length xs = Suc (length ks)" "weave xs ks = X @ L a # Y"
  shows "\<exists>j X' Y'. j < length xs \<and> xs ! j = X' @ L a # Y' \<and>
     X = wl (take j xs) (take j ks) @ X' \<and> Y = Y' @ wr (drop j ks) (drop (Suc j) xs)"
  using assms
proof (induction xs ks arbitrary: X rule: weave.induct)
  case (2 x ks)
  then show ?case by (intro exI [of _ 0] exI [of _ X] exI [of _ Y]) simp
next
  case (4 x y xs k ks)
  have eq: "x @ K k # weave (y # xs) ks = X @ L a # Y" using 4 by simp
  then consider (here) Y' where "x = X @ L a # Y'" "Y = Y' @ K k # weave (y # xs) ks"
    | (there) X' where "X = x @ K k # X'" "weave (y # xs) ks = X' @ L a # Y"
    by (fastforce simp: append_eq_append_conv2 append_eq_Cons_conv Cons_eq_append_conv)
  then show ?case
  proof cases
    case here
    then show ?thesis using 4(2) weave_Cons [of ks xs y]
      by (intro exI [of _ 0] exI [of _ X] exI [of _ Y']) simp
  next
    case there
    then obtain j X'' Y' where "j < length (y # xs)" "(y # xs) ! j = X'' @ L a # Y'"
      "X' = wl (take j (y # xs)) (take j ks) @ X''" "Y = Y' @ wr (drop j ks) (drop (Suc j) (y # xs))"
      using 4 by auto
    then show ?thesis using there by (intro exI [of _ "Suc j"] exI [of _ X''] exI [of _ Y']) simp
  qed
qed auto

text \<open>Every leaf position of a represented tree has a context.\<close>

lemma context_exists:
  assumes "rep h p t" "flat t = X @ L a # Y"
  shows "\<exists>c. list_all frame_ok c \<and> plugs c (GLeaf a) = t \<and> cleft c = X \<and> cright c = Y"
  using assms
proof (induction t arbitrary: p X Y)
  case (GLeaf b)
  then show ?case by (intro exI [of _ "[]"]) (auto simp: Cons_eq_append_conv)
next
  case (GInner b ks ts)
  have len: "length ts = Suc (length ks)" using GInner.prems(1) by (auto simp: node_rep_def)
  then obtain j X' Y' where j: "j < length ts" "flat (ts ! j) = X' @ L a # Y'"
    "X = wl (map flat (take j ts)) (take j ks) @ X'" "Y = Y' @ wr (drop j ks) (map flat (drop (Suc j) ts))"
    using item_in_weave [of "map flat ts" ks X a Y] GInner.prems(2) by (auto simp: take_map drop_map)
  from GInner.IH [of "ts ! j" "Some b" X' Y'] j(1,2) GInner.prems(1) obtain c where
    c: "list_all frame_ok c" "plugs c (GLeaf a) = ts ! j" "cleft c = X'" "cright c = Y'" by auto
  let ?f = "Frame b (take j ks) (take j ts) (drop j ks) (drop (Suc j) ts)"
  show ?case
  proof (rule exI [of _ "c @ [?f]"], intro conjI)
    show "plugs (c @ [?f]) (GLeaf a) = GInner b ks ts"
      using c(2) j(1) by (simp add: plugs_append id_take_nth_drop [symmetric])
  qed (use c j len in \<open>auto simp: cleft_append cright_append\<close>)
qed

text \<open>The parent pointer of the hole and the representation of the frames around it.\<close>

fun hole_parent :: "frame list \<Rightarrow> nat option" where
  "hole_parent [] = None"
| "hole_parent (Frame a lks lts rks rts # c) = Some a"

fun crep :: "(nat \<Rightarrow> vnode option) \<Rightarrow> frame list \<Rightarrow> nat \<Rightarrow> bool" where
  "crep h [] n \<longleftrightarrow> True"
| "crep h (Frame a lks lts rks rts # c) n \<longleftrightarrow>
     node_rep h (hole_parent c) a (lks @ rks) (map gaddr lts @ n # map gaddr rts) \<and>
     (\<forall>t\<in>set lts \<union> set rts. rep h (Some a) t) \<and> crep h c a"

fun caddrs :: "frame list \<Rightarrow> nat list" where
  "caddrs [] = []"
| "caddrs (Frame a lks lts rks rts # c) = a # concat (map gaddrs (lts @ rts)) @ caddrs c"

lemma rep_plugs: "rep h None (plugs c t) \<longleftrightarrow> rep h (hole_parent c) t \<and> crep h c (gaddr t)"
  by (induction c arbitrary: t rule: caddrs.induct) auto

lemma set_gaddrs_plugs: "set (gaddrs (plugs c t)) = set (gaddrs t) \<union> set (caddrs c)"
  by (induction c arbitrary: t rule: caddrs.induct) auto

lemma distinct_gaddrs_plugs:
  "distinct (gaddrs (plugs c t)) \<longleftrightarrow>
   distinct (gaddrs t) \<and> distinct (caddrs c) \<and> set (gaddrs t) \<inter> set (caddrs c) = {}"
  by (induction c arbitrary: t rule: caddrs.induct) auto

lemma gaddr_in: "gaddr t \<in> set (gaddrs t)"
  by (cases t) auto

lemma node_rep_cong: "h' a = h a \<Longrightarrow> node_rep h' p a ks cs = node_rep h p a ks cs"
  by (simp add: node_rep_def)

lemma rep_cong: "(\<And>a. a \<in> set (gaddrs t) \<Longrightarrow> h' a = h a) \<Longrightarrow> rep h' p t = rep h p t"
proof (induction t arbitrary: p)
  case (GInner a ks ts)
  have "rep h' (Some a) t = rep h (Some a) t" if "t \<in> set ts" for t
    using GInner.IH [OF that] GInner.prems that by auto
  then show ?case using node_rep_cong [of h' a h] GInner.prems by simp
qed simp

lemma crep_cong: "(\<And>a. a \<in> set (caddrs c) \<Longrightarrow> h' a = h a) \<Longrightarrow> crep h' c n = crep h c n"
proof (induction c arbitrary: n rule: caddrs.induct)
  case (2 a lks lts rks rts c)
  have "rep h' (Some a) t = rep h (Some a) t" if "t \<in> set lts \<union> set rts" for t
    by (rule rep_cong) (use 2 that in auto)
  then show ?case using node_rep_cong [of h' a h] 2 by auto
qed simp

text \<open>Repointing the parent of a subtree's root.\<close>

lemma rep_set_parent:
  assumes "rep h p t" "distinct (gaddrs t)" "h (gaddr t) = Some v"
  shows "rep (h(gaddr t \<mapsto> set_parent q v)) q t"
proof (cases t)
  case (GLeaf a)
  then show ?thesis using assms by (auto simp: set_parent_def)
next
  case (GInner a ks ts)
  have "rep (h(a \<mapsto> set_parent q v)) (Some a) u" if "u \<in> set ts" for u
  proof -
    have "a \<notin> set (gaddrs u)" using assms(2) that GInner by auto
    then have "rep (h(a \<mapsto> set_parent q v)) (Some a) u = rep h (Some a) u" by (intro rep_cong) auto
    then show ?thesis using assms(1) that GInner by simp
  qed
  moreover have "node_rep (h(a \<mapsto> set_parent q v)) q a ks (map gaddr ts)"
    using assms(1,3) GInner by (auto simp: node_rep_def set_parent_def)
  ultimately show ?thesis by (simp add: GInner)
qed

section \<open>Splitting an inner node\<close>

text \<open>Leaf nodes keep their hashes and their persistent leaf; only parent pointers change.\<close>

definition same_leaves :: "nat \<Rightarrow> (nat \<Rightarrow> vnode option) \<Rightarrow> (nat \<Rightarrow> vnode option) \<Rightarrow> bool" where
  "same_leaves n h h' \<longleftrightarrow> (\<forall>a l. a < n \<longrightarrow> leafnode_at h a = Some l \<longrightarrow>
     (\<exists>l'. leafnode_at h' a = Some l' \<and> is_leaf l' = is_leaf l \<and> hashes l' = hashes l \<and> leaf l' = leaf l))"

lemma same_leaves_refl [simp]: "same_leaves n h h"
  by (simp add: same_leaves_def)

lemma same_leavesD:
  "same_leaves n h h' \<Longrightarrow> a < n \<Longrightarrow> leafnode_at h a = Some l \<Longrightarrow>
     \<exists>l'. leafnode_at h' a = Some l' \<and> is_leaf l' = is_leaf l \<and> hashes l' = hashes l \<and> leaf l' = leaf l"
  by (simp add: same_leaves_def)

lemma same_leaves_trans:
  assumes "same_leaves n h h'" "same_leaves m h' h''" "n \<le> m"
  shows "same_leaves n h h''"
  unfolding same_leaves_def
proof (intro allI impI)
  fix a l assume a: "a < n" "leafnode_at h a = Some l"
  from same_leavesD [OF assms(1) a] obtain l' where l': "leafnode_at h' a = Some l'" "is_leaf l' = is_leaf l"
    "hashes l' = hashes l" "leaf l' = leaf l" by blast
  from same_leavesD [OF assms(2) _ l'(1)] a(1) assms(3) l'(2-4)
  show "\<exists>l'. leafnode_at h'' a = Some l' \<and> is_leaf l' = is_leaf l \<and> hashes l' = hashes l \<and> leaf l' = leaf l" by auto
qed

lemma same_leaves_set_parent:
  assumes "same_leaves n g h" "h a = Some v"
  shows "same_leaves n g (h(a \<mapsto> set_parent q v))"
  unfolding same_leaves_def
proof (intro allI impI)
  fix c l assume c: "c < n" "leafnode_at g c = Some l"
  from same_leavesD [OF assms(1) c] assms(2)
  show "\<exists>l'. leafnode_at (h(a \<mapsto> set_parent q v)) c = Some l' \<and> is_leaf l' = is_leaf l \<and> hashes l' = hashes l \<and> leaf l' = leaf l"
    by (auto simp: leafnode_at_def set_parent_def split: vnode.splits option.splits)
qed

lemma same_leaves_inner:
  "same_leaves n g h \<Longrightarrow> (a < n \<Longrightarrow> leafnode_at g a = None) \<Longrightarrow> same_leaves n g (h(a \<mapsto> VInner i))"
  unfolding same_leaves_def leafnode_at_def by auto

lemma rep_addr_Some: "rep h p t \<Longrightarrow> \<exists>v. h (gaddr t) = Some v \<and> node_parent v = p"
  by (cases t) (auto simp: node_rep_def node_parent_def)

lemma length6: "length ts = 6 \<Longrightarrow> \<exists>a b c d e f. ts = [a, b, c, d, e, f]"
  by (auto simp: numeral_eq_Suc length_Suc_conv)

lemma length5: "length ts = 5 \<Longrightarrow> \<exists>a b c d e. ts = [a, b, c, d, e]"
  by (auto simp: numeral_eq_Suc length_Suc_conv)

lemma move_children_eval:
  assumes "children i = [Some a, Some b, Some c, Some d, Some e, Some f]" "keycount i = 5"
    "h d = Some v1" "h e = Some v2" "h f = Some v3" "distinct [d, e, f]" "length (children ni) = 6"
  shows "move_children q i [INNER_KEYS_UPPER..<keycount i + 1] (ni, h) =
    Some (ni\<lparr>children := [Some d, Some e, Some f] @ drop 3 (children ni)\<rparr>,
      h(d \<mapsto> set_parent (Some q) v1, e \<mapsto> set_parent (Some q) v2, f \<mapsto> set_parent (Some q) v3))"
proof -
  have r: "[INNER_KEYS_UPPER..<keycount i + 1] = [3, 4, 5]"
    by (simp add: assms scree_consts upt_rec)
  obtain a' b' c' d' e' f' where "children ni = [a', b', c', d', e', f']" using length6 [OF assms(7)] by blast
  then show ?thesis unfolding r using assms
    by (simp add: nth_opt_def INNER_KEYS_UPPER_def INNER_KEYS_def)
qed

lemma disjoint_concat:
  "distinct (concat (map f xs)) \<Longrightarrow> i < length xs \<Longrightarrow> j < length xs \<Longrightarrow> i \<noteq> j \<Longrightarrow>
   set (f (xs ! i)) \<inter> set (f (xs ! j)) = {}"
proof (induction xs arbitrary: i j)
  case (Cons x xs)
  have "set (f x) \<inter> set (f y) = {}" if "y \<in> set xs" for y using Cons.prems(1) that by auto
  then have "set (f x) \<inter> set (f (xs ! k)) = {}" if "k < length xs" for k using that by simp
  then show ?case using Cons by (cases i; cases j) auto
qed simp

lemma split_inner_ok:
  assumes "vheap s p = Some (VInner i)" "\<not> is_leaf i" "keycount i = 5" "keys i = ks" "length ks = 5"
    "children i = map Some (map gaddr ts)" "length ts = 6" "\<forall>t\<in>set ts. rep (vheap s) (Some p) t"
    "distinct (p # concat (map gaddrs ts))" "\<forall>a\<in>set (p # concat (map gaddrs ts)). a < vnext s"
  shows "\<exists>h. split_inner p i s = Some (vnext s, ks ! 2, s\<lparr>vheap := h, vnext := Suc (vnext s)\<rparr>) \<and>
     rep h (parent i) (GInner p (take 2 ks) (take 3 ts)) \<and>
     rep h (parent i) (GInner (vnext s) (drop 3 ks) (drop 3 ts)) \<and>
     (\<forall>a. a \<notin> set (p # vnext s # concat (map gaddrs ts)) \<longrightarrow> h a = vheap s a) \<and>
     same_leaves (vnext s) (vheap s) h"
proof -
  let ?q = "vnext s"
  obtain u0 u1 u2 u3 u4 u5 where ts: "ts = [u0, u1, u2, u3, u4, u5]" using length6 [OF assms(7)] by blast
  obtain k0 k1 k2 k3 k4 where ks: "ks = [k0, k1, k2, k3, k4]" using length5 [OF assms(5)] by blast
  obtain v3 v4 v5 where v: "vheap s (gaddr u3) = Some v3" "vheap s (gaddr u4) = Some v4" "vheap s (gaddr u5) = Some v5"
    using assms(8) rep_addr_Some unfolding ts by (metis list.set_intros(1,2))
  have far: "gaddr (ts ! j) \<notin> set (gaddrs (ts ! i))" if "i < 6" "j < 6" "i \<noteq> j" for i j
    using disjoint_concat [of gaddrs ts j i] gaddr_in [of "ts ! j"] that assms(7,9) by auto
  have dis: "gaddr u3 \<noteq> gaddr u4" "gaddr u3 \<noteq> gaddr u5" "gaddr u4 \<noteq> gaddr u5" "p \<notin> set (concat (map gaddrs ts))"
    using far [of 3 4] far [of 3 5] far [of 4 5] gaddr_in [of u3] gaddr_in [of u4] gaddr_in [of u5] assms(9)
    by (auto simp: ts)
  have q: "?q \<notin> set (concat (map gaddrs ts))" "?q \<noteq> p"
    using assms(10) by (auto dest: bspec)
  define ni where "ni = new_ScreeDBInnerNode\<lparr>parent := parent i, keys := [k3, k4, [], [], []]\<rparr>"
  define h1 where "h1 = (vheap s)(gaddr u3 \<mapsto> set_parent (Some ?q) v3, gaddr u4 \<mapsto> set_parent (Some ?q) v4,
    gaddr u5 \<mapsto> set_parent (Some ?q) v5)"
  define nq where "nq = ni\<lparr>children := [Some (gaddr u3), Some (gaddr u4), Some (gaddr u5), None, None, None], keycount := 2\<rparr>"
  define h where "h = h1(?q \<mapsto> VInner nq, p \<mapsto> VInner (i\<lparr>keycount := 2\<rparr>))"
  have ck: "copy_keys i (keys new_ScreeDBInnerNode) = [k3, k4, [], [], []]"
  proof -
    have "[INNER_KEYS_UPPER..<keycount i] = [3, 4]" by (simp add: assms(3) scree_consts upt_rec)
    moreover have "keys new_ScreeDBInnerNode = [[], [], [], [], []]"
      by (simp add: new_ScreeDBInnerNode_def INNER_KEYS_def eval_nat_numeral)
    ultimately show ?thesis
      by (simp add: copy_keys_def assms(4) ks INNER_KEYS_UPPER_def INNER_KEYS_def)
  qed
  have mc: "move_children ?q i [INNER_KEYS_UPPER..<keycount i + 1] (ni, vheap s) =
      Some (ni\<lparr>children := [Some (gaddr u3), Some (gaddr u4), Some (gaddr u5)] @ drop 3 (children ni)\<rparr>, h1)"
    unfolding h1_def
    by (rule move_children_eval) (use assms(3,6) v dis in \<open>auto simp: ts ni_def new_ScreeDBInnerNode_def INNER_KEYS_def\<close>)
  have nq: "ni\<lparr>children := [Some (gaddr u3), Some (gaddr u4), Some (gaddr u5)] @ drop 3 (children ni), keycount := 2\<rparr> = nq"
    by (simp add: nq_def ni_def new_ScreeDBInnerNode_def INNER_KEYS_def eval_nat_numeral)
  have mid: "nth_opt (keys i) INNER_KEYS_MIDPOINT = Some (ks ! 2)" "INNER_KEYS_MIDPOINT = 2"
    using assms(4) by (simp_all add: ks INNER_KEYS_MIDPOINT_def INNER_KEYS_def)
  have ev: "split_inner p i s = Some (?q, ks ! 2, s\<lparr>vheap := h, vnext := Suc ?q\<rparr>)"
    unfolding split_inner_def Let_def ck ni_def [symmetric] mc
    using nq mid by (simp add: h_def)
  have out: "h a = vheap s a" if "a \<noteq> p" "a \<noteq> ?q" "a \<noteq> gaddr u3" "a \<noteq> gaddr u4" "a \<noteq> gaddr u5" for a
    using that by (simp add: h_def h1_def)
  have inner: "a \<noteq> p \<and> a \<noteq> ?q" if "a \<in> set (gaddrs (ts ! j))" "j < 6" for a j
  proof -
    have "a \<in> set (concat (map gaddrs ts))" using that assms(7) by (auto intro!: bexI [of _ "ts ! j"])
    then show ?thesis using dis(4) q(1) by auto
  qed
  have low: "rep h (Some p) (ts ! j)" if "j < 3" for j
  proof -
    have "h a = vheap s a" if "a \<in> set (gaddrs (ts ! j))" for a
      by (rule out) (use inner [OF that] far [of j 3] far [of j 4] far [of j 5] that \<open>j < 3\<close> in \<open>auto simp: ts\<close>)
    then have "rep h (Some p) (ts ! j) = rep (vheap s) (Some p) (ts ! j)" by (rule rep_cong)
    then show ?thesis using assms(7,8) that by simp
  qed
  have high: "rep h (Some ?q) (ts ! j)" if "3 \<le> j" "j < 6" for j
  proof -
    have j: "j = 3 \<or> j = 4 \<or> j = 5" using that by auto
    then obtain v where v': "vheap s (gaddr (ts ! j)) = Some v" "h (gaddr (ts ! j)) = Some (set_parent (Some ?q) v)"
      using v dis q inner [of "gaddr (ts ! j)" j] gaddr_in [of "ts ! j"] by (auto simp: h_def h1_def ts)
    have "rep ((vheap s)(gaddr (ts ! j) \<mapsto> set_parent (Some ?q) v)) (Some ?q) (ts ! j)"
      by (rule rep_set_parent [of "vheap s" "Some p"])
        (use assms(7-9) that v' in \<open>auto simp: distinct_concat_iff\<close>)
    moreover have "h a = ((vheap s)(gaddr (ts ! j) \<mapsto> set_parent (Some ?q) v)) a" if "a \<in> set (gaddrs (ts ! j))" for a
    proof (cases "a = gaddr (ts ! j)")
      case False
      then have "h a = vheap s a"
        using inner [OF that \<open>j < 6\<close>] far [of j 3] far [of j 4] far [of j 5] that j
        by (intro out) (auto simp: ts)
      then show ?thesis using False by simp
    qed (simp add: v')
    ultimately show ?thesis using rep_cong by metis
  qed
  have "rep h (parent i) (GInner p (take 2 ks) (take 3 ts))"
    using low [of 0] low [of 1] low [of 2] assms(2-7) by (simp add: ts ks node_rep_def h_def INNER_KEYS_def)
  moreover have "rep h (parent i) (GInner ?q (drop 3 ks) (drop 3 ts))"
    using high [of 3] high [of 4] high [of 5] q(2)
    by (simp add: ts ks node_rep_def h_def INNER_KEYS_def nq_def ni_def new_ScreeDBInnerNode_def)
  moreover have "\<forall>a. a \<notin> set (p # ?q # concat (map gaddrs ts)) \<longrightarrow> h a = vheap s a"
    using gaddr_in [of u3] gaddr_in [of u4] gaddr_in [of u5] unfolding h_def h1_def ts by auto
  moreover have "same_leaves ?q (vheap s) h"
  proof -
    have "same_leaves ?q (vheap s) h1"
      unfolding h1_def by (intro same_leaves_set_parent) (use v dis in auto)
    then show ?thesis unfolding h_def
      by (intro same_leaves_inner) (use assms(1) in \<open>auto simp: leafnode_at_def\<close>)
  qed
  ultimately show ?thesis using ev by blast
qed

section \<open>The volatile tree of a state\<close>

definition tree_ok :: "ScreeDBTree \<Rightarrow> gtree \<Rightarrow> bool" where
  "tree_ok s t \<longleftrightarrow> rep (vheap s) None t \<and> top_node s = Some (gaddr t) \<and> distinct (gaddrs t) \<and>
     (\<forall>a\<in>set (gaddrs t). a < vnext s)"

text \<open>\<open>volatile_step s s'\<close>: only the volatile structure changed, and no leaf node its contents.\<close>

definition volatile_step :: "ScreeDBTree \<Rightarrow> ScreeDBTree \<Rightarrow> bool" where
  "volatile_step s s' \<longleftrightarrow> pheap s' = pheap s \<and> pnext s' = pnext s \<and> proot s' = proot s \<and> allocs s' = allocs s \<and>
     vnext s \<le> vnext s' \<and> same_leaves (vnext s) (vheap s) (vheap s')"

lemma volatile_step_trans: "volatile_step s s' \<Longrightarrow> volatile_step s' s'' \<Longrightarrow> volatile_step s s''"
  unfolding volatile_step_def by (auto intro: same_leaves_trans)

lemma update_top:
  assumes "rep (vheap s) None t1" "rep (vheap s) None t2" "distinct (gaddrs t1 @ gaddrs t2)"
    "\<forall>a\<in>set (gaddrs t1 @ gaddrs t2). a < vnext s"
  shows "\<exists>s'. LeafUpdateParentsAfterSplit (gaddr t1) (gaddr t2) k s = Some s' \<and>
     tree_ok s' (GInner (vnext s) [k] [t1, t2]) \<and> volatile_step s s'"
proof -
  let ?t = "vnext s"
  obtain v1 where v1: "vheap s (gaddr t1) = Some v1" "node_parent v1 = None" using rep_addr_Some [OF assms(1)] by auto
  obtain v2 where v2: "vheap s (gaddr t2) = Some v2" using rep_addr_Some [OF assms(2)] by auto
  have neq: "gaddr t1 \<noteq> ?t" "gaddr t2 \<noteq> ?t" "gaddr t1 \<noteq> gaddr t2"
    using assms(3,4) gaddr_in [of t1] gaddr_in [of t2] by auto
  define n where "n = new_ScreeDBInnerNode\<lparr>keycount := 1, keys := (keys new_ScreeDBInnerNode)[0 := k],
    children := (children new_ScreeDBInnerNode)[0 := Some (gaddr t1), 1 := Some (gaddr t2)]\<rparr>"
  define h where "h = (vheap s)(?t \<mapsto> VInner n, gaddr t1 \<mapsto> set_parent (Some ?t) v1, gaddr t2 \<mapsto> set_parent (Some ?t) v2)"
  have ev: "LeafUpdateParentsAfterSplit (gaddr t1) (gaddr t2) k s =
      Some (s\<lparr>vheap := h, vnext := Suc ?t, top_node := Some ?t\<rparr>)"
    by (subst LeafUpdateParentsAfterSplit.simps) (use v1 v2 neq in \<open>simp add: h_def n_def Let_def\<close>)
  have sub: "rep h (Some ?t) u" if u: "u = t1 \<or> u = t2" for u
  proof -
    obtain v where v: "vheap s (gaddr u) = Some v" "h (gaddr u) = Some (set_parent (Some ?t) v)"
      using u v1 v2 neq by (auto simp: h_def)
    have "rep ((vheap s)(gaddr u \<mapsto> set_parent (Some ?t) v)) (Some ?t) u"
      by (rule rep_set_parent [of "vheap s" None]) (use assms that v in auto)
    moreover have "h a = ((vheap s)(gaddr u \<mapsto> set_parent (Some ?t) v)) a" if a: "a \<in> set (gaddrs u)" for a
    proof (cases "a = gaddr u")
      case False
      have "a < ?t" using assms(4) a u by auto
      moreover have "a \<noteq> gaddr t1" "a \<noteq> gaddr t2"
        using u False a assms(3) gaddr_in [of t1] gaddr_in [of t2] by auto
      ultimately show ?thesis using False by (simp add: h_def)
    qed (simp add: v)
    ultimately show ?thesis using rep_cong by metis
  qed
  have "node_rep h None ?t [k] [gaddr t1, gaddr t2]"
    using neq by (simp add: node_rep_def h_def n_def new_ScreeDBInnerNode_def INNER_KEYS_def eval_nat_numeral)
  moreover have "same_leaves ?t (vheap s) h" unfolding h_def
    by (intro same_leaves_set_parent same_leaves_inner) (use v1 v2 neq in auto)
  ultimately show ?thesis unfolding ev
    using sub assms(3,4) by (auto simp: tree_ok_def volatile_step_def less_SucI)
qed

text \<open>The facts of a frame around a node and its new right neighbour, before the insertion.\<close>

lemma frame_insert:
  assumes "f = Frame a lks lts rks rts" "list_all frame_ok (f # c)" "rep (vheap s) None (plugs (f # c) t1)"
    "sorted_wrt (<) (seps (cleft (f # c) @ flat t1 @ K k # flat t2 @ cright (f # c)))"
  obtains i i' where "inner_at (vheap s) a = Some i" "insert_child i k (gaddr t2) = Some i'"
    "\<not> is_leaf i'" "parent i' = hole_parent c" "keycount i' = Suc (length (lks @ rks))"
    "length (lks @ rks) \<le> INNER_KEYS"
    "length (keys i') = INNER_KEYS + 1" "length (children i') = INNER_KEYS + 2"
    "take (Suc (length (lks @ rks))) (keys i') = lks @ k # rks"
    "take (Suc (Suc (length (lks @ rks)))) (children i') = map Some (map gaddr (lts @ t1 # t2 # rts))"
proof -
  have ok: "length lks = length lts" "length rks = length rts" using assms(1,2) by auto
  have nr: "node_rep (vheap s) (hole_parent c) a (lks @ rks) (map gaddr lts @ gaddr t1 # map gaddr rts)"
    using assms(1,3) rep_plugs [of "vheap s" "f # c" t1] by simp
  have lk: "\<forall>x\<in>set lks. x \<le> k"
  proof
    fix x assume "x \<in> set lks"
    with ok(1) have "x \<in> set (seps (wl (map flat lts) lks))"
      by (induction lks lts rule: list_induct2) auto
    then show "x \<le> k" using assms(1,4) by (auto simp: sorted_wrt_append)
  qed
  have rk: "k < hd rks" if "rks \<noteq> []"
  proof -
    have "hd rks \<in> set (seps (wr rks (map flat rts)))"
      using that ok(2) by (cases rks; cases rts) auto
    then show ?thesis using assms(1,4) by (auto simp: sorted_wrt_append)
  qed
  obtain i i' where i: "inner_at (vheap s) a = Some i" "insert_child i k (gaddr t2) = Some i'"
    "\<not> is_leaf i'" "parent i' = hole_parent c" "keycount i' = Suc (length (lks @ rks))"
    "length (keys i') = INNER_KEYS + 1" "length (children i') = INNER_KEYS + 2"
    "take (Suc (length (lks @ rks))) (keys i') = lks @ k # rks"
    "take (Suc (Suc (length (lks @ rks)))) (children i') = map Some (map gaddr lts @ gaddr t1 # gaddr t2 # map gaddr rts)"
    by (rule insert_child_ok [OF nr _ _ lk rk]) (use ok in auto)
  moreover have "length (lks @ rks) \<le> INNER_KEYS" using nr by (auto simp: node_rep_def)
  ultimately show ?thesis using that by simp
qed

lemma gaddr_plugs: "gaddr t = gaddr t' \<Longrightarrow> gaddr (plugs c t) = gaddr (plugs c t')"
proof (induction c arbitrary: t t')
  case (Cons f c)
  have "gaddr (plug f t) = gaddr (plug f t')" by (cases f) simp
  from Cons.IH [OF this] show ?case by simp
qed simp

lemma insert_fits:
  assumes "list_all frame_ok (f # c)" "f = Frame a lks lts rks rts" "rep (vheap s) None (plugs (f # c) t1)"
    "rep (vheap s) (Some a) t2" "top_node s = Some (gaddr (plugs (f # c) t1))"
    "distinct (gaddrs (plugs (f # c) t1) @ gaddrs t2)" "\<forall>x\<in>set (gaddrs (plugs (f # c) t1) @ gaddrs t2). x < vnext s"
    "\<not> is_leaf i'" "parent i' = hole_parent c" "keycount i' = Suc (length (lks @ rks))"
    "length (lks @ rks) < INNER_KEYS"
    "length (keys i') = INNER_KEYS + 1" "length (children i') = INNER_KEYS + 2"
    "take (Suc (length (lks @ rks))) (keys i') = lks @ k # rks"
    "take (Suc (Suc (length (lks @ rks)))) (children i') = map Some (map gaddr (lts @ t1 # t2 # rts))"
    "leafnode_at (vheap s) a = None"
  shows "let s' = s\<lparr>vheap := (vheap s)(a \<mapsto> VInner i')\<rparr>; t' = plugs c (GInner a (lks @ k # rks) (lts @ t1 # t2 # rts))
    in tree_ok s' t' \<and> flat t' = cleft (f # c) @ flat t1 @ K k # flat t2 @ cright (f # c) \<and> volatile_step s s'"
proof -
  let ?h = "(vheap s)(a \<mapsto> VInner i')" and ?t = "GInner a (lks @ k # rks) (lts @ t1 # t2 # rts)"
  have ok: "length lks = length lts" "length rks = length rts" "list_all frame_ok c" using assms(1,2) by auto
  have rp: "rep (vheap s) (Some a) t1" "\<forall>t\<in>set lts \<union> set rts. rep (vheap s) (Some a) t" "crep (vheap s) c a"
    using assms(2,3) rep_plugs [of "vheap s" "f # c" t1] by auto
  have dis: "distinct (a # concat (map gaddrs (lts @ t1 # t2 # rts)))"
    "set (caddrs c) \<inter> set (a # concat (map gaddrs (lts @ t1 # t2 # rts))) = {}" "distinct (caddrs c)"
    using assms(2,6) unfolding distinct_append distinct_gaddrs_plugs set_gaddrs_plugs by auto
  have sub: "rep ?h (Some a) u" if u: "u \<in> set (lts @ t1 # t2 # rts)" for u
  proof -
    have "a \<notin> set (gaddrs u)" using dis(1) u by auto
    then have "rep ?h (Some a) u = rep (vheap s) (Some a) u" by (intro rep_cong) auto
    then show ?thesis using u rp assms(4) by auto
  qed
  have "node_rep ?h (hole_parent c) a (lks @ k # rks) (map gaddr (lts @ t1 # t2 # rts))"
    using assms(8-15) ok by (simp add: node_rep_def)
  then have "rep ?h (hole_parent c) ?t" using sub by simp
  moreover have "crep ?h c a = crep (vheap s) c a" by (rule crep_cong) (use dis in auto)
  ultimately have "rep ?h None (plugs c ?t)" using rp(3) by (simp add: rep_plugs)
  moreover have "gaddr (plugs c ?t) = gaddr (plugs (f # c) t1)"
    using gaddr_plugs [of ?t "plug f t1" c] by (simp add: assms(2))
  moreover have "distinct (gaddrs (plugs c ?t))"
    using dis by (simp add: distinct_gaddrs_plugs Int_commute)
  moreover have "\<forall>x\<in>set (gaddrs (plugs c ?t)). x < vnext s"
    using assms(2,7) by (auto simp: set_gaddrs_plugs)
  moreover have "flat (plugs c ?t) = cleft (f # c) @ flat t1 @ K k # flat t2 @ cright (f # c)"
    using flat_plugs [OF ok(3), of ?t] ok(1,2) weave_split [of "map flat lts" lks "flat t2 # map flat rts" "k # rks" "flat t1"]
    by (simp add: assms(2))
  moreover have "same_leaves (vnext s) (vheap s) ?h"
    by (rule same_leaves_inner) (use assms(16) in auto)
  ultimately show ?thesis using assms(5) by (simp add: tree_ok_def volatile_step_def Let_def)
qed

end
