(* ===== verification/Scree_Split.thy ===== *)
theory Scree_Split
  imports Scree_Tree
begin

text \<open>
  Correctness of \<open>LeafUpdateParentsAfterSplit\<close>: an induction along the path from the split
  node to the top, with one case for a new top node, one for an inner node with room and one for
  an inner node that overflows and is split in turn.
\<close>

text \<open>Splitting the overfull node: both halves are represented, the frames above are untouched.\<close>

lemma insert_overflows:
  assumes "list_all frame_ok (f # c)" "f = Frame a lks lts rks rts" "rep (vheap s) None (plugs (f # c) t1)"
    "rep (vheap s) (Some a) t2" "top_node s = Some (gaddr (plugs (f # c) t1))"
    "distinct (gaddrs (plugs (f # c) t1) @ gaddrs t2)" "\<forall>x\<in>set (gaddrs (plugs (f # c) t1) @ gaddrs t2). x < vnext s"
    "\<not> is_leaf i'" "parent i' = hole_parent c" "keycount i' = Suc (length (lks @ rks))"
    "length (lks @ rks) = INNER_KEYS"
    "length (keys i') = INNER_KEYS + 1" "length (children i') = INNER_KEYS + 2"
    "take (Suc (length (lks @ rks))) (keys i') = lks @ k # rks"
    "take (Suc (Suc (length (lks @ rks)))) (children i') = map Some (map gaddr (lts @ t1 # t2 # rts))"
    "leafnode_at (vheap s) a = None"
  obtains s' k' u1 u2 where
    "split_inner a i' (s\<lparr>vheap := (vheap s)(a \<mapsto> VInner i')\<rparr>) = Some (gaddr u2, k', s')" "gaddr u1 = a"
    "rep (vheap s') None (plugs c u1)" "rep (vheap s') (hole_parent c) u2"
    "top_node s' = Some (gaddr (plugs c u1))"
    "distinct (gaddrs (plugs c u1) @ gaddrs u2)" "\<forall>x\<in>set (gaddrs (plugs c u1) @ gaddrs u2). x < vnext s'"
    "flat u1 @ K k' # flat u2 = wl (map flat lts) lks @ flat t1 @ K k # flat t2 @ wr rks (map flat rts)"
    "volatile_step s s'"
proof -
  define ks ts s1 where "ks = lks @ k # rks" and "ts = lts @ t1 # t2 # rts"
    and "s1 = s\<lparr>vheap := (vheap s)(a \<mapsto> VInner i')\<rparr>"
  define A where "A = set (concat (map gaddrs ts))"
  have ok: "length lks = length lts" "length rks = length rts" using assms(1,2) by auto
  have len: "length ks = 5" "length ts = 6" "keycount i' = 5"
    using assms(10,11) ok by (auto simp: INNER_KEYS_def ks_def ts_def)
  have arr: "keys i' = ks" "children i' = map Some (map gaddr ts)"
    using assms(11-15) by (simp_all add: INNER_KEYS_def ks_def ts_def)
  have rp: "\<forall>t\<in>set ts. rep (vheap s) (Some a) t" "crep (vheap s) c a"
    using assms(2,3,4) rep_plugs [of "vheap s" "f # c" t1] by (auto simp: ts_def)
  have dis: "distinct (concat (map gaddrs ts))" "a \<notin> A" "distinct (caddrs c)" "set (caddrs c) \<inter> A = {}" "a \<notin> set (caddrs c)"
    using assms(2,6) unfolding distinct_append distinct_gaddrs_plugs set_gaddrs_plugs A_def ts_def by auto
  have lt: "\<forall>x\<in>A. x < vnext s" "\<forall>x\<in>set (caddrs c). x < vnext s" "a < vnext s"
    using assms(2,7) by (auto simp: set_gaddrs_plugs A_def ts_def)
  have "\<forall>t\<in>set ts. rep (vheap s1) (Some a) t"
  proof
    fix u assume u: "u \<in> set ts"
    have "a \<notin> set (gaddrs u)" using dis(2) u by (auto simp: A_def)
    then have "rep (vheap s1) (Some a) u = rep (vheap s) (Some a) u" by (intro rep_cong) (auto simp: s1_def)
    then show "rep (vheap s1) (Some a) u" using u rp(1) by auto
  qed
  then obtain h where h: "split_inner a i' s1 = Some (vnext s, ks ! 2, s1\<lparr>vheap := h, vnext := Suc (vnext s)\<rparr>)"
    "rep h (parent i') (GInner a (take 2 ks) (take 3 ts))"
    "rep h (parent i') (GInner (vnext s) (drop 3 ks) (drop 3 ts))"
    "\<forall>x. x \<notin> set (a # vnext s # concat (map gaddrs ts)) \<longrightarrow> h x = vheap s1 x"
    "same_leaves (vnext s) (vheap s1) h"
    using split_inner_ok [of s1 a i' ks ts] assms(8) len arr dis(1,2) lt by (auto simp: s1_def A_def)
  define u1 u2 where "u1 = GInner a (take 2 ks) (take 3 ts)" and "u2 = GInner (vnext s) (drop 3 ks) (drop 3 ts)"
  have "crep h c a = crep (vheap s) c a"
  proof (rule crep_cong)
    fix x assume x: "x \<in> set (caddrs c)"
    then have "x \<notin> A" "x < vnext s" "x \<noteq> a" using dis(4,5) lt by auto
    then show "h x = vheap s x" using h(4) by (auto simp: s1_def A_def)
  qed
  then have r1: "rep h None (plugs c u1)" using h(2) rp(2) assms(9) by (simp add: rep_plugs u1_def)
  have flt: "flat u1 @ K (ks ! 2) # flat u2 = weave (map flat ts) ks"
  proof -
    obtain k0 k1 k2 k3 k4 where "ks = [k0, k1, k2, k3, k4]" using length5 [OF len(1)] by blast
    moreover obtain x0 x1 x2 x3 x4 x5 where "ts = [x0, x1, x2, x3, x4, x5]" using length6 [OF len(2)] by blast
    ultimately show ?thesis by (simp add: u1_def u2_def)
  qed
  define P Q where "P = concat (map gaddrs (take 3 ts))" and "Q = concat (map gaddrs (drop 3 ts))"
  have cat: "concat (map gaddrs ts) = P @ Q"
    unfolding P_def Q_def by (metis append_take_drop_id concat_append map_append)
  have PQ: "distinct P" "distinct Q" "set P \<inter> set Q = {}" "A = set P \<union> set Q"
    using dis(1) unfolding cat A_def by auto
  have ga: "gaddrs u1 = a # P" "gaddrs u2 = vnext s # Q" by (simp_all add: u1_def u2_def P_def Q_def)
  have top: "gaddr (plugs c u1) = gaddr (plugs (f # c) t1)"
    using gaddr_plugs [of u1 "plug f t1" c] by (simp add: assms(2) u1_def)
  have sl: "same_leaves (vnext s) (vheap s) (vheap s1)"
    using assms(16) by (auto intro: same_leaves_inner simp: s1_def)
  show ?thesis
  proof (rule that [of u2 "ks ! 2" "s1\<lparr>vheap := h, vnext := Suc (vnext s)\<rparr>" u1])
    show "split_inner a i' (s\<lparr>vheap := (vheap s)(a \<mapsto> VInner i')\<rparr>) =
        Some (gaddr u2, ks ! 2, s1\<lparr>vheap := h, vnext := Suc (vnext s)\<rparr>)"
      using h(1) by (simp add: s1_def u2_def)
    show "rep (vheap (s1\<lparr>vheap := h, vnext := Suc (vnext s)\<rparr>)) (hole_parent c) u2"
      using h(3) assms(9) by (simp add: u2_def)
    show "distinct (gaddrs (plugs c u1) @ gaddrs u2)"
      using dis PQ lt unfolding distinct_append distinct_gaddrs_plugs set_gaddrs_plugs ga by auto
    show "\<forall>x\<in>set (gaddrs (plugs c u1) @ gaddrs u2). x < vnext (s1\<lparr>vheap := h, vnext := Suc (vnext s)\<rparr>)"
      using lt PQ(4) unfolding set_append set_gaddrs_plugs ga by (auto intro: less_SucI)
    show "flat u1 @ K (ks ! 2) # flat u2 = wl (map flat lts) lks @ flat t1 @ K k # flat t2 @ wr rks (map flat rts)"
      using weave_split [of "map flat lts" lks "flat t2 # map flat rts" "k # rks" "flat t1"] ok flt
      by (simp add: ks_def ts_def)
    show "volatile_step s (s1\<lparr>vheap := h, vnext := Suc (vnext s)\<rparr>)"
      using same_leaves_trans [OF sl h(5)] by (simp add: volatile_step_def s1_def)
  qed (use r1 assms(5) top in \<open>simp_all add: s1_def u1_def\<close>)
qed

section \<open>The whole update\<close>

lemma update_parents:
  assumes "list_all frame_ok c" "rep (vheap s) None (plugs c t1)" "rep (vheap s) (hole_parent c) t2"
    "top_node s = Some (gaddr (plugs c t1))" "distinct (gaddrs (plugs c t1) @ gaddrs t2)"
    "\<forall>x\<in>set (gaddrs (plugs c t1) @ gaddrs t2). x < vnext s"
    "sorted_wrt (<) (seps (cleft c @ flat t1 @ K k # flat t2 @ cright c))"
  shows "\<exists>s' t'. LeafUpdateParentsAfterSplit (gaddr t1) (gaddr t2) k s = Some s' \<and> tree_ok s' t' \<and>
     flat t' = cleft c @ flat t1 @ K k # flat t2 @ cright c \<and> volatile_step s s'"
  using assms
proof (induction c arbitrary: t1 t2 k s)
  case Nil
  then obtain s' where "LeafUpdateParentsAfterSplit (gaddr t1) (gaddr t2) k s = Some s'"
    "tree_ok s' (GInner (vnext s) [k] [t1, t2])" "volatile_step s s'"
    using update_top [of s t1 t2 k] by auto
  then show ?case by (intro exI [of _ s'] exI [of _ "GInner (vnext s) [k] [t1, t2]"]) simp
next
  case (Cons f c)
  obtain a lks lts rks rts where f: "f = Frame a lks lts rks rts" by (cases f)
  obtain i i' where i: "inner_at (vheap s) a = Some i" "insert_child i k (gaddr t2) = Some i'"
    "\<not> is_leaf i'" "parent i' = hole_parent c" "keycount i' = Suc (length (lks @ rks))"
    "length (lks @ rks) \<le> INNER_KEYS" "length (keys i') = INNER_KEYS + 1" "length (children i') = INNER_KEYS + 2"
    "take (Suc (length (lks @ rks))) (keys i') = lks @ k # rks"
    "take (Suc (Suc (length (lks @ rks)))) (children i') = map Some (map gaddr (lts @ t1 # t2 # rts))"
    using frame_insert [OF f Cons.prems(1,2,7)] .
  have none: "leafnode_at (vheap s) a = None"
    using i(1) by (auto simp: inner_at_def leafnode_at_def split: option.splits vnode.splits)
  have r2: "rep (vheap s) (Some a) t2" using Cons.prems(3) by (simp add: f)
  obtain v1 where v1: "vheap s (gaddr t1) = Some v1" "node_parent v1 = Some a"
    using rep_addr_Some [of "vheap s" "Some a" t1] Cons.prems(2) rep_plugs [of "vheap s" "f # c" t1] by (auto simp: f)
  let ?s1 = "s\<lparr>vheap := (vheap s)(a \<mapsto> VInner i')\<rparr>"
  show ?case
  proof (cases "length (lks @ rks) < INNER_KEYS")
    case True
    have "LeafUpdateParentsAfterSplit (gaddr t1) (gaddr t2) k s = Some ?s1"
      by (subst LeafUpdateParentsAfterSplit.simps) (use v1 i(1,2,5) True in \<open>simp add: Let_def\<close>)
    moreover have "let s' = ?s1; t' = plugs c (GInner a (lks @ k # rks) (lts @ t1 # t2 # rts))
      in tree_ok s' t' \<and> flat t' = cleft (f # c) @ flat t1 @ K k # flat t2 @ cright (f # c) \<and> volatile_step s s'"
      by (rule insert_fits [OF Cons.prems(1) f Cons.prems(2) r2 Cons.prems(4-6) i(3-5) True i(7-10) none])
    ultimately show ?thesis unfolding Let_def by blast
  next
    case False
    then have eq: "length (lks @ rks) = INNER_KEYS" using i(6) by simp
    obtain s' k' u1 u2 where u: "split_inner a i' ?s1 = Some (gaddr u2, k', s')" "gaddr u1 = a"
      "rep (vheap s') None (plugs c u1)" "rep (vheap s') (hole_parent c) u2" "top_node s' = Some (gaddr (plugs c u1))"
      "distinct (gaddrs (plugs c u1) @ gaddrs u2)" "\<forall>x\<in>set (gaddrs (plugs c u1) @ gaddrs u2). x < vnext s'"
      "flat u1 @ K k' # flat u2 = wl (map flat lts) lks @ flat t1 @ K k # flat t2 @ wr rks (map flat rts)"
      "volatile_step s s'"
      using insert_overflows [OF Cons.prems(1) f Cons.prems(2) r2 Cons.prems(4-6) i(3-5) eq i(7-10) none] .
    have seq: "cleft c @ flat u1 @ K k' # flat u2 @ cright c = cleft (f # c) @ flat t1 @ K k # flat t2 @ cright (f # c)"
      using u(8) by (simp add: f)
    have ev: "LeafUpdateParentsAfterSplit (gaddr t1) (gaddr t2) k s = LeafUpdateParentsAfterSplit (gaddr u1) (gaddr u2) k' s'"
      by (subst LeafUpdateParentsAfterSplit.simps) (use v1 i(1,2,5) eq u(1,2) in \<open>simp add: Let_def\<close>)
    have "\<exists>s'' t'. LeafUpdateParentsAfterSplit (gaddr u1) (gaddr u2) k' s' = Some s'' \<and> tree_ok s'' t' \<and>
       flat t' = cleft c @ flat u1 @ K k' # flat u2 @ cright c \<and> volatile_step s' s''"
      by (rule Cons.IH) (use Cons.prems(1,7) u seq in simp_all)
    then show ?thesis unfolding ev seq using u(9) volatile_step_trans by blast
  qed
qed

text \<open>The form its callers use: a leaf of the tree and a fresh leaf node with the same parent.\<close>

lemma update_parents_leaf:
  assumes "tree_ok s t" "flat t = X @ L a # Y" "leafnode_at (vheap s) a = Some la"
    "leafnode_at (vheap s) b = Some lb" "is_leaf lb" "parent lb = parent la" "b \<notin> set (gaddrs t)" "b < vnext s"
    "sorted_wrt (<) (seps X @ k # seps Y)"
  shows "\<exists>s' t'. LeafUpdateParentsAfterSplit a b k s = Some s' \<and> tree_ok s' t' \<and>
     flat t' = X @ L a # K k # L b # Y \<and> volatile_step s s'"
proof -
  have t: "rep (vheap s) None t" "top_node s = Some (gaddr t)" "distinct (gaddrs t)" "\<forall>a\<in>set (gaddrs t). a < vnext s"
    using assms(1) by (auto simp: tree_ok_def)
  obtain c where c: "list_all frame_ok c" "plugs c (GLeaf a) = t" "cleft c = X" "cright c = Y"
    using context_exists [OF t(1) assms(2)] by blast
  have "rep (vheap s) (hole_parent c) (GLeaf a)" using t(1) c(2) rep_plugs [of "vheap s" c "GLeaf a"] by simp
  then have "parent la = hole_parent c" using assms(3) by (auto simp: leafnode_at_def)
  then have rb: "rep (vheap s) (hole_parent c) (GLeaf b)"
    using assms(4-6) by (auto simp: leafnode_at_def split: option.splits vnode.splits)
  have "\<exists>s' t'. LeafUpdateParentsAfterSplit (gaddr (GLeaf a)) (gaddr (GLeaf b)) k s = Some s' \<and> tree_ok s' t' \<and>
     flat t' = cleft c @ flat (GLeaf a) @ K k # flat (GLeaf b) @ cright c \<and> volatile_step s s'"
    by (rule update_parents) (use c t assms(7-9) rb in auto)
  then show ?thesis by (simp add: c)
qed

end
