(* ===== verification/Coding.thy ===== *)
theory Coding
  imports Slices
begin

text \<open>
  Fixed-width and variable-length integers and length-prefixed slices (util/coding.h,
  util/coding.cc).  A decoder takes the bytes from the read position up to the limit and gives
  the value with the bytes that are left, or \<open>None\<close> where the code returns \<open>nullptr\<close> or
  \<open>false\<close>.  Both branches of the byte-order tests write the same bytes.
\<close>

named_theorems coding_simps \<open>decoding what was just encoded\<close>

definition kMaxVarint32Length :: nat where "kMaxVarint32Length = 5"
definition kMaxVarint64Length :: nat where "kMaxVarint64Length = 10"

section \<open>Fixed-width integers\<close>

definition EncodeFixed32 :: "u32 \<Rightarrow> bytes" where
  "EncodeFixed32 v = [ucast v, ucast (drop_bit 8 v), ucast (drop_bit 16 v), ucast (drop_bit 24 v)]"

definition EncodeFixed64 :: "u64 \<Rightarrow> bytes" where
  "EncodeFixed64 v = [ucast v, ucast (drop_bit 8 v), ucast (drop_bit 16 v), ucast (drop_bit 24 v),
     ucast (drop_bit 32 v), ucast (drop_bit 40 v), ucast (drop_bit 48 v), ucast (drop_bit 56 v)]"

fun DecodeFixed32 :: "bytes \<Rightarrow> u32 option" where
  "DecodeFixed32 (a # b # c # d # r) =
     Some (ucast a OR push_bit 8 (ucast b) OR push_bit 16 (ucast c) OR push_bit 24 (ucast d))"
| "DecodeFixed32 _ = None"

definition DecodeFixed64 :: "bytes \<Rightarrow> u64 option" where
  "DecodeFixed64 p = do {
     lo \<leftarrow> DecodeFixed32 p;
     hi \<leftarrow> DecodeFixed32 (drop 4 p);
     Some (push_bit 32 (ucast hi) OR ucast lo) }"

definition PutFixed32 :: "bytes \<Rightarrow> u32 \<Rightarrow> bytes" where
  "PutFixed32 dst v = dst @ EncodeFixed32 v"

definition PutFixed64 :: "bytes \<Rightarrow> u64 \<Rightarrow> bytes" where
  "PutFixed64 dst v = dst @ EncodeFixed64 v"

definition GetFixed64 :: "bytes \<Rightarrow> (u64 \<times> bytes) option" where
  "GetFixed64 input =
     (if length input < 8 then None else map_option (\<lambda>v. (v, drop 8 input)) (DecodeFixed64 input))"

section \<open>Variable-length integers\<close>

definition EncodeVarint32 :: "u32 \<Rightarrow> bytes" where
  "EncodeVarint32 v =
     (if v < 2 ^ 7 then [ucast v]
      else if v < 2 ^ 14 then [ucast (v OR 128), ucast (drop_bit 7 v)]
      else if v < 2 ^ 21 then [ucast (v OR 128), ucast (drop_bit 7 v OR 128), ucast (drop_bit 14 v)]
      else if v < 2 ^ 28 then [ucast (v OR 128), ucast (drop_bit 7 v OR 128), ucast (drop_bit 14 v OR 128),
        ucast (drop_bit 21 v)]
      else [ucast (v OR 128), ucast (drop_bit 7 v OR 128), ucast (drop_bit 14 v OR 128),
        ucast (drop_bit 21 v OR 128), ucast (drop_bit 28 v)])"

lemma drop7_less: "v \<ge> 128 \<Longrightarrow> unat (drop_bit 7 v) < unat (v :: u64)"
  by (simp add: drop_bit_eq_div unat_div word_le_nat_alt)

function EncodeVarint64 :: "u64 \<Rightarrow> bytes" where
  "EncodeVarint64 v = (if v \<ge> 128 then ucast (v AND 127 OR 128) # EncodeVarint64 (drop_bit 7 v) else [ucast v])"
  by pat_completeness auto
termination
  by (relation "measure unat") (simp_all add: drop7_less)

declare EncodeVarint64.simps [simp del]

text \<open>The loop of both decoders; \<open>max_shift\<close> is 28 and 63.\<close>

function get_varint :: "nat \<Rightarrow> 'a::len word \<Rightarrow> nat \<Rightarrow> bytes \<Rightarrow> ('a word \<times> bytes) option" where
  "get_varint max_shift result shift p =
     (if shift \<le> max_shift \<and> p \<noteq> [] then
        (let byte = ucast (hd p) :: 'a word in
         if hd p AND 128 \<noteq> 0 then get_varint max_shift (result OR push_bit shift (byte AND 127)) (shift + 7) (tl p)
         else Some (result OR push_bit shift byte, tl p))
      else None)"
  by pat_completeness auto
termination
  by (relation "measure (\<lambda>(m, r, s, p). length p)") auto

declare get_varint.simps [simp del]

definition GetVarint32PtrFallback :: "bytes \<Rightarrow> (u32 \<times> bytes) option" where
  "GetVarint32PtrFallback p = get_varint 28 0 0 p"

definition GetVarint64Ptr :: "bytes \<Rightarrow> (u64 \<times> bytes) option" where
  "GetVarint64Ptr p = get_varint 63 0 0 p"

definition GetVarint32Ptr :: "bytes \<Rightarrow> (u32 \<times> bytes) option" where
  "GetVarint32Ptr p =
     (if p \<noteq> [] \<and> (ucast (hd p) :: u32) AND 128 = 0 then Some (ucast (hd p), tl p)
      else GetVarint32PtrFallback p)"

definition PutVarint32 :: "bytes \<Rightarrow> u32 \<Rightarrow> bytes" where
  "PutVarint32 dst v = dst @ EncodeVarint32 v"

definition PutVarint64 :: "bytes \<Rightarrow> u64 \<Rightarrow> bytes" where
  "PutVarint64 dst v = dst @ EncodeVarint64 v"

definition GetVarint32 :: "bytes \<Rightarrow> (u32 \<times> bytes) option" where
  "GetVarint32 input = GetVarint32Ptr input"

definition GetVarint64 :: "bytes \<Rightarrow> (u64 \<times> bytes) option" where
  "GetVarint64 input = GetVarint64Ptr input"

function VarintLength_loop :: "u64 \<Rightarrow> nat \<Rightarrow> nat" where
  "VarintLength_loop v len = (if v \<ge> 128 then VarintLength_loop (drop_bit 7 v) (len + 1) else len)"
  by pat_completeness auto
termination
  by (relation "measure (\<lambda>(v, l). unat v)") (simp_all add: drop7_less)

declare VarintLength_loop.simps [simp del]

definition VarintLength :: "u64 \<Rightarrow> nat" where
  "VarintLength v = VarintLength_loop v 1"

section \<open>Length-prefixed slices\<close>

definition PutLengthPrefixedSlice :: "bytes \<Rightarrow> bytes \<Rightarrow> bytes" where
  "PutLengthPrefixedSlice dst value = PutVarint32 dst (of_nat (length value)) @ value"

definition PutLengthPrefixedSliceParts :: "bytes \<Rightarrow> bytes list \<Rightarrow> bytes" where
  "PutLengthPrefixedSliceParts dst parts =
     (let total_bytes = sum_list (map length parts) in PutVarint32 dst (of_nat total_bytes) @ concat parts)"

definition GetLengthPrefixedSlice :: "bytes \<Rightarrow> (bytes \<times> bytes) option" where
  "GetLengthPrefixedSlice input = do {
     (len, rest) \<leftarrow> GetVarint32 input;
     if length rest \<ge> unat len then Some (take (unat len) rest, drop (unat len) rest) else None }"

text \<open>The 32-bit counter of \<open>GetSliceUntil\<close> never gets past a delimiter-free prefix of
  \<open>2\<^sup>3\<^sup>2\<close> bytes: the loop does not end there, which is \<open>None\<close>.\<close>

definition GetSliceUntil :: "bytes \<Rightarrow> byte \<Rightarrow> (bytes \<times> bytes) option" where
  "GetSliceUntil s delimiter =
     (let len = length (takeWhile (\<lambda>b. b \<noteq> delimiter) s) in
      if len < 2 ^ 32 then Some (take len s, drop (len + (if len < length s then 1 else 0)) s) else None)"

section \<open>Round trips\<close>

lemma add_diff_if: "k + (n - k) = (if k \<le> n then n else (k::nat))"
  by simp

lemma length_EncodeFixed [simp]: "length (EncodeFixed32 v) = 4" "length (EncodeFixed64 w) = 8"
  by (simp_all add: EncodeFixed32_def EncodeFixed64_def)

lemma DecodeFixed32_Encode [simp, coding_simps]: "DecodeFixed32 (EncodeFixed32 v @ r) = Some v"
proof -
  have "ucast (ucast v :: byte) OR push_bit 8 (ucast (ucast (drop_bit 8 v) :: byte))
      OR push_bit 16 (ucast (ucast (drop_bit 16 v) :: byte)) OR push_bit 24 (ucast (ucast (drop_bit 24 v) :: byte)) = v"
    by (rule bit_word_eqI) (auto simp: bit_simps add_diff_if split: if_splits)
  then show ?thesis by (simp add: EncodeFixed32_def)
qed

lemma EncodeFixed64_split: "EncodeFixed64 v = EncodeFixed32 (ucast v) @ EncodeFixed32 (ucast (drop_bit 32 v))"
  unfolding EncodeFixed64_def EncodeFixed32_def
  by (auto intro!: bit_word_eqI simp: bit_simps)

lemma DecodeFixed64_Encode [simp, coding_simps]: "DecodeFixed64 (EncodeFixed64 v @ r) = Some v"
proof -
  have "push_bit 32 (ucast (ucast (drop_bit 32 v) :: u32)) OR ucast (ucast v :: u32) = v"
    by (rule bit_word_eqI) (auto simp: bit_simps)
  then show ?thesis by (simp add: DecodeFixed64_def EncodeFixed64_split)
qed

lemma GetFixed64_Put [coding_simps]: "GetFixed64 (EncodeFixed64 v @ r) = Some (v, r)"
  by (simp add: GetFixed64_def)

text \<open>One step of the loops: the low seven bits and the rest make up the value.\<close>

lemma bit_127_int: "bit (127 :: int) n \<longleftrightarrow> n < 7"
proof -
  have "(127 :: int) = mask 7" by (simp add: mask_eq_exp_minus_1)
  then show ?thesis by (simp only: bit_mask_iff) auto
qed

lemma bit_128_int: "bit (128 :: int) n \<longleftrightarrow> n = 7"
proof -
  have "(128 :: int) = push_bit 7 1" by (simp add: push_bit_eq_mult)
  then show ?thesis by (simp only: bit_simps) auto
qed

lemma bit_255_int: "bit (255 :: int) n \<longleftrightarrow> n < 8"
proof -
  have "(255 :: int) = mask 8" by (simp add: mask_eq_exp_minus_1)
  then show ?thesis by (simp only: bit_mask_iff) auto
qed

lemmas bit_7 = bit_simps bit_127_int bit_128_int

lemma push_bit_7: "push_bit s (ucast w AND 127) OR push_bit (s + 7) (ucast (drop_bit 7 w)) = push_bit s (ucast w :: 'a::len word)"
  for w :: u64
proof -
  have "7 + (n - (s + 7)) = (if s + 7 \<le> n then n - s else 7)" for n by simp
  then show ?thesis by (intro bit_word_eqI) (auto simp: bit_7 split: if_splits)
qed

lemma small_bits: "bit v n \<Longrightarrow> v < 128 \<Longrightarrow> n < 7" for v :: "'a::len word"
  using less_mask_eq [of v 7] by (auto simp: bit_simps dest: arg_cong [where f = "\<lambda>v. bit v n"])

text \<open>What the two shapes of byte carry.\<close>

lemma more_byte: "(ucast (w AND 127 OR 128) :: byte) AND 128 \<noteq> 0" for w :: u64
proof -
  have "bit ((ucast (w AND 127 OR 128) :: byte) AND 128) 7" by (simp add: bit_7)
  then show ?thesis by force
qed

lemma more_byte_value: "(ucast (ucast (w AND 127 OR 128) :: byte) :: 'a::len word) AND 127 = ucast w AND 127"
  for w :: u64
  by (rule bit_word_eqI) (auto simp: bit_7)

lemma last_byte: "(ucast w :: byte) AND 128 = 0" "ucast (ucast w :: byte) = (ucast w :: 'a::len word)"
  if "w < 128" for w :: u64
proof -
  show "(ucast w :: byte) AND 128 = 0"
    using that by (intro bit_word_eqI) (auto simp: bit_7 dest: small_bits)
  show "ucast (ucast w :: byte) = (ucast w :: 'a word)"
    using that by (intro bit_word_eqI) (auto simp: bit_7 dest: small_bits)
qed

lemma get_varint_Encode:
  "get_varint m r s (EncodeVarint64 w @ rest) = Some (r OR push_bit s (ucast w :: 'a::len word), rest)"
  if "unat w < 2 ^ (LENGTH('a) - s)" "s \<le> m" "7 dvd s" "7 dvd m" "m < LENGTH('a)" "LENGTH('a) \<le> m + 7"
  using that
proof (induction w arbitrary: r s rule: EncodeVarint64.induct)
  case (1 w)
  show ?case
  proof (cases "w \<ge> 128")
    case True
    then have "2 ^ 7 \<le> unat w" by (simp add: word_le_nat_alt)
    with 1(2) have "(2::nat) ^ 7 < 2 ^ (LENGTH('a) - s)" by linarith
    then have len: "7 < LENGTH('a) - s" by (simp only: power_strict_increasing_iff)
    then have "(2::nat) ^ (LENGTH('a) - s) = 2 ^ (LENGTH('a) - s - 7) * 2 ^ 7" by (simp only: flip: power_add) simp
    with 1(2) have "unat w div 2 ^ 7 < 2 ^ (LENGTH('a) - s - 7)" by (simp add: less_mult_imp_div_less)
    then have w: "unat (drop_bit 7 w) < 2 ^ (LENGTH('a) - (s + 7))"
      by (simp add: drop_bit_eq_div unat_div)
    from len 1(4-7) have s: "s + 7 \<le> m" by presburger
    have "get_varint m r s (EncodeVarint64 w @ rest) =
        get_varint m (r OR push_bit s (ucast w AND 127)) (s + 7) (EncodeVarint64 (drop_bit 7 w) @ rest)"
      using True 1(3) by (subst EncodeVarint64.simps, subst get_varint.simps)
        (simp add: more_byte more_byte_value Let_def del: push_bit_and)
    also have "\<dots> = Some ((r OR push_bit s (ucast w AND 127)) OR push_bit (s + 7) (ucast (drop_bit 7 w)), rest)"
      using 1(1) [OF True w s] 1(4-7) by simp
    finally show ?thesis by (simp only: or.assoc push_bit_7)
  next
    case False
    then have "EncodeVarint64 w = [ucast w]" by (simp add: EncodeVarint64.simps)
    with 1(3) False show ?thesis
      by (subst get_varint.simps) (simp add: last_byte Let_def not_le)
  qed
qed

lemma GetVarint64_Encode [coding_simps]: "GetVarint64 (EncodeVarint64 v @ r) = Some (v, r)"
  using get_varint_Encode [where 'a = 64, of v 0 63 0 r] unsigned_less [of v]
  by (simp add: GetVarint64_def GetVarint64Ptr_def)

text \<open>The unrolled 32-bit encoder writes what the 64-bit loop writes.\<close>

lemma unat_ucast_up: "LENGTH('a) \<le> LENGTH('b) \<Longrightarrow> unat (ucast v :: 'b::len word) = unat (v :: 'a::len word)"
proof -
  assume le: "LENGTH('a) \<le> LENGTH('b)"
  have "unat v < 2 ^ LENGTH('b)"
    using unsigned_less [of v, where ?'a = nat] power_increasing [OF le, of "2::nat"] by linarith
  then show ?thesis by (simp add: unsigned_ucast_eq take_bit_nat_eq_self)
qed

lemma EncodeVarint64_unroll:
  "EncodeVarint64 (drop_bit n (ucast v)) =
     (if 2 ^ (n + 7) \<le> unat v then ucast (drop_bit n v OR 128) # EncodeVarint64 (drop_bit (n + 7) (ucast v))
      else [ucast (drop_bit n v)])" for v :: u32
proof -
  have "128 \<le> drop_bit n (ucast v :: u64) \<longleftrightarrow> 128 \<le> unat v div 2 ^ n"
    by (simp add: word_le_nat_alt unat_drop_bit_eq unat_ucast_up drop_bit_eq_div [where 'a = nat])
  also have "\<dots> \<longleftrightarrow> 2 ^ (n + 7) \<le> unat v" by (simp add: less_eq_div_iff_mult_less_eq power_add mult.commute)
  finally have c: "128 \<le> drop_bit n (ucast v :: u64) \<longleftrightarrow> 2 ^ (n + 7) \<le> unat v" .
  have "(ucast (drop_bit n (ucast v :: u64) AND 127 OR 128) :: byte) = ucast (drop_bit n v OR 128)"
    "(ucast (drop_bit n (ucast v :: u64)) :: byte) = ucast (drop_bit n v)"
    by (rule bit_word_eqI; auto simp: bit_7 dest: bit_imp_le_length)+
  with c show ?thesis by (subst EncodeVarint64.simps) (simp add: add.commute)
qed

lemma EncodeVarint32_eq: "EncodeVarint32 v = EncodeVarint64 (ucast v)"
proof -
  have "unat v < 2 ^ 32" using unsigned_less [of v] by simp
  then show ?thesis
    using EncodeVarint64_unroll [of 0 v] EncodeVarint64_unroll [of 7 v] EncodeVarint64_unroll [of 14 v]
      EncodeVarint64_unroll [of 21 v] EncodeVarint64_unroll [of 28 v]
    by (simp add: EncodeVarint32_def word_less_nat_alt)
qed

lemma GetVarint32Ptr_eq: "GetVarint32Ptr p = get_varint 28 0 0 p"
proof (cases p)
  case (Cons b q)
  have "(ucast b :: u32) AND 128 = ucast (b AND 128)" by (rule bit_word_eqI) (auto simp: bit_7)
  then have "unat ((ucast b :: u32) AND 128) = unat (b AND 128)" by (simp add: unat_ucast_up)
  then have "(ucast b :: u32) AND 128 = 0 \<longleftrightarrow> b AND 128 = 0" by (metis unat_eq_zero)
  with Cons show ?thesis
    by (auto simp: GetVarint32Ptr_def GetVarint32PtrFallback_def get_varint.simps [of 28 0 0])
qed (simp add: GetVarint32Ptr_def GetVarint32PtrFallback_def)

lemma GetVarint32_Encode [coding_simps]: "GetVarint32 (EncodeVarint32 v @ r) = Some (v, r)"
proof -
  have "ucast (ucast v :: u64) = v" by (rule bit_word_eqI) (auto simp: bit_simps)
  then show ?thesis
    using get_varint_Encode [where 'a = 32, of "ucast v" 0 28 0 r] unsigned_less [of v, where ?'a = nat]
    by (simp add: GetVarint32_def GetVarint32Ptr_eq EncodeVarint32_eq unat_ucast_up)
qed

lemma VarintLength_loop_eq: "VarintLength_loop v n + 1 = n + length (EncodeVarint64 v)"
proof (induction v n rule: VarintLength_loop.induct)
  case (1 v n)
  then show ?case
    by (subst VarintLength_loop.simps, subst EncodeVarint64.simps) simp
qed

lemma VarintLength_eq: "VarintLength v = length (EncodeVarint64 v)"
  using VarintLength_loop_eq [of v 1] by (simp add: VarintLength_def)

lemma length_EncodeVarint64_le: "unat v < 128 ^ n \<Longrightarrow> 0 < n \<Longrightarrow> length (EncodeVarint64 v) \<le> n"
proof (induction n arbitrary: v)
  case (Suc n)
  show ?case
  proof (cases "v \<ge> 128")
    case True
    with Suc.prems have "0 < n" by (cases n) (simp_all add: word_le_nat_alt)
    moreover have "unat (drop_bit 7 v) < 128 ^ n"
      using Suc.prems by (simp add: drop_bit_eq_div unat_div less_mult_imp_div_less mult.commute)
    ultimately show ?thesis using Suc.IH True by (subst EncodeVarint64.simps) simp
  qed (simp add: EncodeVarint64.simps)
qed simp

lemma length_EncodeVarint: "length (EncodeVarint32 w) \<le> kMaxVarint32Length" "length (EncodeVarint64 v) \<le> kMaxVarint64Length"
proof -
  show "length (EncodeVarint32 w) \<le> kMaxVarint32Length"
    using unsigned_less [of w, where ?'a = nat] unfolding EncodeVarint32_eq kMaxVarint32Length_def
    by (intro length_EncodeVarint64_le) (simp_all add: unat_ucast_up)
  show "length (EncodeVarint64 v) \<le> kMaxVarint64Length"
    using unsigned_less [of v, where ?'a = nat] unfolding kMaxVarint64Length_def
    by (intro length_EncodeVarint64_le) simp_all
qed

lemma get_varint_suffix: "get_varint m r s p = Some (v, q) \<Longrightarrow> \<exists>c. c \<noteq> [] \<and> p = c @ q"
proof (induction m r s p rule: get_varint.induct)
  case (1 m r s p)
  from "1.prems" have "s \<le> m" "p \<noteq> []" by (auto simp: get_varint.simps [of m r s p] split: if_splits)
  then obtain b p' where p: "p = b # p'" by (cases p) auto
  show ?case
  proof (cases "b AND 128 = 0")
    case False
    with p "1.IH" [of "ucast b"] "1.prems" \<open>s \<le> m\<close> obtain c where "p' = c @ q"
      by (auto simp: get_varint.simps [of m r s "b # p'"] Let_def)
    with p show ?thesis by (intro exI [of _ "b # c"]) simp
  next
    case True
    with p "1.prems" \<open>s \<le> m\<close> have "p' = q" by (simp add: get_varint.simps [of m r s "b # p'"])
    with p show ?thesis by (intro exI [of _ "[b]"]) simp
  qed
qed

lemma GetVarint32_suffix: "GetVarint32 p = Some (v, q) \<Longrightarrow> \<exists>c. c \<noteq> [] \<and> p = c @ q"
  unfolding GetVarint32_def GetVarint32Ptr_eq by (rule get_varint_suffix)

lemma GetVarint64_suffix: "GetVarint64 p = Some (v, q) \<Longrightarrow> \<exists>c. c \<noteq> [] \<and> p = c @ q"
  unfolding GetVarint64_def GetVarint64Ptr_def by (rule get_varint_suffix)

lemma GetLengthPrefixedSlice_suffix: "GetLengthPrefixedSlice p = Some (x, q) \<Longrightarrow> \<exists>c. c \<noteq> [] \<and> p = c @ x @ q"
  by (auto simp: GetLengthPrefixedSlice_def bind_eq_Some_conv split: if_splits dest!: GetVarint32_suffix)

lemma GetLengthPrefixedSlice_Put [coding_simps]:
  "length x < 2 ^ 32 \<Longrightarrow> GetLengthPrefixedSlice (PutLengthPrefixedSlice [] x @ r) = Some (x, r)"
  by (simp add: GetLengthPrefixedSlice_def PutLengthPrefixedSlice_def PutVarint32_def coding_simps
      unat_of_nat)

lemma PutLengthPrefixedSliceParts_eq:
  "PutLengthPrefixedSliceParts dst parts = PutLengthPrefixedSlice dst (concat parts)"
  by (simp add: PutLengthPrefixedSliceParts_def PutLengthPrefixedSlice_def length_concat)

end
