(* ===== verification/Statuses.thy ===== *)
theory Statuses
  imports Coding
begin

text \<open>
  The status values every operation returns (include/rocksdb/status.h, util/status.cc,
  util/status_message.cc): a code, a subcode and an optional message buffer that starts with its
  length in four bytes.
\<close>

datatype Code = kOk | kNotFound | kCorruption | kNotSupported | kInvalidArgument | kIOError
  | kMergeInProgress | kIncomplete | kShutdownInProgress | kTimedOut | kAborted | kBusy | kExpired | kTryAgain

datatype SubCode = kNone | kMutexTimeout | kLockTimeout | kLockLimit

record Status =
  code :: Code
  subcode :: SubCode
  state :: "bytes option"

text \<open>The bytes of a string literal.\<close>

definition lit :: "string \<Rightarrow> bytes" where
  "lit s = map of_char s"

definition Status_OK :: Status where
  "Status_OK = \<lparr>code = kOk, subcode = kNone, state = None\<rparr>"

definition Status_of_subcode :: "Code \<Rightarrow> SubCode \<Rightarrow> Status" where
  "Status_of_subcode c sc = \<lparr>code = c, subcode = sc, state = None\<rparr>"

text \<open>The constructor with two messages.  The length is a 32-bit number; where the buffer of
  \<open>size + 4\<close> bytes is too small for what is copied into it the result is \<open>None\<close>.\<close>

definition Status_of_msg :: "Code \<Rightarrow> bytes \<Rightarrow> bytes \<Rightarrow> Status option" where
  "Status_of_msg c msg msg2 =
     (if c = kOk then None
      else
        (let len1 = of_nat (length msg) :: u32;
             len2 = of_nat (length msg2) :: u32;
             sz = len1 + (if len2 \<noteq> 0 then 2 + len2 else 0);
             text = take (unat len1) msg @ (if len2 \<noteq> 0 then lit '': '' @ take (unat len2) msg2 else [])
         in if 4 + length text \<le> unat (sz + 4)
            then Some \<lparr>code = c, subcode = kNone, state = Some (EncodeFixed32 sz @ text)\<rparr> else None))"

definition CopyState :: "bytes \<Rightarrow> bytes option" where
  "CopyState st = do {
     sz \<leftarrow> DecodeFixed32 st;
     if unat (sz + 4) \<le> length st then Some (take (unat (sz + 4)) st) else None }"

definition Status_copy :: "Status \<Rightarrow> Status option" where
  "Status_copy s =
     (case state s of
        None \<Rightarrow> Some \<lparr>code = code s, subcode = subcode s, state = None\<rparr>
      | Some st \<Rightarrow> map_option (\<lambda>c. \<lparr>code = code s, subcode = subcode s, state = Some c\<rparr>) (CopyState st))"

text \<open>Move assignment: the new value of the target and what is left in the source.\<close>

definition Status_move :: "Status \<Rightarrow> Status \<times> Status" where
  "Status_move s = (s, Status_OK)"

definition Status_eq :: "Status \<Rightarrow> Status \<Rightarrow> bool" where
  "Status_eq a b \<longleftrightarrow> code a = code b"

definition ok :: "Status \<Rightarrow> bool" where "ok s \<longleftrightarrow> code s = kOk"
definition IsNotFound :: "Status \<Rightarrow> bool" where "IsNotFound s \<longleftrightarrow> code s = kNotFound"
definition IsNotSupported :: "Status \<Rightarrow> bool" where "IsNotSupported s \<longleftrightarrow> code s = kNotSupported"
definition IsCorruption :: "Status \<Rightarrow> bool" where "IsCorruption s \<longleftrightarrow> code s = kCorruption"

definition NotFound :: Status where "NotFound = Status_of_subcode kNotFound kNone"
definition NotSupported :: Status where "NotSupported = Status_of_subcode kNotSupported kNone"

text \<open>The other factories, from a message and from a subcode, and their predicates.\<close>

definition NotFound_msg :: "bytes \<Rightarrow> bytes \<Rightarrow> Status option" where "NotFound_msg msg msg2 = Status_of_msg kNotFound msg msg2"
definition Corruption_msg :: "bytes \<Rightarrow> bytes \<Rightarrow> Status option" where "Corruption_msg msg msg2 = Status_of_msg kCorruption msg msg2"
definition NotSupported_msg :: "bytes \<Rightarrow> bytes \<Rightarrow> Status option" where "NotSupported_msg msg msg2 = Status_of_msg kNotSupported msg msg2"
definition InvalidArgument_msg :: "bytes \<Rightarrow> bytes \<Rightarrow> Status option" where "InvalidArgument_msg msg msg2 = Status_of_msg kInvalidArgument msg msg2"
definition IOError_msg :: "bytes \<Rightarrow> bytes \<Rightarrow> Status option" where "IOError_msg msg msg2 = Status_of_msg kIOError msg msg2"
definition MergeInProgress_msg :: "bytes \<Rightarrow> bytes \<Rightarrow> Status option" where "MergeInProgress_msg msg msg2 = Status_of_msg kMergeInProgress msg msg2"
definition Incomplete_msg :: "bytes \<Rightarrow> bytes \<Rightarrow> Status option" where "Incomplete_msg msg msg2 = Status_of_msg kIncomplete msg msg2"
definition ShutdownInProgress_msg :: "bytes \<Rightarrow> bytes \<Rightarrow> Status option" where "ShutdownInProgress_msg msg msg2 = Status_of_msg kShutdownInProgress msg msg2"
definition Aborted_msg :: "bytes \<Rightarrow> bytes \<Rightarrow> Status option" where "Aborted_msg msg msg2 = Status_of_msg kAborted msg msg2"
definition Busy_msg :: "bytes \<Rightarrow> bytes \<Rightarrow> Status option" where "Busy_msg msg msg2 = Status_of_msg kBusy msg msg2"
definition TimedOut_msg :: "bytes \<Rightarrow> bytes \<Rightarrow> Status option" where "TimedOut_msg msg msg2 = Status_of_msg kTimedOut msg msg2"
definition Expired_msg :: "bytes \<Rightarrow> bytes \<Rightarrow> Status option" where "Expired_msg msg msg2 = Status_of_msg kExpired msg msg2"
definition TryAgain_msg :: "bytes \<Rightarrow> bytes \<Rightarrow> Status option" where "TryAgain_msg msg msg2 = Status_of_msg kTryAgain msg msg2"

definition Corruption :: "SubCode \<Rightarrow> Status" where "Corruption msg = Status_of_subcode kCorruption msg"
definition InvalidArgument :: "SubCode \<Rightarrow> Status" where "InvalidArgument msg = Status_of_subcode kInvalidArgument msg"
definition IOError :: "SubCode \<Rightarrow> Status" where "IOError msg = Status_of_subcode kIOError msg"
definition MergeInProgress :: "SubCode \<Rightarrow> Status" where "MergeInProgress msg = Status_of_subcode kMergeInProgress msg"
definition Incomplete :: "SubCode \<Rightarrow> Status" where "Incomplete msg = Status_of_subcode kIncomplete msg"
definition ShutdownInProgress :: "SubCode \<Rightarrow> Status" where "ShutdownInProgress msg = Status_of_subcode kShutdownInProgress msg"
definition Aborted :: "SubCode \<Rightarrow> Status" where "Aborted msg = Status_of_subcode kAborted msg"
definition Busy :: "SubCode \<Rightarrow> Status" where "Busy msg = Status_of_subcode kBusy msg"
definition TimedOut :: "SubCode \<Rightarrow> Status" where "TimedOut msg = Status_of_subcode kTimedOut msg"
definition Expired :: "SubCode \<Rightarrow> Status" where "Expired msg = Status_of_subcode kExpired msg"
definition TryAgain :: "SubCode \<Rightarrow> Status" where "TryAgain msg = Status_of_subcode kTryAgain msg"

definition IsInvalidArgument :: "Status \<Rightarrow> bool" where "IsInvalidArgument s \<longleftrightarrow> code s = kInvalidArgument"
definition IsIOError :: "Status \<Rightarrow> bool" where "IsIOError s \<longleftrightarrow> code s = kIOError"
definition IsMergeInProgress :: "Status \<Rightarrow> bool" where "IsMergeInProgress s \<longleftrightarrow> code s = kMergeInProgress"
definition IsIncomplete :: "Status \<Rightarrow> bool" where "IsIncomplete s \<longleftrightarrow> code s = kIncomplete"
definition IsShutdownInProgress :: "Status \<Rightarrow> bool" where "IsShutdownInProgress s \<longleftrightarrow> code s = kShutdownInProgress"
definition IsTimedOut :: "Status \<Rightarrow> bool" where "IsTimedOut s \<longleftrightarrow> code s = kTimedOut"
definition IsAborted :: "Status \<Rightarrow> bool" where "IsAborted s \<longleftrightarrow> code s = kAborted"
definition IsBusy :: "Status \<Rightarrow> bool" where "IsBusy s \<longleftrightarrow> code s = kBusy"
definition IsExpired :: "Status \<Rightarrow> bool" where "IsExpired s \<longleftrightarrow> code s = kExpired"
definition IsTryAgain :: "Status \<Rightarrow> bool" where "IsTryAgain s \<longleftrightarrow> code s = kTryAgain"

lemmas status_msgs = NotFound_msg_def Corruption_msg_def NotSupported_msg_def InvalidArgument_msg_def IOError_msg_def MergeInProgress_msg_def Incomplete_msg_def ShutdownInProgress_msg_def Aborted_msg_def Busy_msg_def TimedOut_msg_def Expired_msg_def TryAgain_msg_def

fun code_text :: "Code \<Rightarrow> bytes" where
  "code_text kOk = lit ''OK''"
| "code_text kNotFound = lit ''NotFound: ''"
| "code_text kCorruption = lit ''Corruption: ''"
| "code_text kNotSupported = lit ''Not implemented: ''"
| "code_text kInvalidArgument = lit ''Invalid argument: ''"
| "code_text kIOError = lit ''IO error: ''"
| "code_text kMergeInProgress = lit ''Merge in progress: ''"
| "code_text kIncomplete = lit ''Result incomplete: ''"
| "code_text kShutdownInProgress = lit ''Shutdown in progress: ''"
| "code_text kTimedOut = lit ''Operation timed out: ''"
| "code_text kAborted = lit ''Operation aborted: ''"
| "code_text kBusy = lit ''Resource busy: ''"
| "code_text kExpired = lit ''Operation expired: ''"
| "code_text kTryAgain = lit ''Operation failed. Try again.: ''"

fun msgs :: "SubCode \<Rightarrow> bytes" where
  "msgs kNone = []"
| "msgs kMutexTimeout = lit ''Timeout Acquiring Mutex''"
| "msgs kLockTimeout = lit ''Timeout waiting to lock key''"
| "msgs kLockLimit = lit ''Failed to acquire lock due to max_num_locks limit''"

definition Status_ToString :: "Status \<Rightarrow> bytes option" where
  "Status_ToString s =
     (if code s = kOk then Some (code_text kOk)
      else do {
        let result = code_text (code s) @ (if subcode s \<noteq> kNone then msgs (subcode s) else []);
        (case state s of
           None \<Rightarrow> Some result
         | Some st \<Rightarrow> do {
             len \<leftarrow> DecodeFixed32 st;
             if 4 + unat len \<le> length st then Some (result @ take (unat len) (drop 4 st)) else None }) })"

section \<open>Messages are kept\<close>

text \<open>The text a status is built from is the text it prints, and a copy has the same text.\<close>

lemma Status_of_msg_ok:
  assumes "c \<noteq> kOk" "length m1 + length m2 + 6 < 2 ^ 32"
  shows "\<exists>s. Status_of_msg c m1 m2 = Some s \<and> code s = c \<and> Status_copy s = Some s \<and>
    Status_ToString s = Some (code_text c @ m1 @ (if m2 = [] then [] else lit '': '' @ m2))"
proof -
  define n where "n = length m1 + (if m2 = [] then 0 else 2 + length m2)"
  have n: "n + 4 < 2 ^ 32" using assms by (auto simp: n_def)
  let ?text = "m1 @ (if m2 = [] then [] else lit '': '' @ m2)"
  have t: "length ?text = n" by (simp add: n_def lit_def)
  have len: "unat (of_nat (length m1) :: u32) = length m1" "unat (of_nat (length m2) :: u32) = length m2"
    using assms by (simp_all add: unat_small)
  then have z: "(of_nat (length m2) :: u32) = 0 \<longleftrightarrow> m2 = []" by (metis length_0_conv unat_eq_zero)
  have sz: "(of_nat (length m1) :: u32) + (if (of_nat (length m2) :: u32) \<noteq> 0 then 2 + of_nat (length m2) else 0) = of_nat n"
    using z by (simp add: n_def)
  have n4: "unat (of_nat n + 4 :: u32) = n + 4" using n unat_small [of "n + 4"] by (simp add: add.commute)
  let ?s = "\<lparr>code = c, subcode = kNone, state = Some (EncodeFixed32 (of_nat n) @ ?text)\<rparr>"
  have "Status_of_msg c m1 m2 = Some ?s"
    unfolding Status_of_msg_def Let_def sz len using assms(1) t n4 z by (auto split: if_splits)
  moreover have "Status_copy ?s = Some ?s"
    using t n4 by (simp add: Status_copy_def CopyState_def)
  moreover have "Status_ToString ?s = Some (code_text c @ ?text)"
    using assms(1) t n by (simp add: Status_ToString_def unat_small)
  ultimately show ?thesis by auto
qed

lemma ok_OK [simp]: "ok Status_OK"
  by (simp add: ok_def Status_OK_def)

lemma msg_not_ok: "Status_of_msg c m1 m2 = Some s \<Longrightarrow> \<not> ok s"
  by (auto simp: Status_of_msg_def ok_def Let_def split: if_splits)

text \<open>
  C20. A status keeps the messages it is built from: as long as their lengths fit the 32-bit length
  field, the constructor stays in its buffer, \<open>ToString\<close> prints the name of the code and the
  messages, and a copy is equal to the original.
\<close>

theorem status_keeps_message:
  assumes "c \<noteq> kOk" "length m1 + length m2 + 6 < 2 ^ 32"
  shows "\<exists>s. Status_of_msg c m1 m2 = Some s \<and> code s = c \<and> Status_copy s = Some s \<and>
    Status_ToString s = Some (code_text c @ m1 @ (if m2 = [] then [] else lit '': '' @ m2))"
  using assms by (rule Status_of_msg_ok)

theorem status_keeps_message_witness:
  "\<exists>s. Status_of_msg kIOError (lit ''disk'') (lit ''full'') = Some s \<and> Status_ToString s = Some (lit ''IO error: disk: full'')"
  using status_keeps_message [of kIOError "lit ''disk''" "lit ''full''"] by (auto simp: lit_def)

end
