(* ===== verification/Scree_Ops.thy ===== *)
theory Scree_Ops
  imports Scree_Split Statuses
begin

text \<open>
  The operations on leaves and the key/value operations of \<open>ScreeDBTree\<close>
  (utilities/screedb/screedb.cc): \<open>LeafFillSpecificSlot\<close>, \<open>LeafFillFirstEmptySlot\<close>,
  \<open>LeafFillSlotForKey\<close>, \<open>LeafSplit\<close>, \<open>Get\<close>, \<open>MultiGet\<close>, \<open>Put\<close>, \<open>Delete\<close>.

  The helpers that work on one leaf take the two structs the code reaches through its pointers,
  the volatile leaf node and the persistent leaf, and give them back updated.  The flag in their
  result is \<open>False\<close> when an allocation threw; the caller then stops, and \<open>exec_tx\<close> undoes the
  persistent changes and leaves the volatile ones.
\<close>

section \<open>Transactions\<close>

text \<open>A transaction that throws leaves the pool as it was, the leaves it allocated freed again.\<close>

definition exec_tx :: "(ScreeDBTree \<Rightarrow> (bool \<times> ScreeDBTree) option) \<Rightarrow> ScreeDBTree \<Rightarrow> (bool \<times> ScreeDBTree) option" where
  "exec_tx body s = do {
     (committed, s') \<leftarrow> body s;
     Some (committed, if committed then s' else s'\<lparr>pheap := pheap s, pnext := pnext s, proot := proot s\<rparr>) }"

section \<open>Slots of one leaf\<close>

text \<open>The scan of \<open>Get\<close> and \<open>Delete\<close>, over slots \<open>n - 1\<close> down to 0.\<close>

fun find_slot :: "ScreeDBLeafNode \<Rightarrow> ScreeDBLeaf \<Rightarrow> byte \<Rightarrow> bytes \<Rightarrow> nat \<Rightarrow> nat option option" where
  "find_slot ln lf hash k 0 = Some None"
| "find_slot ln lf hash k (Suc slot) = do {
     h \<leftarrow> nth_opt (hashes ln) slot;
     if h = hash then do {
       sk \<leftarrow> nth_opt (kv_keys lf) slot;
       r \<leftarrow> strcmp (data sk) k;
       if r = 0 then Some (Some slot) else find_slot ln lf hash k slot
     } else find_slot ln lf hash k slot }"

text \<open>The scan of \<open>LeafFillSlotForKey\<close>: the matching slot and the last empty one.\<close>

fun fill_scan :: "ScreeDBLeafNode \<Rightarrow> ScreeDBLeaf \<Rightarrow> byte \<Rightarrow> bytes \<Rightarrow> nat \<Rightarrow> nat option \<Rightarrow> (nat option \<times> nat option) option" where
  "fill_scan ln lf hash k 0 last_empty = Some (None, last_empty)"
| "fill_scan ln lf hash k (Suc slot) last_empty = do {
     h \<leftarrow> nth_opt (hashes ln) slot;
     if h = 0 then fill_scan ln lf hash k slot (Some slot)
     else if h = hash then do {
       sk \<leftarrow> nth_opt (kv_keys lf) slot;
       r \<leftarrow> strcmp (data sk) k;
       if r = 0 then Some (Some slot, last_empty) else fill_scan ln lf hash k slot last_empty
     } else fill_scan ln lf hash k slot last_empty }"

type_synonym leaf_state = "ScreeDBLeafNode \<times> ScreeDBLeaf \<times> nat"

definition LeafFillSpecificSlot ::
    "(nat \<Rightarrow> bool) \<Rightarrow> byte \<Rightarrow> Slice \<Rightarrow> Slice \<Rightarrow> nat \<Rightarrow> leaf_state \<Rightarrow> (bool \<times> leaf_state) option" where
  "LeafFillSpecificSlot alloc hash key value slot = (\<lambda>(ln, lf, n). do {
     h \<leftarrow> nth_opt (hashes ln) slot;
     sk \<leftarrow> nth_opt (kv_keys lf) slot;
     sv \<leftarrow> nth_opt (kv_values lf) slot;
     (ok1, n1, sk') \<leftarrow> (if h = 0 then do { k \<leftarrow> Slice_of_cstr (data_ptr key); set_string alloc k n sk }
                       else Some (True, n, sk));
     let lf1 = lf\<lparr>kv_keys := (kv_keys lf)[slot := sk']\<rparr>;
     if \<not> ok1 then Some (False, ln, lf1, n1)
     else do {
       let ln2 = ln\<lparr>hashes := (hashes ln)[slot := hash]\<rparr>;
       let lf2 = lf1\<lparr>phashes := (phashes lf1)[slot := hash]\<rparr>;
       v \<leftarrow> Slice_of_cstr (data_ptr value);
       (ok3, n3, sv') \<leftarrow> set_string alloc v n1 sv;
       Some (ok3, ln2, lf2\<lparr>kv_values := (kv_values lf2)[slot := sv']\<rparr>, n3) } })"

fun fill_first_empty ::
    "(nat \<Rightarrow> bool) \<Rightarrow> byte \<Rightarrow> Slice \<Rightarrow> Slice \<Rightarrow> nat \<Rightarrow> leaf_state \<Rightarrow> (bool \<times> leaf_state) option" where
  "fill_first_empty alloc hash key value 0 ls = Some (True, ls)"
| "fill_first_empty alloc hash key value (Suc slot) ls = do {
     h \<leftarrow> nth_opt (hashes (fst ls)) slot;
     if h = 0 then LeafFillSpecificSlot alloc hash key value slot ls
     else fill_first_empty alloc hash key value slot ls }"

definition LeafFillFirstEmptySlot ::
    "(nat \<Rightarrow> bool) \<Rightarrow> byte \<Rightarrow> Slice \<Rightarrow> Slice \<Rightarrow> leaf_state \<Rightarrow> (bool \<times> leaf_state) option" where
  "LeafFillFirstEmptySlot alloc hash key value ls = fill_first_empty alloc hash key value NODE_KEYS ls"

text \<open>The result is \<open>Some\<close> of what the code returns, or \<open>None\<close> when an allocation threw.\<close>

definition LeafFillSlotForKey ::
    "(nat \<Rightarrow> bool) \<Rightarrow> nat \<Rightarrow> byte \<Rightarrow> Slice \<Rightarrow> Slice \<Rightarrow> ScreeDBTree \<Rightarrow> (bool option \<times> ScreeDBTree) option" where
  "LeafFillSlotForKey alloc a hash key value s = do {
     ln \<leftarrow> leafnode_at (vheap s) a;
     p \<leftarrow> leaf ln;
     lf \<leftarrow> pheap s p;
     (key_match_slot, last_empty_slot) \<leftarrow> fill_scan ln lf hash (data_ptr key) NODE_KEYS None;
     (case (if key_match_slot \<noteq> None then key_match_slot else last_empty_slot) of
        None \<Rightarrow> Some (Some False, s)
      | Some slot \<Rightarrow> do {
          (committed, s') \<leftarrow> exec_tx (\<lambda>s. do {
             (done, ln', lf', n) \<leftarrow> LeafFillSpecificSlot alloc hash key value slot (ln, lf, allocs s);
             Some (done, s\<lparr>vheap := (vheap s)(a \<mapsto> VLeaf ln'), pheap := (pheap s)(p \<mapsto> lf'), allocs := n\<rparr>) }) s;
          Some (if committed then Some True else None, s') }) }"

section \<open>Splitting a leaf\<close>

text \<open>Moving one string: a short one is copied, a long one is swapped with the (new) target.\<close>

definition move_string ::
    "(nat \<Rightarrow> bool) \<Rightarrow> nat \<Rightarrow> ScreeDBString \<Rightarrow> ScreeDBString \<Rightarrow> (bool \<times> nat \<times> ScreeDBString \<times> ScreeDBString) option" where
  "move_string alloc n src dst =
     (if is_short src then do {
        d \<leftarrow> Slice_of_cstr (data src);
        (done, n', dst') \<leftarrow> set_string alloc d n dst;
        Some (done, n', src, dst')
      } else Some (True, n, dst, src))"

type_synonym split_state = "ScreeDBLeafNode \<times> ScreeDBLeaf \<times> ScreeDBLeafNode \<times> ScreeDBLeaf \<times> nat"

definition split_slot :: "(nat \<Rightarrow> bool) \<Rightarrow> bytes \<Rightarrow> nat \<Rightarrow> split_state \<Rightarrow> (bool \<times> split_state) option" where
  "split_slot alloc split_key slot = (\<lambda>(ln, lf, nln, nlf, n). do {
     slot_key \<leftarrow> nth_opt (kv_keys lf) slot;
     r \<leftarrow> strcmp (data slot_key) (c_str split_key);
     if r > 0 then do {
       dst_key \<leftarrow> nth_opt (kv_keys nlf) slot;
       (ok1, n1, k1, k2) \<leftarrow> move_string alloc n slot_key dst_key;
       let lf1 = lf\<lparr>kv_keys := (kv_keys lf)[slot := k1]\<rparr>;
       let nlf1 = nlf\<lparr>kv_keys := (kv_keys nlf)[slot := k2]\<rparr>;
       if \<not> ok1 then Some (False, ln, lf1, nln, nlf1, n1)
       else do {
         slot_value \<leftarrow> nth_opt (kv_values lf1) slot;
         dst_value \<leftarrow> nth_opt (kv_values nlf1) slot;
         (ok2, n2, v1, v2) \<leftarrow> move_string alloc n1 slot_value dst_value;
         let lf2 = lf1\<lparr>kv_values := (kv_values lf1)[slot := v1]\<rparr>;
         let nlf2 = nlf1\<lparr>kv_values := (kv_values nlf1)[slot := v2]\<rparr>;
         if \<not> ok2 then Some (False, ln, lf2, nln, nlf2, n2)
         else do {
           h \<leftarrow> nth_opt (hashes ln) slot;
           Some (True, ln\<lparr>hashes := (hashes ln)[slot := 0]\<rparr>, lf2\<lparr>phashes := (phashes lf2)[slot := 0]\<rparr>,
             nln\<lparr>hashes := (hashes nln)[slot := h]\<rparr>, nlf2\<lparr>phashes := (phashes nlf2)[slot := h]\<rparr>, n2) } }
     } else Some (True, ln, lf, nln, nlf, n) })"

fun split_loop :: "(nat \<Rightarrow> bool) \<Rightarrow> bytes \<Rightarrow> nat \<Rightarrow> split_state \<Rightarrow> (bool \<times> split_state) option" where
  "split_loop alloc split_key 0 st = Some (True, st)"
| "split_loop alloc split_key (Suc slot) st = do {
     (done, st') \<leftarrow> split_slot alloc split_key slot st;
     if done then split_loop alloc split_key slot st' else Some (False, st') }"

text \<open>\<open>std::sort\<close> of the 49 key pointers with \<open>strcmp\<close>, and the text of the middle one.\<close>

definition choose_split_key :: "ScreeDBLeaf \<Rightarrow> Slice \<Rightarrow> bytes option" where
  "choose_split_key lf key = do {
     ks \<leftarrow> those (map (nth_opt (kv_keys lf)) [0..<NODE_KEYS]);
     let ptrs = map data ks @ [data_ptr key];
     if list_all terminated ptrs then nth_opt (sort (map cstr ptrs)) NODE_KEYS_MIDPOINT else None }"

text \<open>The transaction of \<open>LeafSplit\<close>; \<open>a\<close> and \<open>b\<close> are the leaf node and the new leaf node.\<close>

definition split_tx ::
    "(nat \<Rightarrow> bool) \<Rightarrow> nat \<Rightarrow> nat \<Rightarrow> bytes \<Rightarrow> byte \<Rightarrow> Slice \<Rightarrow> Slice \<Rightarrow> nat option \<Rightarrow> ScreeDBTree \<Rightarrow> (bool \<times> ScreeDBTree) option" where
  "split_tx alloc a b split_key hash key value old_head s =
     (if \<not> alloc (allocs s) then Some (False, s\<lparr>allocs := Suc (allocs s)\<rparr>)
      else do {
        let q = pnext s;
        ln \<leftarrow> leafnode_at (vheap s) a;
        p \<leftarrow> leaf ln;
        lf \<leftarrow> pheap s p;
        nln \<leftarrow> leafnode_at (vheap s) b;
        let nlf = new_ScreeDBLeaf\<lparr>next_leaf := old_head\<rparr>;
        (moved, ln1, lf1, nln1, nlf1, n1) \<leftarrow>
          split_loop alloc split_key NODE_KEYS (ln, lf, nln\<lparr>leaf := Some q\<rparr>, nlf, Suc (allocs s));
        let put_back = (\<lambda>done ln lf nln nlf n. Some (done, s\<lparr>vheap := (vheap s)(a \<mapsto> VLeaf ln, b \<mapsto> VLeaf nln),
              pheap := (pheap s)(p \<mapsto> lf, q \<mapsto> nlf), pnext := Suc q, allocs := n,
              proot := (if done then (proot s)\<lparr>head := Some q\<rparr> else proot s)\<rparr>));
        if \<not> moved then put_back False ln1 lf1 nln1 nlf1 n1
        else do {
          r \<leftarrow> strcmp (data_ptr key) (c_str split_key);
          if r > 0 then do {
            (filled, nln2, nlf2, n2) \<leftarrow> LeafFillFirstEmptySlot alloc hash key value (nln1, nlf1, n1);
            put_back filled ln1 lf1 nln2 nlf2 n2
          } else do {
            (filled, ln2, lf2, n2) \<leftarrow> LeafFillFirstEmptySlot alloc hash key value (ln1, lf1, n1);
            put_back filled ln2 lf2 nln1 nlf1 n2 } } })"

definition LeafSplit ::
    "(nat \<Rightarrow> bool) \<Rightarrow> nat \<Rightarrow> byte \<Rightarrow> Slice \<Rightarrow> Slice \<Rightarrow> ScreeDBTree \<Rightarrow> (bool \<times> ScreeDBTree) option" where
  "LeafSplit alloc a hash key value s = do {
     ln \<leftarrow> leafnode_at (vheap s) a;
     lf \<leftarrow> leaf_at (pheap s) (leaf ln);
     split_key \<leftarrow> choose_split_key lf key;
     let b = vnext s;
     let s1 = s\<lparr>vheap := (vheap s)(b \<mapsto> VLeaf (new_ScreeDBLeafNode\<lparr>parent := parent ln, is_leaf := True\<rparr>)),
                vnext := Suc b\<rparr>;
     (committed, s2) \<leftarrow> exec_tx (split_tx alloc a b split_key hash key value (head (proot s1))) s1;
     if committed then do {
       s3 \<leftarrow> LeafUpdateParentsAfterSplit a b split_key s2;
       Some (True, s3)
     } else Some (False, s2) }"

section \<open>Key/value operations\<close>

text \<open>The empty tree gets its first leaf; the new node becomes the top once the transaction is
  through.\<close>

definition add_head_leaf ::
    "(nat \<Rightarrow> bool) \<Rightarrow> byte \<Rightarrow> Slice \<Rightarrow> Slice \<Rightarrow> ScreeDBTree \<Rightarrow> (bool \<times> ScreeDBTree) option" where
  "add_head_leaf alloc hash key value s = do {
     let b = vnext s;
     let nln = new_ScreeDBLeafNode\<lparr>is_leaf := True\<rparr>;
     let old_head = head (proot s);
     let s1 = s\<lparr>vheap := (vheap s)(b \<mapsto> VLeaf nln), vnext := Suc b\<rparr>;
     (committed, s2) \<leftarrow> exec_tx (\<lambda>s.
        (if \<not> alloc (allocs s) then Some (False, s\<lparr>allocs := Suc (allocs s)\<rparr>)
         else do {
           let q = pnext s;
           (done, nln', nlf', n) \<leftarrow> LeafFillSpecificSlot alloc hash key value 0
              (nln\<lparr>leaf := Some q\<rparr>, new_ScreeDBLeaf\<lparr>next_leaf := old_head\<rparr>, Suc (allocs s));
           Some (done, s\<lparr>vheap := (vheap s)(b \<mapsto> VLeaf nln'), pheap := (pheap s)(q \<mapsto> nlf'), pnext := Suc q,
              allocs := n, proot := (if done then (proot s)\<lparr>head := Some q\<rparr> else proot s)\<rparr>) })) s1;
     Some (committed, if committed then s2\<lparr>top_node := Some b\<rparr> else s2) }"

text \<open>The result of \<open>Put\<close> is the status returned, or \<open>None\<close> for an exception.\<close>

definition Put :: "(nat \<Rightarrow> bool) \<Rightarrow> Slice \<Rightarrow> Slice \<Rightarrow> ScreeDBTree \<Rightarrow> (Status option \<times> ScreeDBTree) option" where
  "Put alloc key value s = do {
     hash \<leftarrow> PearsonHash (data_ptr key) (size_of key);
     leafnode \<leftarrow> LeafSearch key s;
     (case leafnode of
        None \<Rightarrow> do {
          (done, s') \<leftarrow> add_head_leaf alloc hash key value s;
          Some (if done then Some Status_OK else None, s') }
      | Some a \<Rightarrow> do {
          (r, s1) \<leftarrow> LeafFillSlotForKey alloc a hash key value s;
          (case r of
             None \<Rightarrow> Some (None, s1)
           | Some True \<Rightarrow> Some (Some Status_OK, s1)
           | Some False \<Rightarrow> do {
               (done, s2) \<leftarrow> LeafSplit alloc a hash key value s1;
               Some (if done then Some Status_OK else None, s2) }) }) }"

definition Get :: "Slice \<Rightarrow> bytes \<Rightarrow> ScreeDBTree \<Rightarrow> (Status \<times> bytes) option" where
  "Get key value s = do {
     leafnode \<leftarrow> LeafSearch key s;
     (case leafnode of
        None \<Rightarrow> Some (NotFound, value)
      | Some a \<Rightarrow> do {
          hash \<leftarrow> PearsonHash (data_ptr key) (size_of key);
          ln \<leftarrow> leafnode_at (vheap s) a;
          lf \<leftarrow> leaf_at (pheap s) (leaf ln);
          found \<leftarrow> find_slot ln lf hash (data_ptr key) NODE_KEYS;
          (case found of
             None \<Rightarrow> Some (NotFound, value)
           | Some slot \<Rightarrow> do {
               v \<leftarrow> nth_opt (kv_values lf) slot;
               _ \<leftarrow> strlen (data v);
               Some (Status_OK, value @ cstr (data v)) }) }) }"

fun MultiGet :: "Slice list \<Rightarrow> bytes list \<Rightarrow> ScreeDBTree \<Rightarrow> (Status list \<times> bytes list) option" where
  "MultiGet [] values s = Some ([], values)"
| "MultiGet (key # ks) values s = do {
     k \<leftarrow> Slice_of_cstr (data_ptr key);
     (st, value) \<leftarrow> Get k [] s;
     (sts, values') \<leftarrow> MultiGet ks (values @ [if ok st then value else []]) s;
     Some (st # sts, values') }"

definition Delete :: "Slice \<Rightarrow> ScreeDBTree \<Rightarrow> (Status \<times> ScreeDBTree) option" where
  "Delete key s = do {
     leafnode \<leftarrow> LeafSearch key s;
     (case leafnode of
        None \<Rightarrow> Some (Status_OK, s)
      | Some a \<Rightarrow> do {
          hash \<leftarrow> PearsonHash (data_ptr key) (size_of key);
          ln \<leftarrow> leafnode_at (vheap s) a;
          p \<leftarrow> leaf ln;
          lf \<leftarrow> pheap s p;
          found \<leftarrow> find_slot ln lf hash (data_ptr key) NODE_KEYS;
          (case found of
             None \<Rightarrow> Some (Status_OK, s)
           | Some slot \<Rightarrow> do {
               let s1 = s\<lparr>vheap := (vheap s)(a \<mapsto> VLeaf (ln\<lparr>hashes := (hashes ln)[slot := 0]\<rparr>))\<rparr>;
               (_, s2) \<leftarrow> exec_tx (\<lambda>s. Some (True,
                  s\<lparr>pheap := (pheap s)(p \<mapsto> lf\<lparr>phashes := (phashes lf)[slot := 0]\<rparr>)\<rparr>)) s1;
               Some (Status_OK, s2) }) }) }"

end
