(* ===== verification/Scree_Leaf.thy ===== *)
theory Scree_Leaf
  imports Scree_Ops
begin

text \<open>
  What the operations on one leaf do.  A well-formed leaf (\<open>leaf_ok\<close>) is a finite map from keys to
  values (\<open>leaf_map\<close>): a slot is in use when its hash is not zero.  The scans find a key's slot,
  filling a slot updates the map at the key, clearing a slot removes the key, and the loop of
  \<open>LeafSplit\<close> divides the map at the split key.
\<close>

section \<open>Leaves as maps\<close>

definition live :: "ScreeDBLeaf \<Rightarrow> nat \<Rightarrow> bool" where
  "live lf i \<longleftrightarrow> i < NODE_KEYS \<and> phashes lf ! i \<noteq> 0"

definition key_at :: "ScreeDBLeaf \<Rightarrow> nat \<Rightarrow> bytes" where
  "key_at lf i = content (kv_keys lf ! i)"

definition val_at :: "ScreeDBLeaf \<Rightarrow> nat \<Rightarrow> bytes" where
  "val_at lf i = content (kv_values lf ! i)"

definition leaf_map :: "ScreeDBLeaf \<Rightarrow> bytes \<Rightarrow> bytes option" where
  "leaf_map lf k = map_option (val_at lf) (find (\<lambda>i. live lf i \<and> key_at lf i = k) [0..<NODE_KEYS])"

definition leaf_ok :: "ScreeDBLeaf \<Rightarrow> bool" where
  "leaf_ok lf \<longleftrightarrow> length (phashes lf) = NODE_KEYS \<and> length (kv_keys lf) = NODE_KEYS \<and> length (kv_values lf) = NODE_KEYS \<and>
     (\<forall>x\<in>set (kv_keys lf). str_ok x) \<and> (\<forall>x\<in>set (kv_values lf). str_ok x) \<and>
     (\<forall>i. live lf i \<longrightarrow> ascii (key_at lf i) \<and> phashes lf ! i = key_hash (key_at lf i)) \<and>
     (\<forall>i j. live lf i \<longrightarrow> live lf j \<longrightarrow> key_at lf i = key_at lf j \<longrightarrow> i = j)"

lemma leaf_okD:
  assumes "leaf_ok lf"
  shows "length (phashes lf) = NODE_KEYS" "length (kv_keys lf) = NODE_KEYS" "length (kv_values lf) = NODE_KEYS"
    "i < NODE_KEYS \<Longrightarrow> str_ok (kv_keys lf ! i)" "i < NODE_KEYS \<Longrightarrow> str_ok (kv_values lf ! i)"
    "live lf i \<Longrightarrow> ascii (key_at lf i)" "live lf i \<Longrightarrow> phashes lf ! i = key_hash (key_at lf i)"
    "live lf i \<Longrightarrow> live lf j \<Longrightarrow> key_at lf i = key_at lf j \<Longrightarrow> i = j"
  using assms by (auto simp: leaf_ok_def)

lemma leaf_map_None: "leaf_map lf k = None \<longleftrightarrow> (\<forall>i. live lf i \<longrightarrow> key_at lf i \<noteq> k)"
  by (auto simp: leaf_map_def find_None_iff live_def)

lemma leaf_map_Some:
  assumes "leaf_ok lf"
  shows "leaf_map lf k = Some v \<longleftrightarrow> (\<exists>i. live lf i \<and> key_at lf i = k \<and> val_at lf i = v)"
proof
  assume "leaf_map lf k = Some v"
  then show "\<exists>i. live lf i \<and> key_at lf i = k \<and> val_at lf i = v"
    by (auto simp: leaf_map_def find_Some_iff)
next
  assume "\<exists>i. live lf i \<and> key_at lf i = k \<and> val_at lf i = v"
  then obtain i where i: "live lf i" "key_at lf i = k" "val_at lf i = v" by blast
  then have "leaf_map lf k \<noteq> None" by (auto simp: leaf_map_None)
  then obtain j where "live lf j" "key_at lf j = k" "leaf_map lf k = Some (val_at lf j)"
    by (auto simp: leaf_map_def find_Some_iff)
  with i leaf_okD(8) [OF assms] show "leaf_map lf k = Some v" by blast
qed

lemma live_less: "live lf i \<Longrightarrow> i < NODE_KEYS"
  by (simp add: live_def)

text \<open>Two leaves with the same slots in use, keys and values have the same map.\<close>

lemma leaf_map_eqI:
  assumes "leaf_ok lf" "\<And>k v. m k = Some v \<longleftrightarrow> (\<exists>i. live lf i \<and> key_at lf i = k \<and> val_at lf i = v)"
  shows "leaf_map lf = m"
proof
  fix k
  show "leaf_map lf k = m k"
    using leaf_map_Some [OF assms(1), of k] assms(2) [of k] by (metis not_None_eq)
qed

lemma live_new [simp]: "\<not> live (new_ScreeDBLeaf\<lparr>next_leaf := p\<rparr>) i"
  by (auto simp: live_def new_ScreeDBLeaf_def)

lemma leaf_ok_new [simp]: "leaf_ok (new_ScreeDBLeaf\<lparr>next_leaf := p\<rparr>)"
  by (simp add: leaf_ok_def) (simp add: new_ScreeDBLeaf_def)

lemma leaf_map_new [simp]: "leaf_map (new_ScreeDBLeaf\<lparr>next_leaf := p\<rparr>) = Map.empty"
  by (auto simp: fun_eq_iff leaf_map_None)

section \<open>Keys the hash is defined for\<close>

definition key_ok :: "Slice \<Rightarrow> bool" where
  "key_ok sl \<longleftrightarrow> terminated (data_ptr sl) \<and> size_of sl = length (cstr (data_ptr sl)) \<and> ascii (cstr (data_ptr sl))"

definition val_ok :: "Slice \<Rightarrow> bool" where
  "val_ok sl \<longleftrightarrow> terminated (data_ptr sl)"

abbreviation ktext :: "Slice \<Rightarrow> bytes" where
  "ktext sl \<equiv> cstr (data_ptr sl)"

lemma take_cstr: "terminated m \<Longrightarrow> take (length (cstr m)) m = cstr m"
  by (erule terminatedE) (metis append_eq_conv_conj)

lemma key_ok_hash: "key_ok key \<Longrightarrow> PearsonHash (data_ptr key) (size_of key) = Some (key_hash (ktext key))"
  using PearsonHash_ascii [of "size_of key" "data_ptr key"] length_cstr_less [of "data_ptr key"]
  by (auto simp: key_ok_def take_cstr)

section \<open>Finding a slot\<close>

lemma strcmp_content:
  assumes "str_ok s" "terminated k"
  obtains c where "strcmp (data s) k = Some c" "c = 0 \<longleftrightarrow> content s = cstr k"
  using strcmp_total [of "data s" k] assms by (auto simp: content_def)

lemma find_slot_ok:
  assumes "leaf_ok lf" "hashes ln = phashes lf" "key_ok key" "n \<le> NODE_KEYS"
  shows "\<exists>r. find_slot ln lf (key_hash (ktext key)) (data_ptr key) n = Some r \<and>
     (case r of None \<Rightarrow> \<forall>i<n. live lf i \<longrightarrow> key_at lf i \<noteq> ktext key
      | Some i \<Rightarrow> live lf i \<and> key_at lf i = ktext key)"
  using assms(4)
proof (induction n)
  case (Suc n)
  note ok = leaf_okD [OF assms(1)]
  obtain c where c: "strcmp (data (kv_keys lf ! n)) (data_ptr key) = Some c" "c = 0 \<longleftrightarrow> key_at lf n = ktext key"
    using strcmp_content [of "kv_keys lf ! n" "data_ptr key"] ok(4) [of n] Suc.prems assms(3)
    by (auto simp: key_ok_def key_at_def)
  have nz: "key_hash (ktext key) \<noteq> 0" using assms(3) by (auto simp: key_ok_def key_hash_nonzero)
  show ?case
  proof (cases "phashes lf ! n = key_hash (ktext key) \<and> c = 0")
    case True
    with nz Suc.prems have "live lf n" by (auto simp: live_def)
    with True c Suc.prems ok show ?thesis by (simp add: assms(2))
  next
    case False
    from Suc obtain r where r: "find_slot ln lf (key_hash (ktext key)) (data_ptr key) n = Some r"
      "case r of None \<Rightarrow> \<forall>i<n. live lf i \<longrightarrow> key_at lf i \<noteq> ktext key | Some i \<Rightarrow> live lf i \<and> key_at lf i = ktext key"
      by auto
    have "find_slot ln lf (key_hash (ktext key)) (data_ptr key) (Suc n) = Some r"
      using False c r(1) Suc.prems ok by (auto simp: assms(2))
    moreover have "live lf n \<longrightarrow> key_at lf n \<noteq> ktext key" using False c ok(7) [of n] by auto
    ultimately show ?thesis using r(2) by (auto simp: less_Suc_eq split: option.splits)
  qed
qed simp

lemma fill_scan_ok:
  assumes "leaf_ok lf" "hashes ln = phashes lf" "key_ok key" "n \<le> NODE_KEYS"
    "\<And>j. e = Some j \<Longrightarrow> j < NODE_KEYS \<and> phashes lf ! j = 0"
  shows "\<exists>r e'. fill_scan ln lf (key_hash (ktext key)) (data_ptr key) n e = Some (r, e') \<and>
     (\<forall>j. e' = Some j \<longrightarrow> j < NODE_KEYS \<and> phashes lf ! j = 0) \<and>
     (case r of None \<Rightarrow> (\<forall>i<n. live lf i \<longrightarrow> key_at lf i \<noteq> ktext key) \<and> (e' = None \<longrightarrow> (\<forall>i<n. live lf i) \<and> e = None)
      | Some i \<Rightarrow> live lf i \<and> key_at lf i = ktext key)"
  using assms(4,5)
proof (induction n arbitrary: e)
  case (Suc n)
  note ok = leaf_okD [OF assms(1)]
  obtain c where c: "strcmp (data (kv_keys lf ! n)) (data_ptr key) = Some c" "c = 0 \<longleftrightarrow> key_at lf n = ktext key"
    using strcmp_content [of "kv_keys lf ! n" "data_ptr key"] ok(4) [of n] Suc.prems assms(3)
    by (auto simp: key_ok_def key_at_def)
  have nz: "key_hash (ktext key) \<noteq> 0" using assms(3) by (auto simp: key_ok_def key_hash_nonzero)
  consider (empty) "phashes lf ! n = 0" | (hit) "phashes lf ! n = key_hash (ktext key)" "c = 0"
    | (miss) "phashes lf ! n \<noteq> 0" "\<not> (phashes lf ! n = key_hash (ktext key) \<and> c = 0)" by auto
  then show ?case
  proof cases
    case empty
    then have "\<not> live lf n" by (simp add: live_def)
    with Suc.IH [of "Some n"] Suc.prems empty ok show ?thesis
      by (fastforce simp: assms(2) less_Suc_eq split: option.splits)
  next
    case hit
    with nz Suc.prems have "live lf n" by (auto simp: live_def)
    with hit c Suc.prems ok nz show ?thesis by (auto simp: assms(2))
  next
    case miss
    then have "live lf n" using Suc.prems by (simp add: live_def)
    moreover have "key_at lf n \<noteq> ktext key" using miss c ok(7) [OF \<open>live lf n\<close>] by auto
    moreover have "fill_scan ln lf (key_hash (ktext key)) (data_ptr key) (Suc n) e =
        fill_scan ln lf (key_hash (ktext key)) (data_ptr key) n e"
      using miss c Suc.prems ok by (auto simp: assms(2))
    ultimately show ?thesis using Suc.IH [of e] Suc.prems
      by (fastforce simp: less_Suc_eq split: option.splits)
  qed
qed simp

section \<open>Filling and clearing a slot\<close>

lemma slot_update:
  assumes "leaf_ok lf" "i < NODE_KEYS" "str_ok sk" "str_ok sv" "ascii (content sk)"
    "\<And>j. live lf j \<Longrightarrow> key_at lf j = content sk \<longleftrightarrow> j = i"
    "phashes lf' = (phashes lf)[i := key_hash (content sk)]"
    "kv_keys lf' = (kv_keys lf)[i := sk]" "kv_values lf' = (kv_values lf)[i := sv]"
  shows "leaf_ok lf'" "leaf_map lf' = (leaf_map lf)(content sk \<mapsto> content sv)"
proof -
  note ok = leaf_okD [OF assms(1)]
  have live: "live lf' j \<longleftrightarrow> j = i \<or> live lf j" for j
    using assms(2) ok key_hash_nonzero [OF assms(5)] by (auto simp: live_def assms(7) nth_list_update)
  have key: "key_at lf' j = (if j = i then content sk else key_at lf j)" for j
    using assms(2) ok by (simp add: key_at_def assms(8) nth_list_update)
  have val: "val_at lf' j = (if j = i then content sv else val_at lf j)" for j
    using assms(2) ok by (simp add: val_at_def assms(9) nth_list_update)
  have hash: "phashes lf' ! j = (if j = i then key_hash (content sk) else phashes lf ! j)" for j
    using assms(2) ok by (simp add: assms(7) nth_list_update)
  show lf': "leaf_ok lf'"
    unfolding leaf_ok_def live key hash
  proof (intro conjI)
    show "\<forall>x\<in>set (kv_keys lf'). str_ok x" "\<forall>x\<in>set (kv_values lf'). str_ok x"
      using assms(1,3,4) by (auto simp: leaf_ok_def assms(8,9) dest!: set_update_subset_insert [THEN subsetD])
    show "\<forall>k j. k = i \<or> live lf k \<longrightarrow> j = i \<or> live lf j \<longrightarrow>
      (if k = i then content sk else key_at lf k) = (if j = i then content sk else key_at lf j) \<longrightarrow> k = j"
      using assms(6) ok(8) by metis
  qed (use assms(5) ok in \<open>simp_all add: assms(7-9)\<close>)
  show "leaf_map lf' = (leaf_map lf)(content sk \<mapsto> content sv)"
    by (rule leaf_map_eqI [OF lf']) (use assms(6) in \<open>auto simp: live key val leaf_map_Some [OF assms(1)]\<close>)
qed

lemma slot_clear:
  assumes "leaf_ok lf" "live lf i"
  shows "leaf_ok (lf\<lparr>phashes := (phashes lf)[i := 0]\<rparr>)" (is "leaf_ok ?lf")
    "leaf_map (lf\<lparr>phashes := (phashes lf)[i := 0]\<rparr>) = (leaf_map lf)(key_at lf i := None)"
proof -
  note ok = leaf_okD [OF assms(1)]
  have live: "live ?lf j \<longleftrightarrow> j \<noteq> i \<and> live lf j" for j
    using assms(2) ok by (auto simp: live_def nth_list_update)
  have kv: "key_at ?lf j = key_at lf j" "val_at ?lf j = val_at lf j" for j by (simp_all add: key_at_def val_at_def)
  show lf': "leaf_ok ?lf"
    using assms(1) unfolding leaf_ok_def live kv by auto
  show "leaf_map ?lf = (leaf_map lf)(key_at lf i := None)"
  proof (rule leaf_map_eqI [OF lf'])
    fix k v
    show "((leaf_map lf)(key_at lf i := None)) k = Some v \<longleftrightarrow> (\<exists>j. live ?lf j \<and> key_at ?lf j = k \<and> val_at ?lf j = v)"
    proof (cases "k = key_at lf i")
      case True
      then show ?thesis using assms(2) ok(8) [of i] by (auto simp: live kv dest: sym)
    next
      case False
      then show ?thesis using leaf_map_Some [OF assms(1), of k v] by (auto simp: live kv)
    qed
  qed
qed

text \<open>The two structs of a leaf agree on the hashes; \<open>same_node\<close>: only the hashes changed.\<close>

definition same_node :: "ScreeDBLeafNode \<Rightarrow> ScreeDBLeafNode \<Rightarrow> bool" where
  "same_node ln ln' \<longleftrightarrow> is_leaf ln' = is_leaf ln \<and> parent ln' = parent ln \<and> leaf ln' = leaf ln"

definition shadows :: "ScreeDBLeafNode \<Rightarrow> ScreeDBLeaf \<Rightarrow> bool" where
  "shadows ln lf \<longleftrightarrow> leaf_ok lf \<and> hashes ln = phashes lf"

lemma same_node_refl [simp]: "same_node ln ln"
  by (simp add: same_node_def)

lemma set_of_cstr:
  assumes "str_ok s" "terminated m" "\<forall>i. alloc i"
  obtains n' s' where "do { sl \<leftarrow> Slice_of_cstr m; set_string alloc sl n s } = Some (True, n', s')"
    "str_ok s'" "content s' = cstr m"
  using set_string_ok [OF assms, where n = n] assms(2) by (auto simp: Slice_of_cstr_bytes)

text \<open>Filling the key's own slot, or an empty slot when the key is not in the leaf.\<close>

lemma LeafFillSpecificSlot_ok:
  assumes "shadows ln lf" "key_ok key" "val_ok value" "\<forall>i. alloc i" "i < NODE_KEYS"
    "live lf i \<and> key_at lf i = ktext key \<or> \<not> live lf i \<and> leaf_map lf (ktext key) = None"
  shows "\<exists>ln' lf' n'. LeafFillSpecificSlot alloc (key_hash (ktext key)) key value i (ln, lf, n) = Some (True, ln', lf', n') \<and>
     shadows ln' lf' \<and> same_node ln ln' \<and> next_leaf lf' = next_leaf lf \<and>
     leaf_map lf' = (leaf_map lf)(ktext key \<mapsto> ktext value)"
proof -
  have lf: "leaf_ok lf" "hashes ln = phashes lf" using assms(1) by (simp_all add: shadows_def)
  note ok = leaf_okD [OF lf(1)]
  have kv: "str_ok (kv_keys lf ! i)" "str_ok (kv_values lf ! i)" using ok(4,5) assms(5) by auto
  obtain n1 sk where sk: "(if phashes lf ! i = 0 then do { k \<leftarrow> Slice_of_cstr (data_ptr key); set_string alloc k n (kv_keys lf ! i) }
      else Some (True, n, kv_keys lf ! i)) = Some (True, n1, sk)" "str_ok sk" "content sk = ktext key"
  proof (cases "phashes lf ! i = 0")
    case True
    then show ?thesis
      using set_of_cstr [of "kv_keys lf ! i" "data_ptr key" alloc n] kv assms(2,4) that by (auto simp: key_ok_def)
  next
    case False
    then show ?thesis using that kv assms(5,6) by (auto simp: live_def key_at_def)
  qed
  obtain n2 sv where sv: "do { v \<leftarrow> Slice_of_cstr (data_ptr value); set_string alloc v n1 (kv_values lf ! i) } = Some (True, n2, sv)"
    "str_ok sv" "content sv = ktext value"
    using set_of_cstr [of "kv_values lf ! i" "data_ptr value" alloc n1] kv assms(3,4) by (auto simp: val_ok_def)
  define lf' where "lf' = lf\<lparr>kv_keys := (kv_keys lf)[i := sk], phashes := (phashes lf)[i := key_hash (ktext key)],
    kv_values := (kv_values lf)[i := sv]\<rparr>"
  define ln' where "ln' = ln\<lparr>hashes := (hashes ln)[i := key_hash (ktext key)]\<rparr>"
  have "LeafFillSpecificSlot alloc (key_hash (ktext key)) key value i (ln, lf, n) = Some (True, ln', lf', n2)"
    using ok(1-3) assms(5) sk(1) sv(1)
    by (cases "Slice_of_cstr (data_ptr value)") (simp_all add: LeafFillSpecificSlot_def lf(2) Let_def lf'_def ln'_def)
  moreover have "live lf j \<Longrightarrow> key_at lf j = content sk \<longleftrightarrow> j = i" for j
    using assms(6) ok(8) sk(3) by (auto simp: leaf_map_None)
  then have "leaf_ok lf'" "leaf_map lf' = (leaf_map lf)(content sk \<mapsto> content sv)"
    using slot_update [of lf i sk sv lf'] lf(1) assms(2,5) sk(2,3) sv(2) by (auto simp: lf'_def key_ok_def)
  ultimately show ?thesis
    using lf sk(3) sv(3) by (auto simp: shadows_def same_node_def ln'_def lf'_def)
qed

lemma fill_first_empty_ok:
  assumes "shadows ln lf" "key_ok key" "val_ok value" "\<forall>i. alloc i" "n \<le> NODE_KEYS"
    "\<exists>i<n. \<not> live lf i" "leaf_map lf (ktext key) = None"
  shows "\<exists>ln' lf' c'. fill_first_empty alloc (key_hash (ktext key)) key value n (ln, lf, c) = Some (True, ln', lf', c') \<and>
     shadows ln' lf' \<and> same_node ln ln' \<and> next_leaf lf' = next_leaf lf \<and>
     leaf_map lf' = (leaf_map lf)(ktext key \<mapsto> ktext value)"
  using assms(5,6)
proof (induction n)
  case (Suc n)
  have lf: "leaf_ok lf" "hashes ln = phashes lf" using assms(1) by (simp_all add: shadows_def)
  show ?case
  proof (cases "live lf n")
    case True
    with Suc leaf_okD [OF lf(1)] show ?thesis by (auto simp: live_def lf(2) less_Suc_eq)
  next
    case False
    then have eq: "fill_first_empty alloc (key_hash (ktext key)) key value (Suc n) (ln, lf, c) =
        LeafFillSpecificSlot alloc (key_hash (ktext key)) key value n (ln, lf, c)"
      using Suc.prems leaf_okD [OF lf(1)] by (simp add: live_def lf(2))
    show ?thesis unfolding eq
      by (rule LeafFillSpecificSlot_ok [OF assms(1-4)]) (use Suc.prems assms(7) False in auto)
  qed
qed simp

lemma LeafFillFirstEmptySlot_ok:
  assumes "shadows ln lf" "key_ok key" "val_ok value" "\<forall>i. alloc i" "\<exists>i<NODE_KEYS. \<not> live lf i"
    "leaf_map lf (ktext key) = None"
  shows "\<exists>ln' lf' c'. LeafFillFirstEmptySlot alloc (key_hash (ktext key)) key value (ln, lf, c) = Some (True, ln', lf', c') \<and>
     shadows ln' lf' \<and> same_node ln ln' \<and> next_leaf lf' = next_leaf lf \<and>
     leaf_map lf' = (leaf_map lf)(ktext key \<mapsto> ktext value)"
  using fill_first_empty_ok [OF assms(1-4) order_refl assms(5,6)] by (simp add: LeafFillFirstEmptySlot_def)

section \<open>Splitting\<close>

text \<open>Clearing a slot whatever strings are left in it.\<close>

lemma slot_reset:
  assumes "leaf_ok lf" "live lf i" "str_ok sk" "str_ok sv" "phashes lf' = (phashes lf)[i := 0]"
    "kv_keys lf' = (kv_keys lf)[i := sk]" "kv_values lf' = (kv_values lf)[i := sv]"
  shows "leaf_ok lf'" "leaf_map lf' = (leaf_map lf)(key_at lf i := None)"
    "live lf' j \<longleftrightarrow> live lf j \<and> j \<noteq> i" "j \<noteq> i \<Longrightarrow> key_at lf' j = key_at lf j"
proof -
  note ok = leaf_okD [OF assms(1)]
  have i: "i < NODE_KEYS" using assms(2) by (rule live_less)
  show live: "live lf' j \<longleftrightarrow> live lf j \<and> j \<noteq> i" for j
    using i ok by (auto simp: live_def assms(5) nth_list_update)
  show key: "j \<noteq> i \<Longrightarrow> key_at lf' j = key_at lf j" for j by (simp add: key_at_def assms(6))
  have val: "j \<noteq> i \<Longrightarrow> val_at lf' j = val_at lf j" "j \<noteq> i \<Longrightarrow> phashes lf' ! j = phashes lf ! j" for j
    by (simp_all add: val_at_def assms(5,7))
  show lf': "leaf_ok lf'"
    unfolding leaf_ok_def live
  proof (intro conjI)
    show "\<forall>x\<in>set (kv_keys lf'). str_ok x" "\<forall>x\<in>set (kv_values lf'). str_ok x"
      using assms(1,3,4) by (auto simp: leaf_ok_def assms(6,7) dest!: set_update_subset_insert [THEN subsetD])
  qed (use ok key val in \<open>auto simp: assms(5-7)\<close>)
  have "leaf_map lf' = leaf_map (lf\<lparr>phashes := (phashes lf)[i := 0]\<rparr>)" (is "_ = leaf_map ?lf")
  proof (rule leaf_map_eqI [OF lf'])
    fix k v
    have "live ?lf j \<longleftrightarrow> live lf' j" "live lf' j \<Longrightarrow> key_at ?lf j = key_at lf' j \<and> val_at ?lf j = val_at lf' j" for j
      using key [of j] val [of j] live [of j] by (auto simp: live_def assms(5) key_at_def val_at_def)
    then show "leaf_map ?lf k = Some v \<longleftrightarrow> (\<exists>i. live lf' i \<and> key_at lf' i = k \<and> val_at lf' i = v)"
      unfolding leaf_map_Some [OF slot_clear(1) [OF assms(1,2)]] by auto
  qed
  then show "leaf_map lf' = (leaf_map lf)(key_at lf i := None)" by (simp add: slot_clear(2) [OF assms(1,2)])
qed

lemma move_string_ok:
  assumes "str_ok src" "str_ok dst" "\<forall>i. alloc i"
  obtains n' src' dst' where "move_string alloc n src dst = Some (True, n', src', dst')"
    "str_ok src'" "str_ok dst'" "content dst' = content src"
proof (cases "is_short src")
  case True
  obtain n' s' where "do { sl \<leftarrow> Slice_of_cstr (data src); set_string alloc sl n dst } = Some (True, n', s')"
    "str_ok s'" "content s' = cstr (data src)"
    using set_of_cstr [OF assms(2) str_ok_data [OF assms(1)] assms(3)] by blast
  with True assms(1) show ?thesis
    by (intro that [of n' src s']) (auto simp: move_string_def content_def split: bind_splits)
qed (use assms that in \<open>auto simp: move_string_def\<close>)

lemma strcmp_gt: "terminated a \<Longrightarrow> 0 \<notin> set k \<Longrightarrow> \<exists>c. strcmp a (c_str k) = Some c \<and> (c > 0 \<longleftrightarrow> k < cstr a)"
  by (rule strcmp_total [of a "c_str k"]) simp_all

text \<open>What processing a set \<open>S\<close> of slots does: the keys above the split key move.\<close>

definition moved_keys :: "bytes \<Rightarrow> nat set \<Rightarrow> ScreeDBLeaf \<Rightarrow> bytes set" where
  "moved_keys sk S lf = {k. sk < k \<and> (\<exists>i\<in>S. key_at lf i = k)}"

definition split_rel :: "bytes \<Rightarrow> nat set \<Rightarrow> split_state \<Rightarrow> split_state \<Rightarrow> bool" where
  "split_rel sk S = (\<lambda>(ln, lf, nln, nlf, c) (ln', lf', nln', nlf', c').
     shadows ln' lf' \<and> shadows nln' nlf' \<and> same_node ln ln' \<and> same_node nln nln' \<and>
     next_leaf lf' = next_leaf lf \<and> next_leaf nlf' = next_leaf nlf \<and>
     (\<forall>j. j \<notin> S \<longrightarrow> key_at lf' j = key_at lf j) \<and>
     (\<forall>j. live lf' j \<longleftrightarrow> live lf j \<and> \<not> (j \<in> S \<and> sk < key_at lf j)) \<and>
     (\<forall>j. live nlf' j \<longleftrightarrow> live nlf j \<or> j \<in> S \<and> sk < key_at lf j) \<and>
     leaf_map lf' = leaf_map lf |` (- moved_keys sk S lf) \<and>
     leaf_map nlf' = leaf_map nlf ++ (leaf_map lf |` moved_keys sk S lf))"

lemma split_relD:
  assumes "split_rel sk S (ln, lf, nln, nlf, c) (ln', lf', nln', nlf', c')"
  shows "shadows ln' lf'" "shadows nln' nlf'" "same_node ln ln'" "same_node nln nln'"
    "next_leaf lf' = next_leaf lf" "next_leaf nlf' = next_leaf nlf" "\<And>j. j \<notin> S \<Longrightarrow> key_at lf' j = key_at lf j"
    "\<And>j. live lf' j \<longleftrightarrow> live lf j \<and> \<not> (j \<in> S \<and> sk < key_at lf j)"
    "\<And>j. live nlf' j \<longleftrightarrow> live nlf j \<or> j \<in> S \<and> sk < key_at lf j"
    "leaf_map lf' = leaf_map lf |` (- moved_keys sk S lf)"
    "leaf_map nlf' = leaf_map nlf ++ (leaf_map lf |` moved_keys sk S lf)"
  using assms unfolding split_rel_def prod.case by simp_all

lemma split_slot_ok:
  assumes "shadows ln lf" "shadows nln nlf" "\<forall>i. alloc i" "live lf i" "\<not> live nlf i"
    "leaf_map nlf (key_at lf i) = None" "0 \<notin> set sk"
  shows "\<exists>st'. split_slot alloc sk i (ln, lf, nln, nlf, c) = Some (True, st') \<and> split_rel sk {i} (ln, lf, nln, nlf, c) st'"
proof -
  have lf: "leaf_ok lf" "hashes ln = phashes lf" and nlf: "leaf_ok nlf" "hashes nln = phashes nlf"
    using assms(1,2) by (simp_all add: shadows_def)
  note ok = leaf_okD [OF lf(1)] and nok = leaf_okD [OF nlf(1)]
  have i: "i < NODE_KEYS" using assms(4) by (rule live_less)
  obtain c1 where c1: "strcmp (data (kv_keys lf ! i)) (c_str sk) = Some c1" "c1 > 0 \<longleftrightarrow> sk < key_at lf i"
    using strcmp_gt [OF str_ok_data [OF ok(4) [OF i]] assms(7)] unfolding key_at_def content_def by blast
  show ?thesis
  proof (cases "sk < key_at lf i")
    case False
    then have "moved_keys sk {i} lf = {}" by (auto simp: moved_keys_def)
    then have "split_rel sk {i} (ln, lf, nln, nlf, c) (ln, lf, nln, nlf, c)"
      using False by (simp add: split_rel_def assms(1,2) restrict_map_def) blast
    moreover have "split_slot alloc sk i (ln, lf, nln, nlf, c) = Some (True, ln, lf, nln, nlf, c)"
      using c1 i ok(2) False by (simp add: split_slot_def)
    ultimately show ?thesis by blast
  next
    case True
    obtain n1 k1 k2 where k: "move_string alloc c (kv_keys lf ! i) (kv_keys nlf ! i) = Some (True, n1, k1, k2)"
      "str_ok k1" "str_ok k2" "content k2 = key_at lf i"
      using move_string_ok [OF ok(4) [OF i] nok(4) [OF i] assms(3), of c] unfolding key_at_def by metis
    obtain n2 v1 v2 where v: "move_string alloc n1 (kv_values lf ! i) (kv_values nlf ! i) = Some (True, n2, v1, v2)"
      "str_ok v1" "str_ok v2" "content v2 = val_at lf i"
      using move_string_ok [OF ok(5) [OF i] nok(5) [OF i] assms(3), of n1] unfolding val_at_def by metis
    define lf' where "lf' = lf\<lparr>kv_keys := (kv_keys lf)[i := k1], kv_values := (kv_values lf)[i := v1],
      phashes := (phashes lf)[i := 0]\<rparr>"
    define nlf' where "nlf' = nlf\<lparr>kv_keys := (kv_keys nlf)[i := k2], kv_values := (kv_values nlf)[i := v2],
      phashes := (phashes nlf)[i := phashes lf ! i]\<rparr>"
    have ev: "split_slot alloc sk i (ln, lf, nln, nlf, c) = Some (True, ln\<lparr>hashes := (hashes ln)[i := 0]\<rparr>, lf',
        nln\<lparr>hashes := (hashes nln)[i := phashes lf ! i]\<rparr>, nlf', n2)"
      using c1 True i ok(1-3) nok(1-3) k(1) v(1)
      by (simp add: split_slot_def lf(2) lf'_def nlf'_def)
    have r: "leaf_ok lf'" "leaf_map lf' = (leaf_map lf)(key_at lf i := None)"
        "\<And>j. live lf' j \<longleftrightarrow> live lf j \<and> j \<noteq> i" "\<And>j. j \<noteq> i \<Longrightarrow> key_at lf' j = key_at lf j"
      using slot_reset [OF lf(1) assms(4) k(2) v(2), of lf'] by (simp_all add: lf'_def)
    have fresh: "live nlf j \<Longrightarrow> key_at nlf j = content k2 \<longleftrightarrow> j = i" for j
      using assms(5,6) k(4) by (auto simp: leaf_map_None)
    have u: "leaf_ok nlf'" "leaf_map nlf' = (leaf_map nlf)(content k2 \<mapsto> content v2)"
      using slot_update [OF nlf(1) i k(3) v(3) _ fresh, of nlf'] k(4) ok(6,7) [OF assms(4)] by (simp_all add: nlf'_def)
    have l: "live nlf' j \<longleftrightarrow> live nlf j \<or> j = i" for j
      using i nok(1) assms(4) by (auto simp: live_def nlf'_def nth_list_update)
    have "leaf_map lf (key_at lf i) = Some (val_at lf i)"
      using leaf_map_Some [OF lf(1)] assms(4) by blast
    moreover have "moved_keys sk {i} lf = {key_at lf i}" using True by (auto simp: moved_keys_def)
    ultimately have m: "leaf_map lf' = leaf_map lf |` (- moved_keys sk {i} lf)"
      "leaf_map nlf' = leaf_map nlf ++ (leaf_map lf |` moved_keys sk {i} lf)"
      unfolding r(2) u(2) k(4) v(4) by (simp_all add: fun_eq_iff restrict_map_def map_add_def)
    have h: "phashes lf' = (phashes lf)[i := 0]" "phashes nlf' = (phashes nlf)[i := phashes lf ! i]"
      "next_leaf lf' = next_leaf lf" "next_leaf nlf' = next_leaf nlf" by (simp_all add: lf'_def nlf'_def)
    have l': "live nlf' j \<longleftrightarrow> live nlf j \<or> j \<in> {i} \<and> sk < key_at lf j" for j using True by (auto simp: l)
    have r': "live lf' j \<longleftrightarrow> live lf j \<and> \<not> (j \<in> {i} \<and> sk < key_at lf j)" for j using True by (auto simp: r(3))
    have "split_rel sk {i} (ln, lf, nln, nlf, c) (ln\<lparr>hashes := (hashes ln)[i := 0]\<rparr>, lf',
        nln\<lparr>hashes := (hashes nln)[i := phashes lf ! i]\<rparr>, nlf', n2)"
      unfolding split_rel_def prod.case
      by (intro conjI allI impI l' r' m h) (simp_all add: r(1,4) u(1) lf nlf h shadows_def same_node_def)
    with ev show ?thesis by blast
  qed
qed

lemma split_rel_trans:
  assumes "split_rel sk S st st'" "split_rel sk T st' st''" "S \<inter> T = {}"
    "\<And>i j. i \<in> S \<Longrightarrow> j \<in> T \<Longrightarrow> key_at (fst (snd st)) i \<noteq> key_at (fst (snd st)) j"
  shows "split_rel sk (S \<union> T) st st''"
proof -
  obtain ln lf nln nlf c where st0: "st = (ln, lf, nln, nlf, c)" by (rule prod_cases5)
  obtain ln1 lf1 nln1 nlf1 c1 where st1: "st' = (ln1, lf1, nln1, nlf1, c1)" by (rule prod_cases5)
  obtain ln2 lf2 nln2 nlf2 c2 where st2: "st'' = (ln2, lf2, nln2, nlf2, c2)" by (rule prod_cases5)
  note st = st0 st1 st2
  note s = split_relD [OF assms(1) [unfolded st]] and r = split_relD [OF assms(2) [unfolded st]]
  have T: "j \<in> T \<Longrightarrow> key_at lf1 j = key_at lf j" for j using s(7) assms(3) by auto
  then have m1: "moved_keys sk T lf1 = moved_keys sk T lf" by (auto simp: moved_keys_def)
  have m: "moved_keys sk (S \<union> T) lf = moved_keys sk S lf \<union> moved_keys sk T lf" by (auto simp: moved_keys_def)
  have dis: "k \<notin> moved_keys sk T lf" if "k \<in> moved_keys sk S lf" for k
    using that assms(4) by (fastforce simp: moved_keys_def st)
  have mp: "leaf_map lf2 = leaf_map lf |` (- moved_keys sk (S \<union> T) lf)"
    unfolding r(10) s(10) m m1 restrict_restrict by simp
  have mp': "leaf_map nlf2 = leaf_map nlf ++ (leaf_map lf |` moved_keys sk (S \<union> T) lf)"
  proof
    fix k
    show "leaf_map nlf2 k = (leaf_map nlf ++ (leaf_map lf |` moved_keys sk (S \<union> T) lf)) k"
      unfolding r(11) s(10,11) m m1 using dis [of k]
      by (cases "k \<in> moved_keys sk S lf"; cases "leaf_map lf k"; simp add: map_add_def restrict_map_def)
  qed
  have l: "live lf2 j \<longleftrightarrow> live lf j \<and> \<not> (j \<in> S \<union> T \<and> sk < key_at lf j)"
      "live nlf2 j \<longleftrightarrow> live nlf j \<or> j \<in> S \<union> T \<and> sk < key_at lf j"
      "j \<notin> S \<union> T \<Longrightarrow> key_at lf2 j = key_at lf j" for j
    using r(7-9) [of j] s(7-9) [of j] T [of j] by auto
  show ?thesis unfolding st split_rel_def prod.case
    by (intro conjI allI impI l mp mp' r(1,2))
      (use s(3,4) r(3,4) in \<open>simp_all add: same_node_def s(5,6) r(5,6)\<close>)
qed

lemma split_loop_ok:
  assumes "shadows ln lf" "shadows nln nlf" "\<forall>i. alloc i" "\<forall>i<n. live lf i" "\<forall>i<n. \<not> live nlf i"
    "dom (leaf_map lf) \<inter> dom (leaf_map nlf) = {}" "0 \<notin> set sk" "n \<le> NODE_KEYS"
  shows "\<exists>st'. split_loop alloc sk n (ln, lf, nln, nlf, c) = Some (True, st') \<and>
     split_rel sk {..<n} (ln, lf, nln, nlf, c) st'"
  using assms
proof (induction n arbitrary: ln lf nln nlf c)
  case 0
  then show ?case by (simp add: split_rel_def moved_keys_def restrict_map_def)
next
  case (Suc n)
  have lf: "leaf_ok lf" using Suc.prems(1) by (simp add: shadows_def)
  have n: "live lf n" "\<not> live nlf n" using Suc.prems by auto
  have dom: "key_at lf n \<in> dom (leaf_map lf)" using leaf_map_Some [OF lf] n(1) by blast
  then have new: "leaf_map nlf (key_at lf n) = None" using Suc.prems(6) by (auto simp: domIff)
  obtain ln1 lf1 nln1 nlf1 c1 where s: "split_slot alloc sk n (ln, lf, nln, nlf, c) = Some (True, ln1, lf1, nln1, nlf1, c1)"
     "split_rel sk {n} (ln, lf, nln, nlf, c) (ln1, lf1, nln1, nlf1, c1)"
    using split_slot_ok [OF Suc.prems(1-3) n new Suc.prems(7), of c] by (metis prod_cases5)
  note r = split_relD [OF s(2)]
  have dis: "dom (leaf_map lf1) \<inter> dom (leaf_map nlf1) = {}"
    unfolding r(10,11) dom_map_add dom_restrict using Suc.prems(6) by blast
  have "\<exists>st'. split_loop alloc sk n (ln1, lf1, nln1, nlf1, c1) = Some (True, st') \<and>
     split_rel sk {..<n} (ln1, lf1, nln1, nlf1, c1) st'"
    using Suc.prems(4,5,8) by (intro Suc.IH [OF r(1,2) Suc.prems(3) _ _ dis Suc.prems(7)]) (simp_all add: r(8,9))
  then obtain st' where st': "split_loop alloc sk n (ln1, lf1, nln1, nlf1, c1) = Some (True, st')"
     "split_rel sk {..<n} (ln1, lf1, nln1, nlf1, c1) st'" by blast
  have "key_at lf n \<noteq> key_at lf j" if "j < n" for j
    using Suc.prems(4) leaf_okD(8) [OF lf n(1), of j] that by auto
  then have "split_rel sk ({n} \<union> {..<n}) (ln, lf, nln, nlf, c) st'"
    by (intro split_rel_trans [OF s(2) st'(2)]) auto
  moreover have "{n} \<union> {..<n} = {..<Suc n}" by auto
  ultimately show ?case using s(1) st'(1) by simp
qed

end
