(* ===== verification/Scree_Layout.thy ===== *)
theory Scree_Layout
  imports Scree_Tree
begin

text \<open>
  The contents of a search tree, seen through its sequence of leaves and separators.  Each leaf
  \<open>a\<close> holds a finite map \<open>f a\<close> whose keys lie between the separators around it (\<open>lay_ok\<close>), and the
  whole sequence represents the union of these maps (\<open>lay_map\<close>).  A key can only be in the leaf at
  its position, updating that leaf updates the whole map, and a leaf can be divided in two.
\<close>

fun apart :: "item list \<Rightarrow> bool" where
  "apart [] = True"
| "apart (K k # xs) = apart xs"
| "apart (L a # xs) = ((case xs of L b # _ \<Rightarrow> False | _ \<Rightarrow> True) \<and> apart xs)"

definition lay_ok :: "item list \<Rightarrow> (nat \<Rightarrow> bytes \<Rightarrow> bytes option) \<Rightarrow> bool" where
  "lay_ok items f \<longleftrightarrow> apart items \<and> sorted_wrt (<) (seps items) \<and> (\<forall>k\<in>set (seps items). 0 \<notin> set k) \<and>
     distinct (lvs items) \<and>
     (\<forall>X a Y. items = X @ L a # Y \<longrightarrow>
        (\<forall>k\<in>dom (f a). (\<forall>x\<in>set (seps X). x < k) \<and> (\<forall>y\<in>set (seps Y). k \<le> y)))"

definition lay_map :: "item list \<Rightarrow> (nat \<Rightarrow> bytes \<Rightarrow> bytes option) \<Rightarrow> (bytes \<Rightarrow> bytes option) \<Rightarrow> bool" where
  "lay_map items f m \<longleftrightarrow> (\<forall>k v. m k = Some v \<longleftrightarrow> (\<exists>a\<in>set (lvs items). f a k = Some v))"

lemma apart_append_K: "apart (xs @ K k # ys) \<longleftrightarrow> apart xs \<and> apart ys"
  by (induction xs rule: apart.induct) (auto split: list.splits item.splits)

lemma apart_append_K_L: "apart (xs @ [L a]) \<Longrightarrow> apart (L b # ys) \<Longrightarrow> apart (xs @ L a # K k # L b # ys)"
  using apart_append_K [of "xs @ [L a]" k "L b # ys"] by simp

lemma apart_prefix: "apart (xs @ L a # ys) \<Longrightarrow> apart (xs @ [L a])"
  by (induction xs rule: apart.induct) (auto split: list.splits item.splits simp: append_eq_Cons_conv)

lemma apart_suffix: "apart (xs @ L a # ys) \<Longrightarrow> apart (L b # ys)"
  by (induction xs rule: apart.induct) (auto split: list.splits item.splits)

text \<open>Between two leaves there is a separator.\<close>

lemma apart_sep: "apart (X @ L a # Y @ L b # Z) \<Longrightarrow> seps Y \<noteq> []"
proof (induction X rule: apart.induct)
  case 1
  then show ?case by (cases Y) (auto split: item.splits)
qed auto

lemma lay_okD:
  assumes "lay_ok items f"
  shows "apart items" "sorted_wrt (<) (seps items)" "k \<in> set (seps items) \<Longrightarrow> 0 \<notin> set k" "distinct (lvs items)"
    "items = X @ L a # Y \<Longrightarrow> j \<in> dom (f a) \<Longrightarrow> x \<in> set (seps X) \<Longrightarrow> x < j"
    "items = X @ L a # Y \<Longrightarrow> j \<in> dom (f a) \<Longrightarrow> y \<in> set (seps Y) \<Longrightarrow> j \<le> y"
  using assms unfolding lay_ok_def by blast+

text \<open>A key can only be in the leaf at its position.\<close>

lemma lay_only:
  assumes "lay_ok items f" "items = X @ L a # Y" "\<forall>x\<in>set (seps X). x < k" "\<forall>y\<in>set (seps Y). k \<le> y"
    "b \<in> set (lvs items)" "k \<in> dom (f b)"
  shows "b = a"
proof (rule ccontr)
  assume "b \<noteq> a"
  with assms(5) consider "L b \<in> set X" | "L b \<in> set Y" by (auto simp: assms(2) set_lvs)
  then show False
  proof cases
    case 1
    then obtain X1 X2 where X: "X = X1 @ L b # X2" by (auto simp: in_set_conv_decomp)
    then have it: "items = X1 @ L b # X2 @ L a # Y" by (simp add: assms(2))
    then obtain x where "x \<in> set (seps X2)" using apart_sep [of X1 b X2 a Y] lay_okD(1) [OF assms(1)]
      by (metis list.set_sel(1))
    then have "k \<le> x" "x < k" using lay_okD(6) [OF assms(1) it assms(6), of x] assms(3) X by auto
    then show False by (simp add: leD)
  next
    case 2
    then obtain Y1 Y2 where Y: "Y = Y1 @ L b # Y2" by (auto simp: in_set_conv_decomp)
    then have it: "items = (X @ L a # Y1) @ L b # Y2" by (simp add: assms(2))
    then obtain x where "x \<in> set (seps Y1)" using apart_sep [of X a Y1 b Y2] lay_okD(1) [OF assms(1)]
      by (metis list.set_sel(1) append.assoc append_Cons)
    then have "x < k" "k \<le> x" using lay_okD(5) [OF assms(1) it assms(6), of x] assms(4) Y by auto
    then show False by (simp add: leD)
  qed
qed

lemma lay_find:
  assumes "lay_ok items f" "lay_map items f m" "items = X @ L a # Y"
    "\<forall>x\<in>set (seps X). x < k" "\<forall>y\<in>set (seps Y). k \<le> y"
  shows "m k = f a k"
proof -
  have a: "a \<in> set (lvs items)" by (simp add: assms(3))
  have "m k = Some v \<longleftrightarrow> f a k = Some v" for v
    using assms(2) a lay_only [OF assms(1,3,4,5)] unfolding lay_map_def by (metis domI)
  then show ?thesis by (metis option.exhaust)
qed

lemma decomp_unique:
  "distinct (lvs (X @ L a # Y)) \<Longrightarrow> X @ L a # Y = X' @ L a # Y' \<Longrightarrow> X' = X \<and> Y' = Y"
proof (induction X arbitrary: X')
  case Nil
  then show ?case by (cases X') (auto simp: set_lvs)
next
  case (Cons x X)
  then show ?case by (cases X'; cases x) (auto simp: set_lvs)
qed

lemma lay_update:
  assumes "lay_ok items f" "lay_map items f m" "items = X @ L a # Y"
    "\<forall>x\<in>set (seps X). x < k" "\<forall>y\<in>set (seps Y). k \<le> y"
    "g a = (f a)(k := vo)" "\<And>b. b \<in> set (lvs items) \<Longrightarrow> b \<noteq> a \<Longrightarrow> g b = f b"
  shows "lay_ok items g" "lay_map items g (m(k := vo))"
proof -
  have dis: "distinct (lvs items)" using lay_okD(4) [OF assms(1)] .
  have "(\<forall>x\<in>set (seps X'). x < j) \<and> (\<forall>y\<in>set (seps Y'). j \<le> y)"
    if it: "items = X' @ L b # Y'" and j: "j \<in> dom (g b)" for X' b Y' j
  proof (cases "b = a")
    case True
    with it assms(3) dis decomp_unique have "X' = X" "Y' = Y" by blast+
    moreover from j True assms(6) have "j = k \<or> j \<in> dom (f a)" by (auto split: if_splits)
    ultimately show ?thesis using assms(4,5) lay_okD(5,6) [OF assms(1,3)] by blast
  next
    case False
    then have "g b = f b" using assms(7) it by simp
    then show ?thesis using j lay_okD(5,6) [OF assms(1) it] by simp
  qed
  then show "lay_ok items g" using assms(1) unfolding lay_ok_def by blast
  have a: "a \<in> set (lvs items)" by (simp add: assms(3))
  have other: "f b k = None" if "b \<in> set (lvs items)" "b \<noteq> a" for b
    using lay_only [OF assms(1,3-5) that(1)] that(2) by auto
  show "lay_map items g (m(k := vo))"
    unfolding lay_map_def
  proof (intro allI)
    fix j v
    show "(m(k := vo)) j = Some v \<longleftrightarrow> (\<exists>b\<in>set (lvs items). g b j = Some v)"
    proof (cases "j = k")
      case True
      have "(\<exists>b\<in>set (lvs items). g b k = Some v) \<longleftrightarrow> g a k = Some v"
        using other assms(7) a by fastforce
      then show ?thesis using True assms(6) by simp
    next
      case False
      then have "g b j = f b j" if "b \<in> set (lvs items)" for b using that assms(6,7) by (cases "b = a") auto
      then show ?thesis using False assms(2) unfolding lay_map_def by auto
    qed
  qed
qed

text \<open>Dividing the map of one leaf between it and a new one.\<close>

lemma lay_split:
  assumes "lay_ok (X @ L a # Y) f" "lay_map (X @ L a # Y) f m" "b \<notin> set (lvs (X @ L a # Y))" "0 \<notin> set sk"
    "\<forall>x\<in>set (seps X). x < sk" "\<forall>y\<in>set (seps Y). sk < y"
    "\<And>k v. f a k = Some v \<longleftrightarrow> g a k = Some v \<or> g b k = Some v"
    "\<And>k. k \<in> dom (g a) \<Longrightarrow> k \<le> sk" "\<And>k. k \<in> dom (g b) \<Longrightarrow> sk < k"
    "\<And>c. c \<in> set (lvs (X @ L a # Y)) \<Longrightarrow> c \<noteq> a \<Longrightarrow> g c = f c"
  shows "lay_ok (X @ L a # K sk # L b # Y) g" "lay_map (X @ L a # K sk # L b # Y) g m"
proof -
  let ?new = "X @ L a # K sk # L b # Y"
  note D = lay_okD [OF assms(1)]
  have dom: "k \<in> dom (f a)" if "k \<in> dom (g a) \<or> k \<in> dom (g b)" for k using that assms(7) by (auto simp: dom_def)
  have "(\<forall>x\<in>set (seps X'). x < j) \<and> (\<forall>y\<in>set (seps Y'). j \<le> y)"
    if it: "?new = X' @ L c # Y'" and j: "j \<in> dom (g c)" for X' c Y' j
  proof -
    have nd: "distinct (lvs ?new)" using D(4) assms(3) by auto
    consider (a) "c = a" | (b) "c = b" | (x) "L c \<in> set X" "c \<noteq> a" "c \<noteq> b" | (y) "L c \<in> set Y" "c \<noteq> a" "c \<noteq> b"
    proof -
      have "L c \<in> set ?new" using it by simp
      then show ?thesis using that by auto
    qed
    then show ?thesis
    proof cases
      case a
      with it nd decomp_unique [of X a "K sk # L b # Y" X' Y'] have eq: "X' = X" "Y' = K sk # L b # Y" by auto
      have "j \<le> sk" using assms(8) j a by auto
      with assms(6) have "\<forall>y\<in>set (seps Y). j \<le> y" by auto
      with \<open>j \<le> sk\<close> show ?thesis using D(5) [OF refl] dom j a eq by auto
    next
      case b
      with it nd decomp_unique [of "X @ [L a, K sk]" b Y X' Y'] have eq: "X' = X @ [L a, K sk]" "Y' = Y" by auto
      show ?thesis using D(5,6) [OF refl] dom [of j] j b eq assms(9) by auto
    next
      case x
      then obtain X1 X2 where X: "X = X1 @ L c # X2" by (auto simp: in_set_conv_decomp)
      with it nd decomp_unique [of X1 c "X2 @ L a # K sk # L b # Y" X' Y']
      have eq: "X' = X1" "Y' = X2 @ L a # K sk # L b # Y" by auto
      have gc: "g c = f c" using assms(10) [of c] x X by simp
      have it0: "X @ L a # Y = X1 @ L c # X2 @ L a # Y" by (simp add: X)
      obtain z where z: "z \<in> set (seps X2)" using apart_sep [of X1 c X2 a Y] D(1) it0 by (metis list.set_sel(1))
      have "j \<le> z" "z < sk" using D(6) [OF it0, of j z] z j gc assms(5) X by auto
      then show ?thesis using D(5,6) [OF it0, of j] j gc eq by auto
    next
      case y
      then obtain Y1 Y2 where Y: "Y = Y1 @ L c # Y2" by (auto simp: in_set_conv_decomp)
      with it nd decomp_unique [of "X @ L a # K sk # L b # Y1" c Y2 X' Y']
      have eq: "X' = X @ L a # K sk # L b # Y1" "Y' = Y2" by auto
      have gc: "g c = f c" using assms(10) [of c] y Y by simp
      have it0: "X @ L a # Y = (X @ L a # Y1) @ L c # Y2" by (simp add: Y)
      obtain z where z: "z \<in> set (seps Y1)" using apart_sep [of X a Y1 c Y2] D(1) Y by (metis list.set_sel(1))
      have "z < j" "sk < z" using D(5) [OF it0, of j z] z j gc assms(6) Y by auto
      then show ?thesis using D(5,6) [OF it0, of j] j gc eq by auto
    qed
  qed
  moreover have "apart ?new"
    using apart_append_K_L [OF apart_prefix apart_suffix] D(1) by blast
  moreover have "sorted_wrt (<) (seps ?new)"
    using D(2) assms(5,6) by (auto simp: sorted_wrt_append)
  moreover have "distinct (lvs ?new)" using D(4) assms(3) by auto
  moreover have "\<forall>k\<in>set (seps ?new). 0 \<notin> set k" using D(3) assms(4) by auto
  ultimately show "lay_ok ?new g" unfolding lay_ok_def by blast
  show "lay_map ?new g m"
    unfolding lay_map_def
  proof (intro allI)
    fix k v
    have gc: "g c k = f c k" if "c \<in> set (lvs X) \<union> set (lvs Y)" for c
      using assms(10) [of c] D(4) that by (cases "c = a") auto
    have "m k = Some v \<longleftrightarrow> (\<exists>c\<in>set (lvs (X @ L a # Y)). f c k = Some v)" using assms(2) unfolding lay_map_def by blast
    also have "\<dots> \<longleftrightarrow> (\<exists>c\<in>set (lvs X) \<union> set (lvs Y). f c k = Some v) \<or> f a k = Some v" by auto
    also have "\<dots> \<longleftrightarrow> (\<exists>c\<in>set (lvs X) \<union> set (lvs Y). g c k = Some v) \<or> g a k = Some v \<or> g b k = Some v"
      using assms(7) [of k v] gc by auto
    also have "\<dots> \<longleftrightarrow> (\<exists>c\<in>set (lvs ?new). g c k = Some v)" by auto
    finally show "m k = Some v \<longleftrightarrow> (\<exists>c\<in>set (lvs ?new). g c k = Some v)" .
  qed
qed

end
