(* ===== verification/Scree_DB.thy ===== *)
theory Scree_DB
  imports Scree_Leaf Scree_Layout
begin

text \<open>
  The invariant of a \<open>ScreeDBTree\<close> and what its key/value operations do to the map it
  represents.  \<open>db_inv s ls items m\<close>: the persistent leaves from the head are \<open>ls\<close>, all well formed;
  the volatile tree has the sequence \<open>items\<close>; every volatile leaf shadows its own persistent leaf and
  the persistent leaves outside the tree are empty; and the leaves represent the map \<open>m\<close>.
\<close>

section \<open>The invariant\<close>

fun chain :: "(nat \<Rightarrow> ScreeDBLeaf option) \<Rightarrow> nat option \<Rightarrow> nat list \<Rightarrow> bool" where
  "chain P p [] \<longleftrightarrow> p = None"
| "chain P p (q # ls) \<longleftrightarrow> p = Some q \<and> (\<exists>lf. P q = Some lf \<and> chain P (next_leaf lf) ls)"

definition ptr :: "ScreeDBTree \<Rightarrow> nat \<Rightarrow> nat option" where
  "ptr s a = Option.bind (leafnode_at (vheap s) a) leaf"

definition tmap :: "ScreeDBTree \<Rightarrow> nat \<Rightarrow> bytes \<Rightarrow> bytes option" where
  "tmap s a = (case leaf_at (pheap s) (ptr s a) of Some lf \<Rightarrow> leaf_map lf | None \<Rightarrow> Map.empty)"

definition attached :: "ScreeDBTree \<Rightarrow> nat list \<Rightarrow> nat \<Rightarrow> bool" where
  "attached s ls a \<longleftrightarrow> (\<exists>ln p lf. leafnode_at (vheap s) a = Some ln \<and> leaf ln = Some p \<and> p \<in> set ls \<and>
     pheap s p = Some lf \<and> shadows ln lf)"

definition vtree :: "ScreeDBTree \<Rightarrow> item list \<Rightarrow> bool" where
  "vtree s items \<longleftrightarrow> (case top_node s of None \<Rightarrow> items = [] | Some _ \<Rightarrow> \<exists>t. tree_ok s t \<and> flat t = items)"

definition leaves_ok :: "ScreeDBTree \<Rightarrow> nat list \<Rightarrow> bool" where
  "leaves_ok s ls \<longleftrightarrow> chain (pheap s) (head (proot s)) ls \<and>
     (\<forall>p\<in>set ls. p < pnext s \<and> (\<exists>lf. pheap s p = Some lf \<and> leaf_ok lf))"

definition db_inv :: "ScreeDBTree \<Rightarrow> nat list \<Rightarrow> item list \<Rightarrow> (bytes \<Rightarrow> bytes option) \<Rightarrow> bool" where
  "db_inv s ls items m \<longleftrightarrow> leaves_ok s ls \<and> vtree s items \<and>
     (\<forall>a\<in>set (lvs items). attached s ls a) \<and> inj_on (ptr s) (set (lvs items)) \<and>
     (\<forall>p\<in>set ls. Some p \<notin> ptr s ` set (lvs items) \<longrightarrow> leaf_map (the (pheap s p)) = Map.empty) \<and>
     lay_ok items (tmap s) \<and> lay_map items (tmap s) m"

definition dbR :: "ScreeDBTree \<Rightarrow> (bytes \<Rightarrow> bytes option) \<Rightarrow> bool" where
  "dbR s m \<longleftrightarrow> (\<exists>ls items. db_inv s ls items m)"

lemma db_invD:
  assumes "db_inv s ls items m"
  shows "leaves_ok s ls" "vtree s items" "a \<in> set (lvs items) \<Longrightarrow> attached s ls a"
    "inj_on (ptr s) (set (lvs items))"
    "p \<in> set ls \<Longrightarrow> Some p \<notin> ptr s ` set (lvs items) \<Longrightarrow> leaf_map (the (pheap s p)) = Map.empty"
    "lay_ok items (tmap s)" "lay_map items (tmap s) m"
  using assms unfolding db_inv_def by blast+

lemma attachedE:
  assumes "attached s ls a"
  obtains ln p lf where "leafnode_at (vheap s) a = Some ln" "leaf ln = Some p" "p \<in> set ls"
    "pheap s p = Some lf" "shadows ln lf" "ptr s a = Some p" "tmap s a = leaf_map lf"
  using assms by (auto simp: attached_def ptr_def tmap_def leaf_at_def)

section \<open>The leaf of a key\<close>

lemma LeafSearch_ok:
  assumes "db_inv s ls items m" "key_ok key"
  shows "(top_node s = None \<and> items = [] \<and> m = Map.empty \<and> LeafSearch key s = Some None) \<or>
    (\<exists>a X Y. top_node s \<noteq> None \<and> LeafSearch key s = Some (Some a) \<and> items = X @ L a # Y \<and>
       (\<forall>x\<in>set (seps X). x < ktext key) \<and> (\<forall>y\<in>set (seps Y). ktext key \<le> y) \<and> m (ktext key) = tmap s a (ktext key))"
proof (cases "top_node s")
  case None
  then have "items = []" using db_invD(2) [OF assms(1)] by (simp add: vtree_def)
  moreover from this have "m = Map.empty" using db_invD(7) [OF assms(1)] by (auto simp: lay_map_def fun_eq_iff)
  ultimately show ?thesis using None by (simp add: LeafSearch_def)
next
  case (Some r)
  then obtain t where t: "tree_ok s t" "flat t = items" using db_invD(2) [OF assms(1)] by (auto simp: vtree_def)
  note D = lay_okD [OF db_invD(6) [OF assms(1)]]
  have "sorted (seps items)" using D(2) by (simp add: sorted_wrt_mono_rel [of _ "(<)" "(\<le>)"] less_imp_le)
  then obtain a X Y where a: "search_loop (data_ptr key) (vheap s) (Some (gaddr t)) = Some a" "items = X @ L a # Y"
    "\<forall>x\<in>set (seps X). x < ktext key" "\<forall>y\<in>set (seps Y). ktext key \<le> y"
    using search_ok [of "vheap s" None t "data_ptr key"] t D(3) assms(2) by (auto simp: tree_ok_def key_ok_def)
  moreover have "LeafSearch key s = Some (Some a)" using a(1) t(1) by (simp add: LeafSearch_def tree_ok_def)
  moreover have "m (ktext key) = tmap s a (ktext key)"
    by (rule lay_find [OF db_invD(6,7) [OF assms(1)] a(2-4)])
  ultimately show ?thesis using Some by blast
qed

section \<open>Changing one leaf\<close>

lemma rep_upd_leaf:
  assumes "leafnode_at h a = Some ln" "same_node ln ln'"
  shows "rep (h(a \<mapsto> VLeaf ln')) p t = rep h p t"
proof (induction t arbitrary: p)
  case (GLeaf b)
  then show ?case using assms
    by (auto simp: leafnode_at_def same_node_def split: option.splits vnode.splits)
next
  case (GInner b ks ts)
  have "node_rep (h(a \<mapsto> VLeaf ln')) p b ks (map gaddr ts) = node_rep h p b ks (map gaddr ts)"
    using assms by (auto simp: node_rep_def leafnode_at_def split: option.splits vnode.splits)
  then show ?case using GInner unfolding rep.simps by blast
qed

lemma chain_upd:
  "P p = Some lf \<Longrightarrow> next_leaf lf' = next_leaf lf \<Longrightarrow> chain (P(p \<mapsto> lf')) q ls = chain P q ls"
  by (induction ls arbitrary: q) auto

lemma chain_fresh: "p \<notin> set ls \<Longrightarrow> chain (P(p \<mapsto> lf)) q ls = chain P q ls"
  by (induction ls arbitrary: q) auto

text \<open>What the operations do to a state when they rewrite the leaf node at \<open>a\<close> and its leaf.\<close>

definition write_leaf :: "nat \<Rightarrow> ScreeDBLeafNode \<Rightarrow> nat \<Rightarrow> ScreeDBLeaf \<Rightarrow> nat \<Rightarrow> ScreeDBTree \<Rightarrow> ScreeDBTree" where
  "write_leaf a ln p lf n s = s\<lparr>vheap := (vheap s)(a \<mapsto> VLeaf ln), pheap := (pheap s)(p \<mapsto> lf), allocs := n\<rparr>"

lemma ptr_write_leaf:
  "leafnode_at (vheap s) a = Some ln \<Longrightarrow> same_node ln ln' \<Longrightarrow> ptr (write_leaf a ln' p lf' n s) = ptr s"
  by (auto simp: fun_eq_iff ptr_def write_leaf_def leafnode_at_def same_node_def split: option.splits vnode.splits)

lemma leaf_update_ok:
  assumes "db_inv s ls items m" "items = X @ L a # Y" "\<forall>x\<in>set (seps X). x < k" "\<forall>y\<in>set (seps Y). k \<le> y"
    "leafnode_at (vheap s) a = Some ln" "leaf ln = Some p" "pheap s p = Some lf"
    "same_node ln ln'" "shadows ln' lf'" "next_leaf lf' = next_leaf lf" "leaf_map lf' = (leaf_map lf)(k := vo)"
  shows "db_inv (write_leaf a ln' p lf' n s) ls items (m(k := vo))"
proof -
  let ?s = "write_leaf a ln' p lf' n s"
  note D = db_invD [OF assms(1)]
  have pt: "ptr ?s = ptr s" by (rule ptr_write_leaf [OF assms(5,8)])
  have a: "a \<in> set (lvs items)" by (simp add: assms(2))
  have pa: "ptr s a = Some p" by (simp add: ptr_def assms(5,6))
  have pls: "p \<in> set ls" using D(3) [OF a] assms(5,6) by (auto simp: attached_def)
  have other: "ptr s b \<noteq> Some p" if "b \<in> set (lvs items)" "b \<noteq> a" for b
    using inj_onD [OF D(4), of a b] a pa that by auto
  have "leaves_ok ?s ls"
    using D(1) assms(7,9,10) pls by (auto simp: leaves_ok_def write_leaf_def chain_upd shadows_def)
  moreover have "vtree ?s items"
    using D(2) rep_upd_leaf [OF assms(5,8)] by (auto simp: vtree_def write_leaf_def tree_ok_def split: option.splits)
  moreover have "attached ?s ls b" if b: "b \<in> set (lvs items)" for b
  proof (cases "b = a")
    case True
    then show ?thesis using assms(6,8,9) pls
      by (auto simp: attached_def write_leaf_def leafnode_at_def same_node_def)
  next
    case False
    from D(3) [OF b] obtain ln1 p1 lf1 where "leafnode_at (vheap s) b = Some ln1" "leaf ln1 = Some p1" "p1 \<in> set ls"
      "pheap s p1 = Some lf1" "shadows ln1 lf1" "ptr s b = Some p1" by (rule attachedE)
    then show ?thesis using other [OF b False] False
      by (auto simp: attached_def write_leaf_def leafnode_at_def)
  qed
  moreover have "leaf_map (the (pheap ?s q)) = Map.empty" if "q \<in> set ls" "Some q \<notin> ptr s ` set (lvs items)" for q
    using D(5) [OF that] that(2) a pa by (auto simp: write_leaf_def) (metis image_eqI)
  moreover have ta: "tmap ?s a = (tmap s a)(k := vo)"
    unfolding tmap_def pt using pa assms(7,11) by (simp add: leaf_at_def write_leaf_def)
  moreover have tb: "tmap ?s b = tmap s b" if "b \<in> set (lvs items)" "b \<noteq> a" for b
    unfolding tmap_def pt using other [OF that] by (cases "ptr s b") (auto simp: leaf_at_def write_leaf_def)
  moreover have "lay_ok items (tmap ?s)" "lay_map items (tmap ?s) (m(k := vo))"
    using lay_update [OF D(6,7) assms(2-4) ta tb] by auto
  ultimately show ?thesis using D(4) unfolding db_inv_def pt by blast
qed

section \<open>Get and Delete\<close>

lemma find_slot_full:
  assumes "shadows ln lf" "key_ok key"
  obtains (absent) "find_slot ln lf (key_hash (ktext key)) (data_ptr key) NODE_KEYS = Some None"
      "leaf_map lf (ktext key) = None"
    | (present) i where "find_slot ln lf (key_hash (ktext key)) (data_ptr key) NODE_KEYS = Some (Some i)"
      "live lf i" "key_at lf i = ktext key" "leaf_map lf (ktext key) = Some (val_at lf i)"
proof -
  have lf: "leaf_ok lf" "hashes ln = phashes lf" using assms(1) by (simp_all add: shadows_def)
  obtain r where r: "find_slot ln lf (key_hash (ktext key)) (data_ptr key) NODE_KEYS = Some r"
    "case r of None \<Rightarrow> \<forall>i<NODE_KEYS. live lf i \<longrightarrow> key_at lf i \<noteq> ktext key | Some i \<Rightarrow> live lf i \<and> key_at lf i = ktext key"
    using find_slot_ok [OF lf assms(2) order_refl] by blast
  show ?thesis
  proof (cases r)
    case None
    with r have "leaf_map lf (ktext key) = None" by (auto simp: leaf_map_None live_def)
    with None r(1) show ?thesis by (intro absent) simp_all
  next
    case (Some i)
    with r have "leaf_map lf (ktext key) = Some (val_at lf i)" using leaf_map_Some [OF lf(1)] by auto
    with Some r show ?thesis by (intro present) simp_all
  qed
qed

lemma Get_ok:
  assumes "dbR s m" "key_ok key"
  shows "Get key value s = Some (case m (ktext key) of None \<Rightarrow> (NotFound, value) | Some v \<Rightarrow> (Status_OK, value @ v))"
proof -
  from assms(1) obtain ls items where inv: "db_inv s ls items m" by (auto simp: dbR_def)
  from LeafSearch_ok [OF inv assms(2)] show ?thesis
  proof (elim disjE exE conjE)
    assume "LeafSearch key s = Some None" "m = Map.empty"
    then show ?thesis by (simp add: Get_def)
  next
    fix a X Y
    assume a: "LeafSearch key s = Some (Some a)" "items = X @ L a # Y" "m (ktext key) = tmap s a (ktext key)"
    then have "attached s ls a" using db_invD(3) [OF inv] by simp
    then obtain ln p lf where l: "leafnode_at (vheap s) a = Some ln" "leaf ln = Some p" "p \<in> set ls"
      "pheap s p = Some lf" "shadows ln lf" "ptr s a = Some p" "tmap s a = leaf_map lf" by (rule attachedE)
    from l(5) assms(2) show ?thesis
    proof (cases rule: find_slot_full)
      case absent
      then show ?thesis using a l by (simp add: Get_def key_ok_hash [OF assms(2)] leaf_at_def)
    next
      case (present i)
      have i: "i < NODE_KEYS" using present(2) by (rule live_less)
      have lf: "leaf_ok lf" using l(5) by (simp add: shadows_def)
      show ?thesis using a l present i leaf_okD(3,5) [OF lf]
        by (simp add: Get_def key_ok_hash [OF assms(2)] leaf_at_def val_at_def content_def)
    qed
  qed
qed

lemma Delete_ok:
  assumes "dbR s m" "key_ok key"
  shows "\<exists>s'. Delete key s = Some (Status_OK, s') \<and> dbR s' (m(ktext key := None))"
proof -
  from assms(1) obtain ls items where inv: "db_inv s ls items m" by (auto simp: dbR_def)
  from LeafSearch_ok [OF inv assms(2)] show ?thesis
  proof (elim disjE exE conjE)
    assume "LeafSearch key s = Some None" "m = Map.empty"
    then show ?thesis using assms(1) by (simp add: Delete_def fun_upd_idem)
  next
    fix a X Y
    assume a: "LeafSearch key s = Some (Some a)" "items = X @ L a # Y" "\<forall>x\<in>set (seps X). x < ktext key"
      "\<forall>y\<in>set (seps Y). ktext key \<le> y" "m (ktext key) = tmap s a (ktext key)"
    then have "attached s ls a" using db_invD(3) [OF inv] by simp
    then obtain ln p lf where l: "leafnode_at (vheap s) a = Some ln" "leaf ln = Some p" "p \<in> set ls"
      "pheap s p = Some lf" "shadows ln lf" "ptr s a = Some p" "tmap s a = leaf_map lf" by (rule attachedE)
    from l(5) assms(2) show ?thesis
    proof (cases rule: find_slot_full)
      case absent
      then have "m(ktext key := None) = m" using a l by (simp add: fun_upd_idem)
      then show ?thesis using absent a l assms(1) by (simp add: Delete_def key_ok_hash [OF assms(2)])
    next
      case (present i)
      let ?ln = "ln\<lparr>hashes := (hashes ln)[i := 0]\<rparr>" and ?lf = "lf\<lparr>phashes := (phashes lf)[i := 0]\<rparr>"
      have lf: "leaf_ok lf" "hashes ln = phashes lf" using l(5) by (simp_all add: shadows_def)
      note c = slot_clear [OF lf(1) present(2)]
      have "shadows ?ln ?lf" using c(1) lf(2) by (simp add: shadows_def)
      moreover have "same_node ln ?ln" by (simp add: same_node_def)
      ultimately have "db_inv (write_leaf a ?ln p ?lf (allocs s) s) ls items (m(ktext key := None))"
        using leaf_update_ok [OF inv a(2-4) l(1,2,4)] c(2) present(3) by simp
      moreover have "Delete key s = Some (Status_OK, write_leaf a ?ln p ?lf (allocs s) s)"
        using a l present by (simp add: Delete_def key_ok_hash [OF assms(2)] exec_tx_def write_leaf_def)
      ultimately show ?thesis by (auto simp: dbR_def)
    qed
  qed
qed

end
