(* ===== verification/Scree_Put.thy ===== *)
theory Scree_Put
  imports Scree_DB
begin

text \<open>
  \<open>Put\<close> sets the map at the key, whatever path it takes: the first leaf of an empty tree, a slot of
  the key's leaf, or a split of that leaf.  When an allocation throws, the persistent data are what
  they were.
\<close>

lemma item_weave: "x \<in> set (weave xs ks) \<Longrightarrow> (\<exists>y\<in>set xs. x \<in> set y) \<or> (\<exists>k. x = K k)"
  by (induction xs ks rule: weave.induct) auto

lemma flat_gaddrs: "L a \<in> set (flat t) \<Longrightarrow> a \<in> set (gaddrs t)"
  by (induction t) (fastforce dest: item_weave)+

lemma vtree_less: "vtree s items \<Longrightarrow> a \<in> set (lvs items) \<Longrightarrow> a < vnext s"
  by (auto simp: vtree_def set_lvs tree_ok_def split: option.splits dest!: flat_gaddrs)

lemma shadows_new: "shadows (new_ScreeDBLeafNode\<lparr>is_leaf := x, parent := y, leaf := z\<rparr>) (new_ScreeDBLeaf\<lparr>next_leaf := w\<rparr>)"
  by (simp add: shadows_def) (simp add: new_ScreeDBLeafNode_def new_ScreeDBLeaf_def)

section \<open>The first leaf\<close>

lemma add_head_leaf_ok:
  assumes "db_inv s ls [] m" "m = Map.empty" "key_ok key" "val_ok value" "\<forall>i. alloc i"
  shows "\<exists>s'. add_head_leaf alloc (key_hash (ktext key)) key value s = Some (True, s') \<and> dbR s' (m(ktext key \<mapsto> ktext value))"
proof -
  note D = db_invD [OF assms(1)]
  let ?b = "vnext s" and ?q = "pnext s"
  let ?nln = "new_ScreeDBLeafNode\<lparr>is_leaf := True, leaf := Some ?q\<rparr>"
  let ?nlf = "new_ScreeDBLeaf\<lparr>next_leaf := head (proot s)\<rparr>"
  have sh: "shadows ?nln ?nlf"
    using shadows_new [where x = True and y = None and z = "Some ?q"] by (simp add: new_ScreeDBLeafNode_def)
  obtain nln nlf n where f: "LeafFillSpecificSlot alloc (key_hash (ktext key)) key value 0 (?nln, ?nlf, Suc (allocs s)) = Some (True, nln, nlf, n)"
    "shadows nln nlf" "same_node ?nln nln" "next_leaf nlf = next_leaf ?nlf" "leaf_map nlf = (leaf_map ?nlf)(ktext key \<mapsto> ktext value)"
    using LeafFillSpecificSlot_ok [OF sh assms(3-5), of 0 "Suc (allocs s)"] by (auto simp: NODE_KEYS_def)
  define s' where "s' = s\<lparr>vheap := (vheap s)(?b \<mapsto> VLeaf nln), vnext := Suc ?b, pheap := (pheap s)(?q \<mapsto> nlf), pnext := Suc ?q,
    allocs := n, proot := (proot s)\<lparr>head := Some ?q\<rparr>, top_node := Some ?b\<rparr>"
  have ev: "add_head_leaf alloc (key_hash (ktext key)) key value s = Some (True, s')"
    using f(1) assms(5) by (simp add: add_head_leaf_def exec_tx_def s'_def Let_def)
  have q: "?q \<notin> set ls" using D(1) by (auto simp: leaves_ok_def)
  have node: "leafnode_at (vheap s') ?b = Some nln" "leaf nln = Some ?q" "is_leaf nln" "parent nln = None"
    using f(3) by (simp_all add: s'_def leafnode_at_def same_node_def new_ScreeDBLeafNode_def)
  have "leaves_ok s' (?q # ls)"
    using D(1) q f(2,4) by (auto simp: leaves_ok_def s'_def shadows_def less_Suc_eq chain_fresh)
  moreover have "tree_ok s' (GLeaf ?b)" using node by (auto simp: tree_ok_def s'_def)
  then have "vtree s' [L ?b]" by (force simp: vtree_def s'_def)
  moreover have "attached s' (?q # ls) ?b" using node f(2) by (auto simp: attached_def s'_def)
  moreover have "ptr s' ?b = Some ?q" using node by (simp add: ptr_def)
  moreover have "leaf_map (the (pheap s' p)) = Map.empty" if "p \<in> set ls" for p
    using D(5) [OF that] that q by (auto simp: s'_def)
  moreover have "tmap s' ?b = [ktext key \<mapsto> ktext value]"
    using f(5) \<open>ptr s' ?b = Some ?q\<close> by (simp add: tmap_def leaf_at_def s'_def)
  ultimately have "db_inv s' (?q # ls) [L ?b] (m(ktext key \<mapsto> ktext value))"
    using assms(2) by (auto simp: db_inv_def lay_ok_def lay_map_def Cons_eq_append_conv)
  with ev show ?thesis by (auto simp: dbR_def)
qed

section \<open>A slot of the key's leaf\<close>

lemma LeafFillSlotForKey_ok:
  assumes "db_inv s ls items m" "items = X @ L a # Y" "\<forall>x\<in>set (seps X). x < ktext key" "\<forall>y\<in>set (seps Y). ktext key \<le> y"
    "leafnode_at (vheap s) a = Some ln" "leaf ln = Some p" "pheap s p = Some lf" "shadows ln lf"
    "key_ok key" "val_ok value" "\<forall>i. alloc i"
  shows "(\<exists>s'. LeafFillSlotForKey alloc a (key_hash (ktext key)) key value s = Some (Some True, s') \<and>
      dbR s' (m(ktext key \<mapsto> ktext value))) \<or>
    (LeafFillSlotForKey alloc a (key_hash (ktext key)) key value s = Some (Some False, s) \<and>
      (\<forall>i<NODE_KEYS. live lf i) \<and> leaf_map lf (ktext key) = None)"
proof -
  have lf: "leaf_ok lf" "hashes ln = phashes lf" using assms(8) by (simp_all add: shadows_def)
  obtain r e where r: "fill_scan ln lf (key_hash (ktext key)) (data_ptr key) NODE_KEYS None = Some (r, e)"
    "\<forall>j. e = Some j \<longrightarrow> j < NODE_KEYS \<and> phashes lf ! j = 0"
    "case r of None \<Rightarrow> (\<forall>i<NODE_KEYS. live lf i \<longrightarrow> key_at lf i \<noteq> ktext key) \<and> (e = None \<longrightarrow> (\<forall>i<NODE_KEYS. live lf i))
      | Some i \<Rightarrow> live lf i \<and> key_at lf i = ktext key"
    using fill_scan_ok [OF lf assms(9) order_refl, of None] by (auto split: option.splits)
  show ?thesis
  proof (cases "if r \<noteq> None then r else e")
    case None
    then have "r = None" "e = None" by (auto split: if_splits)
    with r have "\<forall>i<NODE_KEYS. live lf i" "leaf_map lf (ktext key) = None" by (auto simp: leaf_map_None live_def)
    moreover have "LeafFillSlotForKey alloc a (key_hash (ktext key)) key value s = Some (Some False, s)"
      using r(1) \<open>r = None\<close> \<open>e = None\<close> assms(5-7) by (simp add: LeafFillSlotForKey_def)
    ultimately show ?thesis by blast
  next
    case (Some i)
    have i: "i < NODE_KEYS" "live lf i \<and> key_at lf i = ktext key \<or> \<not> live lf i \<and> leaf_map lf (ktext key) = None"
      using Some r(2,3) by (auto simp: live_def leaf_map_None split: if_splits)
    obtain ln' lf' n where f: "LeafFillSpecificSlot alloc (key_hash (ktext key)) key value i (ln, lf, allocs s) = Some (True, ln', lf', n)"
      "shadows ln' lf'" "same_node ln ln'" "next_leaf lf' = next_leaf lf" "leaf_map lf' = (leaf_map lf)(ktext key \<mapsto> ktext value)"
      using LeafFillSpecificSlot_ok [OF assms(8-11) i, of "allocs s"] by blast
    have "LeafFillSlotForKey alloc a (key_hash (ktext key)) key value s = Some (Some True, write_leaf a ln' p lf' n s)"
      using r(1) Some f(1) assms(5-7) by (auto simp: LeafFillSlotForKey_def exec_tx_def write_leaf_def split: if_splits)
    moreover have "db_inv (write_leaf a ln' p lf' n s) ls items (m(ktext key \<mapsto> ktext value))"
      by (rule leaf_update_ok [OF assms(1-7) f(3,2,4,5)])
    ultimately show ?thesis by (auto simp: dbR_def)
  qed
qed

section \<open>Choosing the split key\<close>

lemma those_nth: "those (map (nth_opt xs) [0..<length xs]) = Some xs"
proof -
  have "map (nth_opt xs) [0..<length xs] = map Some xs" by (rule nth_equalityI) auto
  moreover have "those (map Some xs) = Some xs" by (induction xs) auto
  ultimately show ?thesis by simp
qed

lemma middle_of_sorted:
  fixes xs :: "'a::linorder list"
  assumes "distinct xs" "i < j" "j < length xs"
  shows "sort xs ! i \<in> set xs" "\<exists>y\<in>set xs. sort xs ! i < y"
proof -
  show "sort xs ! i \<in> set xs" using assms nth_mem [of i "sort xs"] by simp
  have "sorted_wrt (<) (sort xs)" using assms(1) by (simp add: strict_sorted_iff)
  then have "sort xs ! i < sort xs ! j" using assms by (simp add: sorted_wrt_iff_nth_less)
  moreover have "sort xs ! j \<in> set xs" using assms nth_mem [of j "sort xs"] by simp
  ultimately show "\<exists>y\<in>set xs. sort xs ! i < y" by blast
qed

lemma choose_split_key_ok:
  assumes "leaf_ok lf" "\<forall>i<NODE_KEYS. live lf i" "leaf_map lf (ktext key) = None" "key_ok key"
  obtains sk where "choose_split_key lf key = Some sk" "0 \<notin> set sk" "sk \<in> insert (ktext key) (dom (leaf_map lf))"
    "\<exists>k\<in>insert (ktext key) (dom (leaf_map lf)). sk < k"
proof -
  note ok = leaf_okD [OF assms(1)]
  let ?ptrs = "map data (kv_keys lf) @ [data_ptr key]"
  have c: "map cstr ?ptrs = map (key_at lf) [0..<NODE_KEYS] @ [ktext key]"
    using ok(2) by (auto simp: key_at_def content_def intro!: nth_equalityI)
  have inj: "inj_on (key_at lf) {0..<NODE_KEYS}" using ok(8) assms(2) by (auto intro!: inj_onI)
  have keys: "dom (leaf_map lf) = key_at lf ` {0..<NODE_KEYS}"
    using leaf_map_Some [OF assms(1)] assms(2) live_less by (auto simp: dom_def)
  have dis: "distinct (map cstr ?ptrs)"
    unfolding c using inj assms(3) keys by (auto simp: distinct_map domIff)
  have len: "length (map cstr ?ptrs) = 49" using ok(2) by (simp add: NODE_KEYS_def)
  have st: "set (map cstr ?ptrs) = insert (ktext key) (dom (leaf_map lf))" unfolding c keys by auto
  let ?sk = "sort (map cstr ?ptrs) ! NODE_KEYS_MIDPOINT"
  have m: "?sk \<in> set (map cstr ?ptrs)" "\<exists>y\<in>set (map cstr ?ptrs). ?sk < y"
    using middle_of_sorted [OF dis, of NODE_KEYS_MIDPOINT 48] len by (simp_all add: NODE_KEYS_MIDPOINT_def)
  have "list_all terminated ?ptrs"
    using assms(1,4) by (auto simp: list_all_iff key_ok_def leaf_ok_def)
  then have "choose_split_key lf key = Some ?sk"
    using those_nth [of "kv_keys lf"] ok(2) len
    by (simp add: choose_split_key_def NODE_KEYS_MIDPOINT_def del: map_append)
  moreover have "0 \<notin> set ?sk" using m(1) by (auto simp del: map_append) 
  ultimately show ?thesis using that m unfolding st by blast
qed

section \<open>Splitting the key's leaf\<close>

text \<open>What the transaction of \<open>LeafSplit\<close> leaves in the two leaves.\<close>

definition split_result :: "bytes \<Rightarrow> (bytes \<Rightarrow> bytes option) \<Rightarrow> ScreeDBLeaf \<Rightarrow> ScreeDBLeaf \<Rightarrow> bool" where
  "split_result sk h lf nlf \<longleftrightarrow> (\<forall>k v. h k = Some v \<longleftrightarrow> leaf_map lf k = Some v \<or> leaf_map nlf k = Some v) \<and>
     (\<forall>k\<in>dom (leaf_map lf). k \<le> sk) \<and> (\<forall>k\<in>dom (leaf_map nlf). sk < k)"

lemma split_and_fill:
  assumes "shadows ln lf" "shadows nln nlf" "leaf_map nlf = Map.empty" "\<forall>i<NODE_KEYS. live lf i" "\<forall>i<NODE_KEYS. \<not> live nlf i"
    "leaf_map lf (ktext key) = None" "key_ok key" "val_ok value" "\<forall>i. alloc i" "0 \<notin> set sk"
    "sk \<in> insert (ktext key) (dom (leaf_map lf))" "\<exists>k\<in>insert (ktext key) (dom (leaf_map lf)). sk < k"
  obtains ln1 lf1 nln1 nlf1 c1 where "split_loop alloc sk NODE_KEYS (ln, lf, nln, nlf, c) = Some (True, ln1, lf1, nln1, nlf1, c1)"
    "same_node ln ln1" "same_node nln nln1" "next_leaf lf1 = next_leaf lf" "next_leaf nlf1 = next_leaf nlf"
    "shadows ln1 lf1" "shadows nln1 nlf1"
    "sk < ktext key \<longrightarrow> (\<exists>ln2 lf2 c2. LeafFillFirstEmptySlot alloc (key_hash (ktext key)) key value (nln1, nlf1, c1) = Some (True, ln2, lf2, c2) \<and>
       shadows ln2 lf2 \<and> same_node nln1 ln2 \<and> next_leaf lf2 = next_leaf nlf1 \<and>
       split_result sk ((leaf_map lf)(ktext key \<mapsto> ktext value)) lf1 lf2)"
    "\<not> sk < ktext key \<longrightarrow> (\<exists>ln2 lf2 c2. LeafFillFirstEmptySlot alloc (key_hash (ktext key)) key value (ln1, lf1, c1) = Some (True, ln2, lf2, c2) \<and>
       shadows ln2 lf2 \<and> same_node ln1 ln2 \<and> next_leaf lf2 = next_leaf lf1 \<and>
       split_result sk ((leaf_map lf)(ktext key \<mapsto> ktext value)) lf2 nlf1)"
proof -
  have lf: "leaf_ok lf" using assms(1) by (simp add: shadows_def)
  obtain ln1 lf1 nln1 nlf1 c1 where l: "split_loop alloc sk NODE_KEYS (ln, lf, nln, nlf, c) = Some (True, ln1, lf1, nln1, nlf1, c1)"
    and rel: "split_rel sk {..<NODE_KEYS} (ln, lf, nln, nlf, c) (ln1, lf1, nln1, nlf1, c1)"
    using split_loop_ok [OF assms(1,2,9,4,5) _ assms(10) order_refl, of c] assms(3) by (metis prod_cases5 dom_empty inf_bot_right)
  note r = split_relD [OF rel]
  have slot: "\<exists>i<NODE_KEYS. key_at lf i = k" if "k \<in> dom (leaf_map lf)" for k
    using that leaf_map_Some [OF lf, of k] live_less by blast
  have mv: "k \<in> moved_keys sk {..<NODE_KEYS} lf \<longleftrightarrow> sk < k" if "k \<in> dom (leaf_map lf)" for k
    using slot [OF that] by (auto simp: moved_keys_def)
  have m1: "leaf_map lf1 k = (if sk < k then None else leaf_map lf k)" for k
    unfolding r(10) using mv [of k] by (cases "leaf_map lf k") (simp_all add: restrict_map_def domIff)
  have m2: "leaf_map nlf1 k = (if sk < k then leaf_map lf k else None)" for k
    unfolding r(11) assms(3) using mv [of k] by (cases "leaf_map lf k") (simp_all add: restrict_map_def domIff)
  let ?h = "(leaf_map lf)(ktext key \<mapsto> ktext value)"
  have hi: "\<exists>ln2 lf2 c2. LeafFillFirstEmptySlot alloc (key_hash (ktext key)) key value (nln1, nlf1, c1) = Some (True, ln2, lf2, c2) \<and>
       shadows ln2 lf2 \<and> same_node nln1 ln2 \<and> next_leaf lf2 = next_leaf nlf1 \<and> split_result sk ?h lf1 lf2"
    if g: "sk < ktext key"
  proof -
    have "sk \<in> dom (leaf_map lf)" using assms(11) g by auto
    then obtain i where "i < NODE_KEYS" "key_at lf i = sk" using slot by blast
    then have "\<exists>i<NODE_KEYS. \<not> live nlf1 i" using r(9) [of i] assms(5) by auto
    moreover have "leaf_map nlf1 (ktext key) = None" using m2 assms(6) by simp
    ultimately obtain ln2 lf2 c2 where f: "LeafFillFirstEmptySlot alloc (key_hash (ktext key)) key value (nln1, nlf1, c1) = Some (True, ln2, lf2, c2)"
      "shadows ln2 lf2" "same_node nln1 ln2" "next_leaf lf2 = next_leaf nlf1" "leaf_map lf2 = (leaf_map nlf1)(ktext key \<mapsto> ktext value)"
      using LeafFillFirstEmptySlot_ok [OF r(2) assms(7-9)] by blast
    moreover have "split_result sk ?h lf1 lf2"
      unfolding split_result_def f(5) using g by (auto simp: m1 m2 split: if_splits)
    ultimately show ?thesis by blast
  qed
  have lo: "\<exists>ln2 lf2 c2. LeafFillFirstEmptySlot alloc (key_hash (ktext key)) key value (ln1, lf1, c1) = Some (True, ln2, lf2, c2) \<and>
       shadows ln2 lf2 \<and> same_node ln1 ln2 \<and> next_leaf lf2 = next_leaf lf1 \<and> split_result sk ?h lf2 nlf1"
    if g: "\<not> sk < ktext key"
  proof -
    obtain k where "sk < k" "k \<in> dom (leaf_map lf)" using assms(12) g by auto
    then obtain i where "i < NODE_KEYS" "sk < key_at lf i" using slot by blast
    then have "\<exists>i<NODE_KEYS. \<not> live lf1 i" using r(8) [of i] by auto
    moreover have "leaf_map lf1 (ktext key) = None" using m1 assms(6) by simp
    ultimately obtain ln2 lf2 c2 where f: "LeafFillFirstEmptySlot alloc (key_hash (ktext key)) key value (ln1, lf1, c1) = Some (True, ln2, lf2, c2)"
      "shadows ln2 lf2" "same_node ln1 ln2" "next_leaf lf2 = next_leaf lf1" "leaf_map lf2 = (leaf_map lf1)(ktext key \<mapsto> ktext value)"
      using LeafFillFirstEmptySlot_ok [OF r(1) assms(7-9)] by blast
    moreover have "split_result sk ?h lf2 nlf1"
      unfolding split_result_def f(5) using g by (auto simp: m1 m2 not_less split: if_splits)
    ultimately show ?thesis by blast
  qed
  show ?thesis by (rule that [OF l r(3-6,1,2)]) (use hi lo in blast)+
qed

text \<open>The state after the transaction, and the database after the parents are updated.\<close>

definition split_state_of :: "nat \<Rightarrow> ScreeDBLeafNode \<Rightarrow> nat \<Rightarrow> ScreeDBLeaf \<Rightarrow> ScreeDBLeafNode \<Rightarrow> ScreeDBLeaf \<Rightarrow> nat \<Rightarrow> ScreeDBTree \<Rightarrow> ScreeDBTree" where
  "split_state_of a ln p lf nln nlf n s = s\<lparr>vheap := (vheap s)(a \<mapsto> VLeaf ln, vnext s \<mapsto> VLeaf nln), vnext := Suc (vnext s),
     pheap := (pheap s)(p \<mapsto> lf, pnext s \<mapsto> nlf), pnext := Suc (pnext s), allocs := n,
     proot := (proot s)\<lparr>head := Some (pnext s)\<rparr>\<rparr>"

lemma split_tx_ok:
  assumes "leafnode_at (vheap s) a = Some ln" "leaf ln = Some p" "pheap s p = Some lf" "shadows ln lf" "a < vnext s"
    "\<forall>i<NODE_KEYS. live lf i" "leaf_map lf (ktext key) = None" "key_ok key" "val_ok value" "\<forall>i. alloc i"
    "0 \<notin> set sk" "sk \<in> insert (ktext key) (dom (leaf_map lf))" "\<exists>k\<in>insert (ktext key) (dom (leaf_map lf)). sk < k"
  shows "\<exists>ln2 lf2 nln2 nlf2 n. split_tx alloc a (vnext s) sk (key_hash (ktext key)) key value (head (proot s))
      (s\<lparr>vheap := (vheap s)(vnext s \<mapsto> VLeaf (new_ScreeDBLeafNode\<lparr>parent := parent ln, is_leaf := True\<rparr>)), vnext := Suc (vnext s)\<rparr>) =
        Some (True, split_state_of a ln2 p lf2 nln2 nlf2 n s) \<and>
      shadows ln2 lf2 \<and> same_node ln ln2 \<and> next_leaf lf2 = next_leaf lf \<and>
      shadows nln2 nlf2 \<and> is_leaf nln2 \<and> parent nln2 = parent ln \<and> leaf nln2 = Some (pnext s) \<and> next_leaf nlf2 = head (proot s) \<and>
      split_result sk ((leaf_map lf)(ktext key \<mapsto> ktext value)) lf2 nlf2"
proof -
  let ?nln = "new_ScreeDBLeafNode\<lparr>parent := parent ln, is_leaf := True, leaf := Some (pnext s)\<rparr>"
  let ?nlf = "new_ScreeDBLeaf\<lparr>next_leaf := head (proot s)\<rparr>"
  have sh: "shadows ?nln ?nlf"
    using shadows_new [where x = True and y = "parent ln" and z = "Some (pnext s)"] by (simp add: new_ScreeDBLeafNode_def)
  have e: "leaf_map ?nlf = Map.empty" "\<forall>i<NODE_KEYS. \<not> live ?nlf i" by simp_all
  obtain ln1 lf1 nln1 nlf1 c1 where l: "split_loop alloc sk NODE_KEYS (ln, lf, ?nln, ?nlf, Suc (allocs s)) = Some (True, ln1, lf1, nln1, nlf1, c1)"
    "same_node ln ln1" "same_node ?nln nln1" "next_leaf lf1 = next_leaf lf" "next_leaf nlf1 = next_leaf ?nlf" "shadows ln1 lf1" "shadows nln1 nlf1"
    "sk < ktext key \<longrightarrow> (\<exists>ln2 lf2 c2. LeafFillFirstEmptySlot alloc (key_hash (ktext key)) key value (nln1, nlf1, c1) = Some (True, ln2, lf2, c2) \<and>
       shadows ln2 lf2 \<and> same_node nln1 ln2 \<and> next_leaf lf2 = next_leaf nlf1 \<and>
       split_result sk ((leaf_map lf)(ktext key \<mapsto> ktext value)) lf1 lf2)"
    "\<not> sk < ktext key \<longrightarrow> (\<exists>ln2 lf2 c2. LeafFillFirstEmptySlot alloc (key_hash (ktext key)) key value (ln1, lf1, c1) = Some (True, ln2, lf2, c2) \<and>
       shadows ln2 lf2 \<and> same_node ln1 ln2 \<and> next_leaf lf2 = next_leaf lf1 \<and>
       split_result sk ((leaf_map lf)(ktext key \<mapsto> ktext value)) lf2 nlf1)"
    by (rule split_and_fill [OF assms(4) sh e(1) assms(6) e(2) assms(7-13), where c = "Suc (allocs s)"]) (rule that)
  have node: "is_leaf nln1" "parent nln1 = parent ln" "leaf nln1 = Some (pnext s)" "next_leaf nlf1 = head (proot s)"
    using l(3,5) by (simp_all add: same_node_def)
  obtain r where r: "strcmp (data_ptr key) (c_str sk) = Some r" "r > 0 \<longleftrightarrow> sk < ktext key"
    using strcmp_gt [of "data_ptr key" sk] assms(8,11) by (auto simp: key_ok_def)
  have at: "leafnode_at ((vheap s)(vnext s \<mapsto> VLeaf x)) a = Some ln" "leafnode_at ((vheap s)(vnext s \<mapsto> VLeaf x)) (vnext s) = Some x" for x
    using assms(1,5) by (simp_all add: leafnode_at_def)
  note eval = split_tx_def split_state_of_def Let_def at assms(2,3) l(1) r(1) fun_upd_twist [OF assms(5) [THEN less_not_refl3]]
  show ?thesis
  proof (cases "sk < ktext key")
    case True
    from l(8) True obtain ln2 lf2 c2 where
      f: "LeafFillFirstEmptySlot alloc (key_hash (ktext key)) key value (nln1, nlf1, c1) = Some (True, ln2, lf2, c2)"
       "shadows ln2 lf2" "same_node nln1 ln2" "next_leaf lf2 = next_leaf nlf1"
       "split_result sk ((leaf_map lf)(ktext key \<mapsto> ktext value)) lf1 lf2" by blast
    show ?thesis
      by (rule exI [of _ ln1], rule exI [of _ lf1], rule exI [of _ ln2], rule exI [of _ lf2], rule exI [of _ c2])
        (use True r(2) assms(10) f node l(2,4,6) in \<open>simp add: eval same_node_def\<close>)
  next
    case False
    from l(9) False obtain ln2 lf2 c2 where
      f: "LeafFillFirstEmptySlot alloc (key_hash (ktext key)) key value (ln1, lf1, c1) = Some (True, ln2, lf2, c2)"
       "shadows ln2 lf2" "same_node ln1 ln2" "next_leaf lf2 = next_leaf lf1"
       "split_result sk ((leaf_map lf)(ktext key \<mapsto> ktext value)) lf2 nlf1" by blast
    show ?thesis
      by (rule exI [of _ ln2], rule exI [of _ lf2], rule exI [of _ nln1], rule exI [of _ nlf1], rule exI [of _ c2])
        (use False r(2) assms(10) f node l(2,4,7) in \<open>simp add: eval same_node_def\<close>)
  qed
qed

lemma tree_ok_split_state:
  assumes "tree_ok s t" "leafnode_at (vheap s) a = Some ln" "same_node ln ln2"
  shows "tree_ok (split_state_of a ln2 p lf2 nln2 nlf2 n s) t"
proof -
  have fresh: "vnext s \<notin> set (gaddrs t)" using assms(1) by (auto simp: tree_ok_def)
  have "rep ((vheap s)(a \<mapsto> VLeaf ln2, vnext s \<mapsto> VLeaf nln2)) None t = rep ((vheap s)(a \<mapsto> VLeaf ln2)) None t"
    by (rule rep_cong) (use fresh in auto)
  then show ?thesis
    using assms(1) rep_upd_leaf [OF assms(2,3)] by (auto simp: tree_ok_def split_state_of_def less_Suc_eq)
qed

text \<open>The leaf nodes and the persistent leaves of a state, as far as the invariant reads them.\<close>

lemma volatile_step_leaf:
  assumes "volatile_step s s'" "leafnode_at (vheap s) a = Some ln" "a < vnext s"
  shows "\<exists>ln'. leafnode_at (vheap s') a = Some ln' \<and> hashes ln' = hashes ln \<and> leaf ln' = leaf ln" "ptr s' a = ptr s a"
    "attached s ls a \<Longrightarrow> attached s' ls a" "tmap s' a = tmap s a"
proof -
  show l: "\<exists>ln'. leafnode_at (vheap s') a = Some ln' \<and> hashes ln' = hashes ln \<and> leaf ln' = leaf ln"
    using assms by (auto simp: volatile_step_def same_leaves_def)
  then show p: "ptr s' a = ptr s a" using assms(2) by (auto simp: ptr_def)
  have ph: "pheap s' = pheap s" using assms(1) by (simp add: volatile_step_def)
  show "attached s ls a \<Longrightarrow> attached s' ls a" using l assms(2) by (auto simp: attached_def ph shadows_def)
  show "tmap s' a = tmap s a" by (simp add: tmap_def p ph)
qed

lemma split_inv:
  assumes "db_inv s ls items m" "items = X @ L a # Y" "\<forall>x\<in>set (seps X). x < k" "\<forall>y\<in>set (seps Y). k \<le> y"
    "leafnode_at (vheap s) a = Some ln" "leaf ln = Some p" "pheap s p = Some lf"
    and s2: "s2 = split_state_of a ln2 p lf2 nln2 nlf2 n s"
    and st: "shadows ln2 lf2" "same_node ln ln2" "next_leaf lf2 = next_leaf lf" "shadows nln2 nlf2" "leaf nln2 = Some (pnext s)"
      "next_leaf nlf2 = head (proot s)" "split_result sk ((leaf_map lf)(k \<mapsto> v)) lf2 nlf2"
    and sk: "0 \<notin> set sk" "\<forall>x\<in>set (seps X). x < sk" "\<forall>y\<in>set (seps Y). sk < y"
    and s3: "tree_ok s3 t3" "flat t3 = X @ L a # K sk # L (vnext s) # Y" "volatile_step s2 s3"
  shows "db_inv s3 (pnext s # ls) (X @ L a # K sk # L (vnext s) # Y) (m(k \<mapsto> v))"
proof -
  let ?b = "vnext s" and ?q = "pnext s" and ?new = "X @ L a # K sk # L (vnext s) # Y"
  note D = db_invD [OF assms(1)]
  have h2: "vheap s2 = (vheap s)(a \<mapsto> VLeaf ln2, ?b \<mapsto> VLeaf nln2)" "vnext s2 = Suc ?b"
    "pheap s2 = (pheap s)(p \<mapsto> lf2, ?q \<mapsto> nlf2)" "pnext s2 = Suc ?q" "head (proot s2) = Some ?q"
    by (simp_all add: s2 split_state_of_def)
  have h3: "pheap s3 = pheap s2" "pnext s3 = pnext s2" "proot s3 = proot s2" using s3(3) by (simp_all add: volatile_step_def)
  have ain: "a \<in> set (lvs items)" by (simp add: assms(2))
  have less: "c < ?b" if "c \<in> set (lvs items)" for c using vtree_less [OF D(2) that] .
  have pa: "ptr s a = Some p" by (simp add: ptr_def assms(5,6))
  have pin: "p \<in> set ls" using D(3) [OF ain] assms(5,6) by (auto simp: attached_def)
  have qls: "?q \<notin> set ls" using D(1) by (auto simp: leaves_ok_def)
  have pq: "p \<noteq> ?q" using pin qls by auto
  have A: "leafnode_at (vheap s2) a = Some ln2" "ptr s2 a = Some p" "attached s2 (?q # ls) a" "tmap s2 a = leaf_map lf2"
    using less [OF ain] st(1,2) assms(6) pq pin
    by (auto simp: h2 leafnode_at_def ptr_def attached_def tmap_def leaf_at_def same_node_def)
  have B: "leafnode_at (vheap s2) ?b = Some nln2" "ptr s2 ?b = Some ?q" "attached s2 (?q # ls) ?b" "tmap s2 ?b = leaf_map nlf2"
    using st(4,5) by (auto simp: h2 leafnode_at_def ptr_def attached_def tmap_def leaf_at_def)
  have C: "\<exists>l. leafnode_at (vheap s2) c = Some l" "ptr s2 c = ptr s c" "attached s2 (?q # ls) c" "tmap s2 c = tmap s c" "ptr s c \<noteq> Some p"
    if c: "c \<in> set (lvs items)" "c \<noteq> a" for c
  proof -
    from D(3) [OF c(1)] obtain l p1 lf1 where l: "leafnode_at (vheap s) c = Some l" "leaf l = Some p1" "p1 \<in> set ls"
      "pheap s p1 = Some lf1" "shadows l lf1" "ptr s c = Some p1" "tmap s c = leaf_map lf1" by (rule attachedE)
    show np: "ptr s c \<noteq> Some p" using inj_onD [OF D(4), of a c] ain pa c by auto
    have at: "leafnode_at (vheap s2) c = Some l" using l(1) less [OF c(1)] c(2) by (simp add: h2 leafnode_at_def)
    then show "\<exists>l. leafnode_at (vheap s2) c = Some l" by blast
    have ph: "pheap s2 p1 = Some lf1" using l(3,4,6) np qls by (auto simp: h2)
    show "ptr s2 c = ptr s c" "tmap s2 c = tmap s c" using at l ph by (simp_all add: ptr_def tmap_def leaf_at_def)
    show "attached s2 (?q # ls) c" using at l(2,3,5) ph by (auto simp: attached_def)
  qed
  have at2: "\<exists>l. leafnode_at (vheap s2) c = Some l" and lt2: "c < vnext s2" if "c \<in> set (lvs ?new)" for c
    using that A(1) B(1) C(1) [of c] less [of c] ain by (auto simp: assms(2) h2(2) less_Suc_eq)
  have V: "ptr s3 c = ptr s2 c" "attached s2 (?q # ls) c \<Longrightarrow> attached s3 (?q # ls) c" "tmap s3 c = tmap s2 c" if "c \<in> set (lvs ?new)" for c
    using volatile_step_leaf(2-4) [OF s3(3)] at2 [OF that] lt2 [OF that] by blast+
  have bnew: "?b \<notin> set (lvs items)" using less by auto
  have P3: "ptr s3 c = (if c = ?b then Some ?q else ptr s c)" if "c \<in> set (lvs ?new)" for c
    using V(1) [OF that] that A(2) B(2) C(2) pa by (cases "c = a") (auto simp: assms(2))
  have ck: "chain (pheap s) (head (proot s)) ls" using D(1) by (simp add: leaves_ok_def)
  have "chain (pheap s3) (next_leaf nlf2) ls"
    unfolding h3(1) h2(3) st(6) chain_fresh [OF qls] chain_upd [of "pheap s" p lf lf2, OF assms(7) st(3)] by (rule ck)
  then have 1: "leaves_ok s3 (?q # ls)"
    using D(1) st(1,4) by (auto simp: leaves_ok_def h3 h2 shadows_def less_Suc_eq)
  have 2: "vtree s3 ?new" using s3(1,2) by (auto simp: vtree_def tree_ok_def split: option.splits)
  have 3: "attached s3 (?q # ls) c" if "c \<in> set (lvs ?new)" for c
    using V(2) [OF that] that A(3) B(3) C(3) by (cases "c = a") (auto simp: assms(2))
  have pls: "ptr s c \<noteq> Some ?q" if "c \<in> set (lvs items)" for c
    using D(3) [OF that] qls by (auto simp: attached_def ptr_def)
  have 4: "inj_on (ptr s3) (set (lvs ?new))"
  proof (rule inj_onI)
    fix c d assume cd: "c \<in> set (lvs ?new)" "d \<in> set (lvs ?new)" "ptr s3 c = ptr s3 d"
    then have eq: "(if c = ?b then Some ?q else ptr s c) = (if d = ?b then Some ?q else ptr s d)"
      using P3 [OF cd(1)] P3 [OF cd(2)] by simp
    have cs: "c = ?b \<or> c \<in> set (lvs items)" "d = ?b \<or> d \<in> set (lvs items)" using cd(1,2) by (auto simp: assms(2))
    show "c = d"
    proof (cases "c = ?b \<or> d = ?b")
      case True
      then show ?thesis using eq cs pls [of c] pls [of d] by (metis (full_types))
    next
      case False
      then show ?thesis using eq cs inj_onD [OF D(4), of c d] by simp
    qed
  qed
  have 5: "leaf_map (the (pheap s3 r)) = Map.empty" if r: "r \<in> set (?q # ls)" "Some r \<notin> ptr s3 ` set (lvs ?new)" for r
  proof -
    have "r \<noteq> ?q" using r(2) P3 [of ?b] by (force simp: assms(2))
    moreover have nr: "Some r \<notin> ptr s ` set (lvs items)"
    proof
      assume "Some r \<in> ptr s ` set (lvs items)"
      then obtain c where c: "c \<in> set (lvs items)" "ptr s c = Some r" by auto
      then have "c \<in> set (lvs ?new)" "c \<noteq> ?b" using bnew by (auto simp: assms(2))
      then show False using r(2) P3 [of c] c(2) by (metis image_eqI)
    qed
    moreover from nr have "r \<noteq> p" using pa ain by (metis image_eqI)
    ultimately show ?thesis using D(5) [of r] r(1) by (auto simp: h3 h2)
  qed
  define f1 where "f1 = (tmap s)(a := (tmap s a)(k \<mapsto> v))"
  have tma: "tmap s a = leaf_map lf" using assms(7) pa by (simp add: tmap_def leaf_at_def)
  have lay: "lay_ok items f1" "lay_map items f1 (m(k \<mapsto> v))"
    by (rule lay_update [OF D(6,7) assms(2-4)]; simp add: f1_def)+
  have T: "tmap s3 a = leaf_map lf2" "tmap s3 ?b = leaf_map nlf2" "\<And>c. c \<in> set (lvs items) \<Longrightarrow> c \<noteq> a \<Longrightarrow> tmap s3 c = f1 c"
    using V(3) A(4) B(4) C(4) ain by (simp_all add: assms(2) f1_def)
  have f1a: "f1 a = (leaf_map lf)(k \<mapsto> v)" by (simp add: f1_def tma)
  note sr = st(7) [unfolded split_result_def]
  have S: "f1 a j = Some w \<longleftrightarrow> tmap s3 a j = Some w \<or> tmap s3 ?b j = Some w" "j \<in> dom (tmap s3 a) \<Longrightarrow> j \<le> sk"
    "j \<in> dom (tmap s3 ?b) \<Longrightarrow> sk < j" for j w
    unfolding f1a T(1,2) using sr by blast+
  have 6: "lay_ok ?new (tmap s3)" "lay_map ?new (tmap s3) (m(k \<mapsto> v))"
    using lay_split [OF lay [unfolded assms(2)] bnew [unfolded assms(2)] sk S T(3) [unfolded assms(2)]] by blast+
  show ?thesis unfolding db_inv_def using 1 2 3 4 5 6 by blast
qed

lemma LeafSplit_ok:
  assumes "db_inv s ls items m" "items = X @ L a # Y" "\<forall>x\<in>set (seps X). x < ktext key" "\<forall>y\<in>set (seps Y). ktext key \<le> y"
    "leafnode_at (vheap s) a = Some ln" "leaf ln = Some p" "pheap s p = Some lf" "shadows ln lf" "top_node s \<noteq> None"
    "\<forall>i<NODE_KEYS. live lf i" "leaf_map lf (ktext key) = None" "key_ok key" "val_ok value" "\<forall>i. alloc i"
  shows "\<exists>s'. LeafSplit alloc a (key_hash (ktext key)) key value s = Some (True, s') \<and> dbR s' (m(ktext key \<mapsto> ktext value))"
proof -
  note D = db_invD [OF assms(1)]
  have lf: "leaf_ok lf" using assms(8) by (simp add: shadows_def)
  have ain: "a \<in> set (lvs items)" by (simp add: assms(2))
  obtain t where t: "tree_ok s t" "flat t = items" using D(2) assms(9) by (auto simp: vtree_def)
  have less: "c < vnext s" if "c \<in> set (lvs items)" for c using vtree_less [OF D(2) that] .
  obtain sk where sk: "choose_split_key lf key = Some sk" "0 \<notin> set sk" "sk \<in> insert (ktext key) (dom (leaf_map lf))"
    "\<exists>k\<in>insert (ktext key) (dom (leaf_map lf)). sk < k"
    by (rule choose_split_key_ok [OF lf assms(10-12)])
  obtain ln2 lf2 nln2 nlf2 n where st: "split_tx alloc a (vnext s) sk (key_hash (ktext key)) key value (head (proot s))
      (s\<lparr>vheap := (vheap s)(vnext s \<mapsto> VLeaf (new_ScreeDBLeafNode\<lparr>parent := parent ln, is_leaf := True\<rparr>)), vnext := Suc (vnext s)\<rparr>) =
        Some (True, split_state_of a ln2 p lf2 nln2 nlf2 n s)"
      "shadows ln2 lf2" "same_node ln ln2" "next_leaf lf2 = next_leaf lf"
      "shadows nln2 nlf2" "is_leaf nln2" "parent nln2 = parent ln" "leaf nln2 = Some (pnext s)" "next_leaf nlf2 = head (proot s)"
      "split_result sk ((leaf_map lf)(ktext key \<mapsto> ktext value)) lf2 nlf2"
    using split_tx_ok [OF assms(5-8) less [OF ain] assms(10-14) sk(2-4)] by blast
  define s2 where "s2 = split_state_of a ln2 p lf2 nln2 nlf2 n s"
  have s2: "vheap s2 = (vheap s)(a \<mapsto> VLeaf ln2, vnext s \<mapsto> VLeaf nln2)" "vnext s2 = Suc (vnext s)"
    "pheap s2 = (pheap s)(p \<mapsto> lf2, pnext s \<mapsto> nlf2)" "pnext s2 = Suc (pnext s)" "head (proot s2) = Some (pnext s)"
    by (simp_all add: s2_def split_state_of_def)
  have t2: "tree_ok s2 t" unfolding s2_def by (rule tree_ok_split_state [OF t(1) assms(5) st(3)])
  have fresh: "vnext s \<notin> set (gaddrs t)" using t(1) by (auto simp: tree_ok_def)
  have pin: "p \<in> set ls" using D(3) [OF ain] assms(5,6) by (auto simp: attached_def)
  have qls: "pnext s \<notin> set ls" using D(1) by (auto simp: leaves_ok_def)
  have pq: "p \<noteq> pnext s" using pin qls by auto
  have tma: "tmap s a = leaf_map lf" using assms(5-7) by (simp add: tmap_def ptr_def leaf_at_def)
  note Dl = lay_okD [OF D(6)]
  have dom: "k \<in> dom (tmap s a)" if "k \<in> dom (leaf_map lf)" for k using that tma by simp
  have ilo: "x < k" if "k \<in> insert (ktext key) (dom (leaf_map lf))" "x \<in> set (seps X)" for x k
    using that assms(3) Dl(5) [OF assms(2) dom] by auto
  have ihi: "k \<le> y" if "k \<in> insert (ktext key) (dom (leaf_map lf))" "y \<in> set (seps Y)" for y k
    using that assms(4) Dl(6) [OF assms(2) dom] by auto
  have skX: "\<forall>x\<in>set (seps X). x < sk" using ilo sk(3) by blast
  have skY: "\<forall>y\<in>set (seps Y). sk < y" using ihi sk(4) by (blast intro: less_le_trans)
  have srt: "sorted_wrt (<) (seps X @ sk # seps Y)"
    using Dl(2) skX skY by (auto simp: assms(2) sorted_wrt_append)
  have na: "leafnode_at (vheap s2) a = Some ln2" "leafnode_at (vheap s2) (vnext s) = Some nln2"
    using less [OF ain] by (simp_all add: s2 leafnode_at_def)
  have par: "parent nln2 = parent ln2" using st(3,7) by (simp add: same_node_def)
  obtain s3 t3 where s3: "LeafUpdateParentsAfterSplit a (vnext s) sk s2 = Some s3" "tree_ok s3 t3"
    "flat t3 = X @ L a # K sk # L (vnext s) # Y" "volatile_step s2 s3"
    using update_parents_leaf [OF t2 _ na st(6) par fresh _ srt] t(2) assms(2) s2(2) by auto
  have ev: "LeafSplit alloc a (key_hash (ktext key)) key value s = Some (True, s3)"
    using assms(5-7) sk(1) st(1) s3(1) by (simp add: LeafSplit_def leaf_at_def Let_def exec_tx_def s2_def)
  have "db_inv s3 (pnext s # ls) (X @ L a # K sk # L (vnext s) # Y) (m(ktext key \<mapsto> ktext value))"
    by (rule split_inv [OF assms(1-7) s2_def st(2-5,8-10) sk(2) skX skY s3(2-4)])
  with ev show ?thesis by (auto simp: dbR_def)
qed

section \<open>Put and MultiGet\<close>

lemma Put_ok:
  assumes "dbR s m" "key_ok key" "val_ok value" "\<forall>i. alloc i"
  shows "\<exists>s'. Put alloc key value s = Some (Some Status_OK, s') \<and> dbR s' (m(ktext key \<mapsto> ktext value))"
proof -
  from assms(1) obtain ls items where inv: "db_inv s ls items m" by (auto simp: dbR_def)
  note hash = key_ok_hash [OF assms(2)]
  from LeafSearch_ok [OF inv assms(2)] show ?thesis
  proof (elim disjE exE conjE)
    assume n: "LeafSearch key s = Some None" "m = Map.empty" "items = []"
    with add_head_leaf_ok [OF inv [unfolded n(3)] n(2) assms(2-4)] show ?thesis by (auto simp: Put_def hash)
  next
    fix a X Y
    assume a: "top_node s \<noteq> None" "LeafSearch key s = Some (Some a)" "items = X @ L a # Y" "\<forall>x\<in>set (seps X). x < ktext key"
      "\<forall>y\<in>set (seps Y). ktext key \<le> y"
    then have "attached s ls a" using db_invD(3) [OF inv] by simp
    then obtain ln p lf where l: "leafnode_at (vheap s) a = Some ln" "leaf ln = Some p" "p \<in> set ls"
      "pheap s p = Some lf" "shadows ln lf" "ptr s a = Some p" "tmap s a = leaf_map lf" by (rule attachedE)
    from LeafFillSlotForKey_ok [OF inv a(3-5) l(1,2,4,5) assms(2-4)] show ?thesis
    proof (elim disjE exE conjE)
      fix s' assume "LeafFillSlotForKey alloc a (key_hash (ktext key)) key value s = Some (Some True, s')"
        "dbR s' (m(ktext key \<mapsto> ktext value))"
      then show ?thesis using a(2) by (simp add: Put_def hash)
    next
      assume f: "LeafFillSlotForKey alloc a (key_hash (ktext key)) key value s = Some (Some False, s)"
        "\<forall>i<NODE_KEYS. live lf i" "leaf_map lf (ktext key) = None"
      with LeafSplit_ok [OF inv a(3-5) l(1,2,4,5) a(1) f(2,3) assms(2-4)] a(2) show ?thesis by (auto simp: Put_def hash)
    qed
  qed
qed

text \<open>\<open>MultiGet\<close> makes a new slice from each key's data pointer; the size it was given is not used.\<close>

definition get_result :: "(bytes \<Rightarrow> bytes option) \<Rightarrow> bytes \<Rightarrow> Status \<times> bytes" where
  "get_result m k = (case m k of None \<Rightarrow> (NotFound, []) | Some v \<Rightarrow> (Status_OK, v))"

definition ckey_ok :: "Slice \<Rightarrow> bool" where
  "ckey_ok sl \<longleftrightarrow> terminated (data_ptr sl) \<and> ascii (ktext sl)"

lemma MultiGet_ok:
  assumes "dbR s m" "\<forall>key\<in>set ks. ckey_ok key"
  shows "MultiGet ks vs s = Some (map (\<lambda>key. fst (get_result m (ktext key))) ks,
     vs @ map (\<lambda>key. snd (get_result m (ktext key))) ks)"
  using assms(2)
proof (induction ks arbitrary: vs)
  case (Cons key ks)
  let ?k = "\<lparr>data_ptr = data_ptr key, size_of = length (ktext key)\<rparr>"
  have k: "Slice_of_cstr (data_ptr key) = Some ?k" "key_ok ?k"
    using Cons.prems by (auto simp: Slice_of_cstr_bytes ckey_ok_def key_ok_def)
  have "Get ?k [] s = Some (get_result m (ktext key))"
    using Get_ok [OF assms(1) k(2), of "[]"] by (auto simp: get_result_def split: option.splits)
  moreover have "(if ok (fst (get_result m x)) then snd (get_result m x) else []) = snd (get_result m x)" for x
    by (auto simp: get_result_def ok_def NotFound_def Status_of_subcode_def Status_OK_def split: option.splits)
  ultimately show ?case using Cons k(1) by (simp add: split_beta)
qed simp

section \<open>Failed allocations\<close>

lemma exec_tx_abort: "exec_tx body s = Some (False, s') \<Longrightarrow> pheap s' = pheap s \<and> pnext s' = pnext s \<and> proot s' = proot s"
  by (auto simp: exec_tx_def bind_eq_Some_conv)

lemma add_head_leaf_abort:
  "add_head_leaf alloc hash key value s = Some (False, s') \<Longrightarrow> pheap s' = pheap s \<and> pnext s' = pnext s \<and> proot s' = proot s"
  by (auto simp: add_head_leaf_def Let_def bind_eq_Some_conv dest!: exec_tx_abort split: if_splits)

lemma LeafFillSlotForKey_abort:
  "LeafFillSlotForKey alloc a hash key value s = Some (None, s') \<Longrightarrow> pheap s' = pheap s \<and> pnext s' = pnext s \<and> proot s' = proot s"
  by (auto simp: LeafFillSlotForKey_def bind_eq_Some_conv split: option.splits if_splits dest!: exec_tx_abort)

lemma LeafFillSlotForKey_full: "LeafFillSlotForKey alloc a hash key value s = Some (Some False, s') \<Longrightarrow> s' = s"
  by (auto simp: LeafFillSlotForKey_def bind_eq_Some_conv split: option.splits if_splits)

lemma LeafSplit_abort:
  "LeafSplit alloc a hash key value s = Some (False, s') \<Longrightarrow> pheap s' = pheap s \<and> pnext s' = pnext s \<and> proot s' = proot s"
  by (auto simp: LeafSplit_def Let_def bind_eq_Some_conv split: if_splits dest!: exec_tx_abort)

lemma Put_abort:
  assumes "Put alloc key value s = Some (None, s')"
  shows "pheap s' = pheap s \<and> pnext s' = pnext s \<and> proot s' = proot s"
proof -
  from assms obtain hash f where h: "PearsonHash (data_ptr key) (size_of key) = Some hash" "LeafSearch key s = Some f"
    by (auto simp: Put_def bind_eq_Some_conv)
  show ?thesis
  proof (cases f)
    case None
    with assms h have "add_head_leaf alloc hash key value s = Some (False, s')"
      by (auto simp: Put_def bind_eq_Some_conv split: if_splits)
    then show ?thesis by (rule add_head_leaf_abort)
  next
    case (Some a)
    with assms h obtain r s1 where r: "LeafFillSlotForKey alloc a hash key value s = Some (r, s1)"
      by (auto simp: Put_def bind_eq_Some_conv)
    consider "r = None" | "r = Some True" | "r = Some False" by (cases r) auto
    then show ?thesis
    proof cases
      case 1
      with assms h Some r show ?thesis by (simp add: Put_def LeafFillSlotForKey_abort)
    next
      case 2
      with assms h Some r show ?thesis by (simp add: Put_def)
    next
      case 3
      with assms h Some r have "LeafSplit alloc a hash key value s1 = Some (False, s')"
        by (auto simp: Put_def bind_eq_Some_conv split: if_splits)
      moreover have "s1 = s" using r 3 LeafFillSlotForKey_full by blast
      ultimately show ?thesis using LeafSplit_abort by blast
    qed
  qed
qed

end
