(* ===== verification/Scree_Recovery.thy ===== *)
theory Scree_Recovery
  imports Scree_Put
begin

text \<open>
  Opening, recovering and closing a tree (utilities/screedb/screedb.cc): \<open>Recover\<close>, \<open>RebuildNodes\<close>,
  \<open>Shutdown\<close>, the constructor and the destructor of \<open>ScreeDBTree\<close>.  The volatile nodes are rebuilt
  from the persistent leaves alone, so what recovery needs is stated of the persistent data only
  (\<open>persistent_inv\<close>), and every state the operations reach has it, also after a transaction that was
  rolled back.
\<close>

section \<open>Rebuilding the volatile nodes\<close>

text \<open>One leaf: copy the hashes and find the highest key, slots from high to low.\<close>

fun scan_leaf :: "ScreeDBLeaf \<Rightarrow> nat \<Rightarrow> byte list \<Rightarrow> bytes option \<Rightarrow> (byte list \<times> bytes option) option" where
  "scan_leaf lf 0 hs max_key = Some (hs, max_key)"
| "scan_leaf lf (Suc slot) hs max_key = do {
     h \<leftarrow> nth_opt (phashes lf) slot;
     let hs' = hs[slot := h];
     if h = 0 then scan_leaf lf slot hs' max_key
     else do {
       sk \<leftarrow> nth_opt (kv_keys lf) slot;
       higher \<leftarrow> (case max_key of None \<Rightarrow> Some True | Some m \<Rightarrow> map_option (\<lambda>r. r < 0) (strcmp m (data sk)));
       scan_leaf lf slot hs' (if higher then Some (data sk) else max_key) } }"

text \<open>The walk along the persistent leaves.  The list holds the leaf node and the highest key of
  each leaf that is not empty; a circular chain would never end.\<close>

partial_function (option) collect_leaves ::
    "nat option \<Rightarrow> ScreeDBTree \<Rightarrow> (nat \<times> bytes) list \<Rightarrow> ((nat \<times> bytes) list \<times> ScreeDBTree) option" where
  "collect_leaves p s leaves =
     (case p of
        None \<Rightarrow> Some (leaves, s)
      | Some q \<Rightarrow> do {
          lf \<leftarrow> pheap s q;
          (hs, max_key) \<leftarrow> scan_leaf lf NODE_KEYS (hashes new_ScreeDBLeafNode) None;
          let b = vnext s;
          let s' = s\<lparr>vheap := (vheap s)(b \<mapsto> VLeaf (new_ScreeDBLeafNode\<lparr>leaf := Some q, is_leaf := True, hashes := hs\<rparr>)),
                     vnext := Suc b\<rparr>;
          collect_leaves (next_leaf lf) s' (case max_key of None \<Rightarrow> leaves | Some m \<Rightarrow> leaves @ [(b, m)]) })"

fun link_leaves :: "(nat \<times> bytes) list \<Rightarrow> ScreeDBTree \<Rightarrow> ScreeDBTree option" where
  "link_leaves [] s = Some s"
| "link_leaves [(a, max_key)] s = Some (if top_node s = None then s\<lparr>top_node := Some a\<rparr> else s)"
| "link_leaves ((a, max_key) # (b, max_key') # rest) s = do {
     let s1 = (if top_node s = None then s\<lparr>top_node := Some a\<rparr> else s);
     _ \<leftarrow> strlen max_key;
     ln \<leftarrow> leafnode_at (vheap s1) a;
     nln \<leftarrow> leafnode_at (vheap s1) b;
     s2 \<leftarrow> LeafUpdateParentsAfterSplit a b (cstr max_key)
            (s1\<lparr>vheap := (vheap s1)(b \<mapsto> VLeaf (nln\<lparr>parent := parent ln\<rparr>))\<rparr>);
     link_leaves ((b, max_key') # rest) s2 }"

definition RebuildNodes :: "ScreeDBTree \<Rightarrow> ScreeDBTree option" where
  "RebuildNodes s = do {
     (leaves, s1) \<leftarrow> collect_leaves (head (proot s)) s [];
     if list_all (\<lambda>(a, max_key). terminated max_key) leaves
     then link_leaves (sort_key (\<lambda>(a, max_key). cstr max_key) leaves) (s1\<lparr>top_node := None\<rparr>)
     else None }"

section \<open>Opening and closing\<close>

definition Recover :: "ScreeDBTree \<Rightarrow> ScreeDBTree option" where
  "Recover s =
     (if head (proot s) = None then do {
        (_, s') \<leftarrow> exec_tx (\<lambda>s. Some (True, s\<lparr>proot := (proot s)\<lparr>opened := 1, closed := 0\<rparr>\<rparr>)) s;
        Some s'
      } else do {
        s1 \<leftarrow> RebuildNodes s;
        (_, s') \<leftarrow> exec_tx (\<lambda>s. Some (True, s\<lparr>proot := (proot s)\<lparr>opened := opened (proot s) + 1\<rparr>\<rparr>)) s1;
        Some s' })"

definition Shutdown :: "ScreeDBTree \<Rightarrow> ScreeDBTree option" where
  "Shutdown s = do {
     (_, s') \<leftarrow> exec_tx (\<lambda>s. Some (True, s\<lparr>proot := (proot s)\<lparr>closed := closed (proot s) + 1\<rparr>\<rparr>)) s;
     Some s' }"

text \<open>What a pool file holds: the persistent leaves and the root.\<close>

record pool =
  pool_heap :: "nat \<Rightarrow> ScreeDBLeaf option"
  pool_next :: nat
  pool_root :: ScreeDBRoot

definition new_pool :: pool where
  "new_pool = \<lparr>pool_heap = Map.empty, pool_next = 0, pool_root = new_ScreeDBRoot\<rparr>"

definition pool_of :: "ScreeDBTree \<Rightarrow> pool" where
  "pool_of s = \<lparr>pool_heap = pheap s, pool_next = pnext s, pool_root = proot s\<rparr>"

definition ScreeDBTree_init :: "pool \<Rightarrow> ScreeDBTree" where
  "ScreeDBTree_init pl = \<lparr>vheap = Map.empty, vnext = 0, top_node = None, pheap = pool_heap pl, pnext = pool_next pl,
     proot = pool_root pl, allocs = 0\<rparr>"

text \<open>The constructor creates the pool when there is no file of that name.\<close>

definition ScreeDBTree_new :: "pool option \<Rightarrow> ScreeDBTree option" where
  "ScreeDBTree_new file = Recover (ScreeDBTree_init (case file of None \<Rightarrow> new_pool | Some pl \<Rightarrow> pl))"

definition ScreeDBTree_delete :: "ScreeDBTree \<Rightarrow> pool option" where
  "ScreeDBTree_delete s = map_option pool_of (Shutdown s)"

section \<open>The persistent invariant\<close>

text \<open>The keys of two leaves do not interleave.\<close>

definition lm :: "(nat \<Rightarrow> ScreeDBLeaf option) \<Rightarrow> nat \<Rightarrow> bytes \<Rightarrow> bytes option" where
  "lm P p = (case P p of None \<Rightarrow> Map.empty | Some lf \<Rightarrow> leaf_map lf)"

definition key_order :: "(nat \<Rightarrow> bytes \<Rightarrow> bytes option) \<Rightarrow> nat \<Rightarrow> nat \<Rightarrow> bool" where
  "key_order f p q \<longleftrightarrow> (\<forall>j\<in>dom (f p). \<forall>k\<in>dom (f q). j < k)"

definition pool_inv :: "pool \<Rightarrow> nat list \<Rightarrow> (bytes \<Rightarrow> bytes option) \<Rightarrow> bool" where
  "pool_inv pl ls m \<longleftrightarrow> chain (pool_heap pl) (head (pool_root pl)) ls \<and>
     (\<forall>p\<in>set ls. p < pool_next pl \<and> (\<exists>lf. pool_heap pl p = Some lf \<and> leaf_ok lf)) \<and>
     (\<forall>p\<in>set ls. \<forall>q\<in>set ls. p \<noteq> q \<longrightarrow> key_order (lm (pool_heap pl)) p q \<or> key_order (lm (pool_heap pl)) q p) \<and>
     (\<forall>k v. m k = Some v \<longleftrightarrow> (\<exists>p\<in>set ls. lm (pool_heap pl) p k = Some v))"

definition persistent_inv :: "pool \<Rightarrow> (bytes \<Rightarrow> bytes option) \<Rightarrow> bool" where
  "persistent_inv pl m \<longleftrightarrow> (\<exists>ls. pool_inv pl ls m)"

text \<open>Every state that satisfies the invariant of the whole tree has it.\<close>

lemma lay_separated:
  assumes "lay_ok items f" "a \<in> set (lvs items)" "b \<in> set (lvs items)" "a \<noteq> b"
  shows "key_order f a b \<or> key_order f b a"
proof -
  have one: "key_order f c d" if it: "items = X @ L c # Y @ L d # Z" for X Y Z c d
    unfolding key_order_def
  proof (intro ballI)
    fix j k assume jk: "j \<in> dom (f c)" "k \<in> dom (f d)"
    obtain x where x: "x \<in> set (seps Y)" using apart_sep [of X c Y d Z] lay_okD(1) [OF assms(1)] it
      by (metis list.set_sel(1))
    have "j \<le> x" using lay_okD(6) [OF assms(1) it jk(1), of x] x by simp
    moreover have "x < k" using lay_okD(5) [OF assms(1), of "X @ L c # Y" d Z k x] it jk(2) x by simp
    ultimately show "j < k" by (rule le_less_trans)
  qed
  from assms(2) obtain X Y where xy: "items = X @ L a # Y" by (auto simp: set_lvs in_set_conv_decomp) (metis set_lvs in_set_conv_decomp)
  from assms(3,4) xy consider "L b \<in> set X" | "L b \<in> set Y" by (auto simp: set_lvs)
  then show ?thesis
  proof cases
    case 1
    then obtain X1 X2 where "X = X1 @ L b # X2" by (auto simp: in_set_conv_decomp)
    then have "items = X1 @ L b # X2 @ L a # Y" using xy by simp
    from one [OF this] show ?thesis by blast
  next
    case 2
    then obtain Y1 Y2 where "Y = Y1 @ L b # Y2" by (auto simp: in_set_conv_decomp)
    then have "items = X @ L a # Y1 @ L b # Y2" using xy by simp
    from one [OF this] show ?thesis by blast
  qed
qed

lemma dbR_persistent:
  assumes "dbR s m"
  shows "persistent_inv (pool_of s) m"
proof -
  from assms obtain ls items where inv: "db_inv s ls items m" by (auto simp: dbR_def)
  note D = db_invD [OF inv]
  have tm: "tmap s a = lm (pheap s) p" if "ptr s a = Some p" for a p
    using that by (auto simp: tmap_def lm_def leaf_at_def split: option.splits)
  have node: "\<exists>a\<in>set (lvs items). ptr s a = Some p" if "p \<in> set ls" "lm (pheap s) p \<noteq> Map.empty" for p
    using D(5) [OF that(1)] that D(1) by (fastforce simp: leaves_ok_def lm_def image_iff)
  have ord: "key_order (lm (pheap s)) p q \<or> key_order (lm (pheap s)) q p"
    if pq: "p \<in> set ls" "q \<in> set ls" "p \<noteq> q" for p q
  proof (cases "lm (pheap s) p = Map.empty \<or> lm (pheap s) q = Map.empty")
    case False
    then obtain a b where "a \<in> set (lvs items)" "ptr s a = Some p" "b \<in> set (lvs items)" "ptr s b = Some q"
      using node pq by blast
    moreover from this pq(3) have "a \<noteq> b" by auto
    ultimately show ?thesis using lay_separated [OF D(6), of a b] tm by (simp add: key_order_def)
  qed (auto simp: key_order_def)
  have un: "m k = Some v \<longleftrightarrow> (\<exists>p\<in>set ls. lm (pheap s) p k = Some v)" for k v
  proof
    assume "m k = Some v"
    then obtain a where a: "a \<in> set (lvs items)" "tmap s a k = Some v" using D(7) by (auto simp: lay_map_def)
    from D(3) [OF a(1)] obtain ln p lf where "p \<in> set ls" "ptr s a = Some p" by (rule attachedE)
    then show "\<exists>p\<in>set ls. lm (pheap s) p k = Some v" using tm a(2) by auto
  next
    assume "\<exists>p\<in>set ls. lm (pheap s) p k = Some v"
    then obtain p where p: "p \<in> set ls" "lm (pheap s) p k = Some v" by blast
    then have "lm (pheap s) p \<noteq> Map.empty" by auto
    from node [OF p(1) this] obtain a where "a \<in> set (lvs items)" "tmap s a k = Some v" using tm p(2) by auto
    then show "m k = Some v" using D(7) by (auto simp: lay_map_def)
  qed
  have "pool_inv (pool_of s) ls m"
    using D(1) ord un by (simp add: pool_inv_def pool_of_def leaves_ok_def)
  then show ?thesis by (auto simp: persistent_inv_def)
qed

section \<open>Scanning one leaf\<close>

definition is_max :: "bytes option \<Rightarrow> bytes set \<Rightarrow> bool" where
  "is_max mk S \<longleftrightarrow> (case mk of None \<Rightarrow> S = {} | Some x \<Rightarrow> terminated x \<and> cstr x \<in> S \<and> (\<forall>k\<in>S. k \<le> cstr x))"

lemma is_max_step:
  assumes "is_max mk S" "terminated x"
  shows "\<exists>b. (case mk of None \<Rightarrow> Some True | Some m \<Rightarrow> map_option (\<lambda>r. r < 0) (strcmp m x)) = Some b \<and>
     is_max (if b then Some x else mk) (insert (cstr x) S)"
proof (cases mk)
  case None
  then show ?thesis using assms by (intro exI [of _ True]) (simp add: is_max_def)
next
  case (Some y)
  then have y: "terminated y" "cstr y \<in> S" "\<forall>k\<in>S. k \<le> cstr y" using assms(1) by (simp_all add: is_max_def)
  obtain c where c: "strcmp y x = Some c" "c < 0 \<longleftrightarrow> cstr y < cstr x" by (rule strcmp_total [OF y(1) assms(2)])
  have "is_max (if cstr y < cstr x then Some x else mk) (insert (cstr x) S)"
    using y assms(2) Some by (auto simp: is_max_def not_less intro: order_trans less_imp_le)
  then show ?thesis using c Some by simp
qed

lemma scan_leaf_ok:
  assumes "leaf_ok lf" "n \<le> NODE_KEYS" "length hs = NODE_KEYS" "is_max mk S"
  shows "\<exists>hs' mk'. scan_leaf lf n hs mk = Some (hs', mk') \<and> length hs' = NODE_KEYS \<and>
     (\<forall>i<NODE_KEYS. hs' ! i = (if i < n then phashes lf ! i else hs ! i)) \<and>
     is_max mk' (S \<union> {key_at lf i |i. i < n \<and> live lf i})"
  using assms(2-4)
proof (induction n arbitrary: hs mk S)
  case (Suc n)
  note ok = leaf_okD [OF assms(1)]
  have n: "n < NODE_KEYS" "n \<le> NODE_KEYS" using Suc.prems by auto
  let ?hs = "hs[n := phashes lf ! n]"
  have nth: "(if i < n then phashes lf ! i else ?hs ! i) = (if i < Suc n then phashes lf ! i else hs ! i)" if "i < NODE_KEYS" for i
    using that Suc.prems(2) by (auto simp: nth_list_update less_Suc_eq)
  show ?case
  proof (cases "phashes lf ! n = 0")
    case True
    then have "{key_at lf i |i. i < Suc n \<and> live lf i} = {key_at lf i |i. i < n \<and> live lf i}"
      by (auto simp: live_def less_Suc_eq)
    moreover have "scan_leaf lf (Suc n) hs mk = scan_leaf lf n ?hs mk" using True n ok by (simp add: Let_def)
    ultimately show ?thesis using Suc.IH [OF n(2), of ?hs mk S] Suc.prems nth by simp
  next
    case False
    then have live: "live lf n" using n by (simp add: live_def)
    obtain b where b: "(case mk of None \<Rightarrow> Some True | Some m \<Rightarrow> map_option (\<lambda>r. r < 0) (strcmp m (data (kv_keys lf ! n)))) = Some b"
      "is_max (if b then Some (data (kv_keys lf ! n)) else mk) (insert (key_at lf n) S)"
      using is_max_step [OF Suc.prems(3), of "data (kv_keys lf ! n)"] ok(4) [OF n(1)] by (auto simp: key_at_def content_def)
    have "scan_leaf lf (Suc n) hs mk = scan_leaf lf n ?hs (if b then Some (data (kv_keys lf ! n)) else mk)"
      using False n ok b(1) by (simp add: Let_def)
    moreover have "insert (key_at lf n) S \<union> {key_at lf i |i. i < n \<and> live lf i} = S \<union> {key_at lf i |i. i < Suc n \<and> live lf i}"
      using live by (auto simp: less_Suc_eq)
    ultimately show ?thesis using Suc.IH [OF n(2) _ b(2), of ?hs] Suc.prems(2) nth by simp
  qed
qed simp

lemma leaf_keys: "leaf_ok lf \<Longrightarrow> dom (leaf_map lf) = {key_at lf i |i. i < NODE_KEYS \<and> live lf i}"
  using leaf_map_Some [of lf] by (auto simp: dom_def live_less)

lemma scan_leaf_full:
  assumes "leaf_ok lf"
  shows "\<exists>mk. scan_leaf lf NODE_KEYS (hashes new_ScreeDBLeafNode) None = Some (phashes lf, mk) \<and> is_max mk (dom (leaf_map lf))"
proof -
  have "is_max None {}" "length (hashes new_ScreeDBLeafNode) = NODE_KEYS" by (simp_all add: is_max_def new_ScreeDBLeafNode_def)
  from scan_leaf_ok [OF assms order_refl this(2,1)] obtain hs mk where
    r: "scan_leaf lf NODE_KEYS (hashes new_ScreeDBLeafNode) None = Some (hs, mk)" "length hs = NODE_KEYS"
    "\<forall>i<NODE_KEYS. hs ! i = phashes lf ! i" "is_max mk (dom (leaf_map lf))"
    unfolding leaf_keys [OF assms] by auto
  moreover have "hs = phashes lf" using r(2,3) leaf_okD(1) [OF assms] by (intro nth_equalityI) auto
  ultimately show ?thesis by blast
qed

section \<open>Collecting the leaves\<close>

definition recovered :: "ScreeDBTree \<Rightarrow> nat \<Rightarrow> bytes \<Rightarrow> bool" where
  "recovered s b mk \<longleftrightarrow> (\<exists>ln p lf. leafnode_at (vheap s) b = Some ln \<and> is_leaf ln \<and> parent ln = None \<and> leaf ln = Some p \<and>
     pheap s p = Some lf \<and> shadows ln lf \<and> is_max (Some mk) (dom (leaf_map lf)))"

definition grown :: "ScreeDBTree \<Rightarrow> ScreeDBTree \<Rightarrow> bool" where
  "grown s s' \<longleftrightarrow> pheap s' = pheap s \<and> pnext s' = pnext s \<and> proot s' = proot s \<and> top_node s' = top_node s \<and>
     vnext s \<le> vnext s' \<and> (\<forall>a<vnext s. vheap s' a = vheap s a)"

lemma grown_trans: "grown s s' \<Longrightarrow> grown s' s'' \<Longrightarrow> grown s s''"
  unfolding grown_def by auto

lemma grown_leafnode: "grown s s' \<Longrightarrow> b < vnext s \<Longrightarrow> leafnode_at (vheap s') b = leafnode_at (vheap s) b"
  by (simp add: grown_def leafnode_at_def)

lemma collect_leaves_ok:
  assumes "chain (pheap s) p ls" "\<forall>q\<in>set ls. \<exists>lf. pheap s q = Some lf \<and> leaf_ok lf"
  shows "\<exists>new s'. collect_leaves p s acc = Some (acc @ new, s') \<and> grown s s' \<and>
     map (\<lambda>(b, mk). ptr s' b) new = map Some (filter (\<lambda>q. lm (pheap s) q \<noteq> Map.empty) ls) \<and>
     (\<forall>(b, mk)\<in>set new. vnext s \<le> b \<and> b < vnext s' \<and> recovered s' b mk) \<and> distinct (map fst new)"
  using assms
proof (induction ls arbitrary: p s acc)
  case Nil
  then have "collect_leaves p s acc = Some (acc, s)" by (subst collect_leaves.simps) simp
  then show ?case by (auto simp: grown_def)
next
  case (Cons q ls)
  from Cons.prems obtain lf where lf: "pheap s q = Some lf" "leaf_ok lf" "p = Some q" "chain (pheap s) (next_leaf lf) ls"
    by auto
  from scan_leaf_full [OF lf(2)] obtain mk where mk:
    "scan_leaf lf NODE_KEYS (hashes new_ScreeDBLeafNode) None = Some (phashes lf, mk)" "is_max mk (dom (leaf_map lf))" by blast
  let ?b = "vnext s" and ?ln = "new_ScreeDBLeafNode\<lparr>leaf := Some q, is_leaf := True, hashes := phashes lf\<rparr>"
  let ?acc = "case mk of None \<Rightarrow> acc | Some m \<Rightarrow> acc @ [(?b, m)]"
  define s1 where "s1 = s\<lparr>vheap := (vheap s)(?b \<mapsto> VLeaf ?ln), vnext := Suc ?b\<rparr>"
  have step: "collect_leaves p s acc = collect_leaves (next_leaf lf) s1 ?acc"
    by (subst collect_leaves.simps) (simp add: lf(1,3) mk(1) s1_def Let_def)
  have s1: "pheap s1 = pheap s" "vnext s1 = Suc ?b" "leafnode_at (vheap s1) ?b = Some ?ln"
    by (simp_all add: s1_def leafnode_at_def)
  have g1: "grown s s1" by (simp add: grown_def s1_def)
  from Cons.IH [of s1 "next_leaf lf" ?acc] lf(4) Cons.prems(2) obtain new s' where r:
    "collect_leaves (next_leaf lf) s1 ?acc = Some (?acc @ new, s')" "grown s1 s'"
    "map (\<lambda>(b, mk). ptr s' b) new = map Some (filter (\<lambda>q. lm (pheap s) q \<noteq> Map.empty) ls)"
    "\<forall>(b, mk)\<in>set new. Suc ?b \<le> b \<and> b < vnext s' \<and> recovered s' b mk" "distinct (map fst new)"
    unfolding s1(1,2) by auto
  have g: "grown s s'" using grown_trans [OF g1 r(2)] .
  have b: "leafnode_at (vheap s') ?b = Some ?ln" "pheap s' = pheap s" "?b < vnext s'"
    using grown_leafnode [OF r(2), of ?b] s1 r(2) by (simp_all add: grown_def)
  have new: "\<forall>(b, mk)\<in>set new. vnext s \<le> b \<and> b < vnext s' \<and> recovered s' b mk" using r(4) by auto
  show ?case
  proof (cases mk)
    case None
    then have "leaf_map lf = Map.empty" using mk(2) by (simp add: is_max_def)
    then show ?thesis using step r(1,3,5) g new None lf(1) by (intro exI [of _ new] exI [of _ s']) (simp add: lm_def)
  next
    case (Some m)
    then have ne: "leaf_map lf \<noteq> Map.empty" using mk(2) by (auto simp: is_max_def)
    have "recovered s' ?b m"
      unfolding recovered_def using b(1,2) lf(1,2) mk(2) Some
      by (intro exI [of _ ?ln] exI [of _ q] exI [of _ lf]) (simp add: shadows_def new_ScreeDBLeafNode_def)
    moreover have "ptr s' ?b = Some q" using b(1) by (simp add: ptr_def)
    moreover have "?b \<notin> fst ` set new" using r(4) by force
    ultimately show ?thesis using step r(1,3,5) g new b(3) Some lf(1) ne
      by (intro exI [of _ "(?b, m) # new"] exI [of _ s']) (simp add: lm_def)
  qed
qed

section \<open>Linking the leaves\<close>

fun woven :: "(nat \<times> bytes) list \<Rightarrow> item list" where
  "woven [] = []"
| "woven [(a, mk)] = [L a]"
| "woven ((a, mk) # x # xs) = L a # K (cstr mk) # woven (x # xs)"

lemma weave_item: "length xs = Suc (length ks) \<Longrightarrow> x \<in> set xs \<Longrightarrow> set x \<subseteq> set (weave xs ks)"
  by (induction xs ks rule: weave.induct) auto

lemma flat_leafnode: "rep h p t \<Longrightarrow> L a \<in> set (flat t) \<Longrightarrow> \<exists>l. leafnode_at h a = Some l"
proof (induction t arbitrary: p)
  case (GInner b ks ts)
  then obtain t where "t \<in> set ts" "L a \<in> set (flat t)" by (auto dest!: item_weave)
  with GInner show ?case by auto
qed (auto simp: leafnode_at_def)

lemma leafnode_in_tree: "rep h p t \<Longrightarrow> b \<in> set (gaddrs t) \<Longrightarrow> leafnode_at h b = Some l \<Longrightarrow> L b \<in> set (flat t)"
proof (induction t arbitrary: p)
  case (GInner a ks ts)
  then have ne: "b \<noteq> a" by (auto simp: node_rep_def leafnode_at_def)
  with GInner obtain t where t: "t \<in> set ts" "L b \<in> set (flat t)" by auto
  have "length (map flat ts) = Suc (length ks)" using GInner.prems(1) by (auto simp: node_rep_def)
  from weave_item [OF this, of "flat t"] show ?case using t by auto
qed auto

lemma link_leaves_ok:
  assumes "tree_ok s t" "flat t = X @ [L a]" "distinct (map fst ((a, mk) # rest))"
    "\<forall>(b, y)\<in>set rest. b < vnext s \<and> L b \<notin> set X \<and> (\<exists>l. leafnode_at (vheap s) b = Some l \<and> is_leaf l)"
    "\<forall>(b, y)\<in>set ((a, mk) # rest). terminated y"
    "sorted_wrt (<) (seps X @ map (\<lambda>(b, y). cstr y) ((a, mk) # rest))"
  shows "\<exists>s' t'. link_leaves ((a, mk) # rest) s = Some s' \<and> tree_ok s' t' \<and> flat t' = X @ woven ((a, mk) # rest) \<and> volatile_step s s'"
  using assms
proof (induction rest arbitrary: s t X a mk)
  case Nil
  then have "top_node s \<noteq> None" by (simp add: tree_ok_def)
  then show ?case using Nil by (auto simp: volatile_step_def)
next
  case (Cons x rest)
  obtain b y where x: "x = (b, y)" by (cases x)
  have top: "top_node s \<noteq> None" "rep (vheap s) None t" using Cons.prems(1) by (simp_all add: tree_ok_def)
  from flat_leafnode [OF top(2), of a] Cons.prems(2) obtain la where la: "leafnode_at (vheap s) a = Some la" by auto
  from Cons.prems(4) obtain lb where lb: "leafnode_at (vheap s) b = Some lb" "is_leaf lb" "b < vnext s" "L b \<notin> set X" by (auto simp: x)
  have ab: "a \<noteq> b" using Cons.prems(3) by (simp add: x)
  have nb: "b \<notin> set (gaddrs t)" using leafnode_in_tree [OF top(2) _ lb(1)] lb(4) ab Cons.prems(2) by auto
  define s1 where "s1 = s\<lparr>vheap := (vheap s)(b \<mapsto> VLeaf (lb\<lparr>parent := parent la\<rparr>))\<rparr>"
  have at: "leafnode_at (vheap s1) a = Some la" "leafnode_at (vheap s1) b = Some (lb\<lparr>parent := parent la\<rparr>)"
    using la ab by (simp_all add: s1_def leafnode_at_def)
  have "rep (vheap s1) None t = rep (vheap s) None t" by (rule rep_cong) (use nb in \<open>auto simp: s1_def\<close>)
  then have t1: "tree_ok s1 t" using Cons.prems(1) by (simp add: tree_ok_def) (simp add: s1_def)
  have v1: "volatile_step s s1"
    using lb(1) by (auto simp: volatile_step_def s1_def same_leaves_def leafnode_at_def)
  have srt: "sorted_wrt (<) (seps X @ cstr mk # seps [])"
    using Cons.prems(6) by (auto simp: sorted_wrt_append)
  obtain s2 t2 where s2: "LeafUpdateParentsAfterSplit a b (cstr mk) s1 = Some s2" "tree_ok s2 t2"
    "flat t2 = X @ L a # K (cstr mk) # L b # []" "volatile_step s1 s2"
    using update_parents_leaf [OF t1 Cons.prems(2) at _ _ nb _ srt] lb(2,3) by (auto simp: s1_def)
  have v2: "volatile_step s s2" using volatile_step_trans [OF v1 s2(4)] .
  have nodes: "\<forall>(c, z)\<in>set rest. c < vnext s2 \<and> L c \<notin> set (X @ [L a, K (cstr mk)]) \<and> (\<exists>l. leafnode_at (vheap s2) c = Some l \<and> is_leaf l)"
  proof (clarify)
    fix c z assume cz: "(c, z) \<in> set rest"
    then have c: "c < vnext s" "L c \<notin> set X" "c \<noteq> a" using Cons.prems(3,4) by (auto simp: x) force
    from cz Cons.prems(4) obtain lc where "leafnode_at (vheap s) c = Some lc" "is_leaf lc" by auto
    then have "\<exists>l. leafnode_at (vheap s2) c = Some l \<and> is_leaf l"
      using same_leavesD [of "vnext s" "vheap s" "vheap s2" c lc] v2 c(1) by (auto simp: volatile_step_def)
    then show "c < vnext s2 \<and> L c \<notin> set (X @ [L a, K (cstr mk)]) \<and> (\<exists>l. leafnode_at (vheap s2) c = Some l \<and> is_leaf l)"
      using c v2 by (auto simp: volatile_step_def)
  qed
  have "\<exists>s' t'. link_leaves ((b, y) # rest) s2 = Some s' \<and> tree_ok s' t' \<and>
      flat t' = (X @ [L a, K (cstr mk)]) @ woven ((b, y) # rest) \<and> volatile_step s2 s'"
    by (rule Cons.IH [OF s2(2) _ _ nodes]) (use s2(3) Cons.prems(3,5,6) in \<open>auto simp: x sorted_wrt_append\<close>)
  then obtain s' t' where r: "link_leaves ((b, y) # rest) s2 = Some s'" "tree_ok s' t'"
      "flat t' = X @ woven ((a, mk) # (b, y) # rest)" "volatile_step s2 s'" by auto
  have "link_leaves ((a, mk) # (b, y) # rest) s = Some s'"
    using top(1) la lb(1) s2(1) r(1) Cons.prems(5) by (auto simp: s1_def)
  then show ?case using r volatile_step_trans [OF v2 r(4)] x by blast
qed

section \<open>Recovery keeps the map\<close>

lemma woven_split:
  "woven R = X @ L b # Y \<Longrightarrow> \<exists>R1 y R2. R = R1 @ (b, y) # R2 \<and> set (seps X) = (\<lambda>(a, x). cstr x) ` set R1 \<and>
     set (seps Y) \<subseteq> (\<lambda>(a, x). cstr x) ` set ((b, y) # R2)"
proof (induction R arbitrary: X rule: woven.induct)
  case (2 a mk)
  then show ?case by (cases X) auto
next
  case (3 a mk x xs)
  show ?case
  proof (cases X)
    case Nil
    have "set (seps (woven R)) \<subseteq> (\<lambda>(a, x). cstr x) ` set R" for R
      by (induction R rule: woven.induct) auto
    from this [of "x # xs"] 3(2) Nil show ?thesis by (intro exI [of _ "[]"] exI [of _ mk] exI [of _ "x # xs"]) auto
  next
    case (Cons i X')
    then obtain X2 where X2: "X = L a # K (cstr mk) # X2" "woven (x # xs) = X2 @ L b # Y"
      using 3(2) by (cases X') auto
    from 3(1) [OF X2(2)] obtain R1 y R2 where "x # xs = R1 @ (b, y) # R2" "set (seps X2) = (\<lambda>(a, x). cstr x) ` set R1"
      "set (seps Y) \<subseteq> (\<lambda>(a, x). cstr x) ` set ((b, y) # R2)" by blast
    then show ?thesis using X2(1) by (intro exI [of _ "(a, mk) # R1"] exI [of _ y] exI [of _ R2]) simp
  qed
qed simp

lemma lvs_woven: "lvs (woven R) = map fst R"
  by (induction R rule: woven.induct) auto

lemma seps_woven: "seps (woven R) = butlast (map (\<lambda>(a, x). cstr x) R)"
  by (induction R rule: woven.induct) auto

lemma apart_woven: "apart (woven R)"
  by (induction R rule: woven.induct) auto

lemma lay_woven:
  assumes "distinct (map fst R)" "sorted_wrt (\<lambda>(a, x) (b, y). cstr x < cstr y \<and> (\<forall>k\<in>dom (f b). cstr x < k)) R"
    "\<forall>(a, x)\<in>set R. \<forall>k\<in>dom (f a). k \<le> cstr x"
  shows "lay_ok (woven R) f"
proof -
  have "(\<forall>x\<in>set (seps X). x < k) \<and> (\<forall>y\<in>set (seps Y). k \<le> y)" if "woven R = X @ L b # Y" "k \<in> dom (f b)" for X b Y k
  proof -
    from woven_split [OF that(1)] obtain R1 y R2 where r: "R = R1 @ (b, y) # R2"
      "set (seps X) = (\<lambda>(a, x). cstr x) ` set R1" "set (seps Y) \<subseteq> (\<lambda>(a, x). cstr x) ` set ((b, y) # R2)" by blast
    have ky: "k \<le> cstr y" using assms(3) r(1) that(2) by auto
    note srt = assms(2) [unfolded r(1) sorted_wrt_append sorted_wrt.simps]
    have "k \<le> z" if "z \<in> set (seps Y)" for z
    proof -
      from that r(3) have "z \<in> (\<lambda>(a, x). cstr x) ` set ((b, y) # R2)" by blast
      then obtain c w where cw: "(c, w) \<in> set ((b, y) # R2)" "z = cstr w" by auto
      then have "cstr y \<le> cstr w" using srt by (cases "(c, w) = (b, y)") (auto intro: less_imp_le)
      with ky cw(2) show ?thesis by (simp add: order_trans [of k "cstr y"])
    qed
    moreover have "z < k" if "z \<in> set (seps X)" for z
    proof -
      from that r(2) obtain c w where cw: "(c, w) \<in> set R1" "z = cstr w" by auto
      then have "\<forall>j\<in>dom (f b). cstr w < j" using srt by (auto dest: bspec [where x = "(c, w)"])
      then show ?thesis using cw(2) \<open>k \<in> dom (f b)\<close> by simp
    qed
    ultimately show ?thesis by blast
  qed
  moreover have "sorted_wrt (<) (map (\<lambda>(a, x). cstr x) R)"
    unfolding sorted_wrt_map by (rule sorted_wrt_mono_rel [OF _ assms(2)]) auto
  then have "sorted_wrt (<) (seps (woven R))"
    unfolding seps_woven by (simp add: butlast_conv_take sorted_wrt_take)
  moreover have "\<forall>k\<in>set (seps (woven R)). 0 \<notin> set k" unfolding seps_woven by (auto dest!: in_set_butlastD)
  ultimately show ?thesis using apart_woven assms(1) by (auto simp: lay_ok_def lvs_woven)
qed

lemma chain_fun: "chain P p ls \<Longrightarrow> chain P p ls' \<Longrightarrow> ls' = ls"
proof (induction ls arbitrary: p ls')
  case Nil
  then show ?case by (cases ls') auto
next
  case (Cons q ls)
  then show ?case by (cases ls') auto
qed

lemma chain_suffix: "chain P p (A @ q # B) \<Longrightarrow> chain P (Some q) (q # B)"
  by (induction A arbitrary: p) auto

lemma chain_distinct: "chain P p ls \<Longrightarrow> distinct ls"
proof (rule ccontr)
  assume c: "chain P p ls" and "\<not> distinct ls"
  then obtain A q B C where ls: "ls = A @ q # B @ q # C" using not_distinct_decomp [of ls] by auto
  have "chain P (Some q) (q # B @ q # C)" "chain P (Some q) (q # C)"
    using chain_suffix [of P p A q "B @ q # C"] chain_suffix [of P p "A @ q # B" q C] c ls by simp_all
  from chain_fun [OF this] have "length C = length (B @ q # C)" by simp
  then show False by simp
qed

text \<open>The leaves that were collected, seen as a layout: sorted by their highest keys they are in order.\<close>

lemma collected_sorted:
  assumes new: "map (\<lambda>(b, mk). ptr s b) new = map Some (filter (\<lambda>q. lm (pheap s) q \<noteq> Map.empty) ls)"
    "\<forall>(b, mk)\<in>set new. recovered s b mk" "distinct (map fst new)"
    and ls: "distinct ls" "\<And>p q. p \<in> set ls \<Longrightarrow> q \<in> set ls \<Longrightarrow> p \<noteq> q \<Longrightarrow> key_order (lm (pheap s)) p q \<or> key_order (lm (pheap s)) q p"
    and R: "R = sort_key (\<lambda>(a, mk). cstr mk) new"
  shows "sorted_wrt (\<lambda>(a, x) (b, y). cstr x < cstr y \<and> (\<forall>k\<in>dom (tmap s b). cstr x < k)) R"
    "\<forall>(a, x)\<in>set R. \<forall>k\<in>dom (tmap s a). k \<le> cstr x" "inj_on (ptr s) (fst ` set R)" "distinct (map fst R)"
proof -
  have sR: "set R = set new" by (simp add: R)
  have F: "\<exists>p\<in>set ls. ptr s b = Some p \<and> tmap s b = lm (pheap s) p \<and> cstr x \<in> dom (tmap s b) \<and> (\<forall>k\<in>dom (tmap s b). k \<le> cstr x)"
    if "(b, x) \<in> set R" for b x
  proof -
    from that new(2) sR obtain ln p lf where r: "leafnode_at (vheap s) b = Some ln" "leaf ln = Some p" "pheap s p = Some lf"
      "is_max (Some x) (dom (leaf_map lf))" by (auto simp: recovered_def)
    have pt: "ptr s b = Some p" using r by (simp add: ptr_def)
    have "ptr s b \<in> set (map (\<lambda>(b, mk). ptr s b) new)" using that sR by force
    then have "p \<in> set ls" unfolding new(1) by (auto simp: pt)
    then show ?thesis using pt r(3,4) by (auto simp: tmap_def lm_def leaf_at_def is_max_def)
  qed
  have "distinct (map (\<lambda>(b, mk). ptr s b) new)" unfolding new(1) using ls(1) by (simp add: distinct_map inj_on_def)
  then have inj: "(b, x) = (c, y)" if "(b, x) \<in> set R" "(c, y) \<in> set R" "ptr s b = ptr s c" for b x c y
    using that inj_onD [of "\<lambda>(b, mk). ptr s b" "set new" "(b, x)" "(c, y)"] unfolding distinct_map sR by simp
  then show "inj_on (ptr s) (fst ` set R)" by (auto intro!: inj_onI)
  have less: "(cstr x < cstr y \<longrightarrow> (\<forall>k\<in>dom (tmap s c). cstr x < k)) \<and> cstr x \<noteq> cstr y"
    if bc: "(b, x) \<in> set R" "(c, y) \<in> set R" "(b, x) \<noteq> (c, y)" for b x c y
  proof -
    from F [OF bc(1)] obtain p where p: "p \<in> set ls" "ptr s b = Some p" "tmap s b = lm (pheap s) p" "cstr x \<in> dom (tmap s b)" by blast
    from F [OF bc(2)] obtain q where q: "q \<in> set ls" "ptr s c = Some q" "tmap s c = lm (pheap s) q" "cstr y \<in> dom (tmap s c)" by blast
    have "p \<noteq> q" using inj [OF bc(1,2)] bc(3) p(2) q(2) by auto
    from ls(2) [OF p(1) q(1) this] show ?thesis
    proof
      assume "key_order (lm (pheap s)) p q"
      then have "cstr x < cstr y" "\<forall>k\<in>dom (tmap s c). cstr x < k" using p(3,4) q(3,4) by (auto simp: key_order_def)
      then show ?thesis by auto
    next
      assume "key_order (lm (pheap s)) q p"
      then have "cstr y < cstr x" using p(3,4) q(3,4) by (auto simp: key_order_def)
      then show ?thesis by auto
    qed
  qed
  have dR: "distinct R" "distinct (map fst R)" using new(3) by (simp_all add: R distinct_map)
  then show "distinct (map fst R)" by blast
  have "inj_on (\<lambda>(a, mk). cstr mk) (set R)" using less by (auto intro!: inj_onI)
  then have "distinct (map (\<lambda>(a, mk). cstr mk) R)" using dR(1) by (simp add: distinct_map)
  moreover have "sorted (map (\<lambda>(a, mk). cstr mk) R)" unfolding R by (rule sorted_sort_key)
  ultimately have "sorted_wrt (<) (map (\<lambda>(a, mk). cstr mk) R)" by (simp add: strict_sorted_iff)
  then show "sorted_wrt (\<lambda>(a, x) (b, y). cstr x < cstr y \<and> (\<forall>k\<in>dom (tmap s b). cstr x < k)) R"
    unfolding sorted_wrt_map by (rule sorted_wrt_mono_rel [rotated]) (use less in force)
  show "\<forall>(a, x)\<in>set R. \<forall>k\<in>dom (tmap s a). k \<le> cstr x" using F by blast
qed

lemma link_leaves_top:
  "top_node s = None \<Longrightarrow> link_leaves ((a, mk) # rest) s = link_leaves ((a, mk) # rest) (s\<lparr>top_node := Some a\<rparr>)"
  by (cases rest) (auto simp: Let_def)

lemma rebuilt_inv:
  assumes I: "pool_inv (pool_of s) ls m" "pool_of s' = pool_of s"
    and new: "map (\<lambda>(b, mk). ptr s b) new = map Some (filter (\<lambda>q. lm (pheap s) q \<noteq> Map.empty) ls)"
      "\<forall>(b, mk)\<in>set new. b < vnext s \<and> recovered s b mk" "distinct (map fst new)"
    and R: "R = sort_key (\<lambda>(a, mk). cstr mk) new"
    and s': "vtree s' (woven R)" "volatile_step s s'"
  shows "db_inv s' ls (woven R) m"
proof -
  let ?P = "pheap s"
  have J: "chain ?P (head (proot s)) ls" "\<And>p. p \<in> set ls \<Longrightarrow> p < pnext s \<and> (\<exists>lf. ?P p = Some lf \<and> leaf_ok lf)"
    "\<And>p q. p \<in> set ls \<Longrightarrow> q \<in> set ls \<Longrightarrow> p \<noteq> q \<Longrightarrow> key_order (lm ?P) p q \<or> key_order (lm ?P) q p"
    "\<And>k v. m k = Some v \<longleftrightarrow> (\<exists>p\<in>set ls. lm ?P p k = Some v)"
    using I(1) by (auto simp: pool_inv_def pool_of_def)
  have same: "pheap s' = ?P" "pnext s' = pnext s" "proot s' = proot s" using I(2) by (simp_all add: pool_of_def)
  have rec: "\<forall>(b, mk)\<in>set new. recovered s b mk" using new(2) by auto
  note S = collected_sorted [OF new(1) rec new(3) chain_distinct [OF J(1)] J(3) R]
  have sR: "set R = set new" by (simp add: R)
  have lv: "set (lvs (woven R)) = fst ` set R" by (simp add: lvs_woven)
  have ptrs: "ptr s ` fst ` set R = Some ` {q \<in> set ls. lm ?P q \<noteq> Map.empty}"
    using arg_cong [OF new(1), of set] by (simp add: sR image_image split_beta)
  have node: "\<exists>ln. leafnode_at (vheap s) b = Some ln" "b < vnext s" "attached s ls b" if "b \<in> fst ` set R" for b
  proof -
    from that obtain mk where b: "(b, mk) \<in> set new" by (auto simp: sR)
    then obtain ln p lf where r: "leafnode_at (vheap s) b = Some ln" "leaf ln = Some p" "?P p = Some lf" "shadows ln lf"
      using new(2) by (auto simp: recovered_def)
    moreover have "p \<in> set ls" using ptrs that r(1,2) by (force simp: ptr_def)
    ultimately show "\<exists>ln. leafnode_at (vheap s) b = Some ln" "attached s ls b" by (auto simp: attached_def)
    show "b < vnext s" using b new(2) by auto
  qed
  have V: "ptr s' b = ptr s b" "attached s' ls b" "tmap s' b = tmap s b" if "b \<in> fst ` set R" for b
    using volatile_step_leaf(2-4) [OF s'(2)] node [OF that] by blast+
  have tm: "tmap s b = lm ?P p" if "ptr s b = Some p" for b p
    using that by (auto simp: tmap_def lm_def leaf_at_def split: option.splits)
  have "leaves_ok s' ls" using J(1,2) by (auto simp: leaves_ok_def same)
  moreover have "inj_on (ptr s') (set (lvs (woven R)))" using S(3) V(1) unfolding lv by (simp cong: inj_on_cong)
  moreover have "leaf_map (the (pheap s' p)) = Map.empty" if "p \<in> set ls" "Some p \<notin> ptr s' ` set (lvs (woven R))" for p
  proof -
    have "ptr s' ` set (lvs (woven R)) = Some ` {q \<in> set ls. lm ?P q \<noteq> Map.empty}" unfolding lv using V(1) ptrs by force
    with that have "lm ?P p = Map.empty" by auto
    then show ?thesis using J(2) [OF that(1)] by (auto simp: same lm_def)
  qed
  moreover have "lay_ok (woven R) (tmap s')"
  proof (rule lay_woven)
    show "distinct (map fst R)" by (rule S(4))
    show "sorted_wrt (\<lambda>(a, x) (b, y). cstr x < cstr y \<and> (\<forall>k\<in>dom (tmap s' b). cstr x < k)) R"
      by (rule sorted_wrt_mono_rel [OF _ S(1)]) (use V(3) in force)
    show "\<forall>(a, x)\<in>set R. \<forall>k\<in>dom (tmap s' a). k \<le> cstr x" using S(2) V(3) by force
  qed
  moreover have "lay_map (woven R) (tmap s') m"
    unfolding lay_map_def lv
  proof (intro allI)
    fix k v
    have "(\<exists>p\<in>set ls. lm ?P p k = Some v) \<longleftrightarrow> (\<exists>p\<in>{q \<in> set ls. lm ?P q \<noteq> Map.empty}. lm ?P p k = Some v)" by auto
    also have "\<dots> \<longleftrightarrow> (\<exists>b\<in>fst ` set R. tmap s b k = Some v)"
    proof
      assume "\<exists>p\<in>{q \<in> set ls. lm ?P q \<noteq> Map.empty}. lm ?P p k = Some v"
      then obtain p where p: "Some p \<in> ptr s ` fst ` set R" "lm ?P p k = Some v" unfolding ptrs by auto
      then obtain b where "b \<in> fst ` set R" "ptr s b = Some p" by (metis imageE)
      then show "\<exists>b\<in>fst ` set R. tmap s b k = Some v" using p(2) tm by metis
    next
      assume "\<exists>b\<in>fst ` set R. tmap s b k = Some v"
      then obtain b where b: "b \<in> fst ` set R" "tmap s b k = Some v" by blast
      then have "ptr s b \<in> Some ` {q \<in> set ls. lm ?P q \<noteq> Map.empty}" unfolding ptrs [symmetric] by blast
      then show "\<exists>p\<in>{q \<in> set ls. lm ?P q \<noteq> Map.empty}. lm ?P p k = Some v" using b(2) tm by auto
    qed
    also have "\<dots> \<longleftrightarrow> (\<exists>b\<in>fst ` set R. tmap s' b k = Some v)" using V(3) by (metis (no_types, lifting))
    finally show "m k = Some v \<longleftrightarrow> (\<exists>b\<in>fst ` set R. tmap s' b k = Some v)" using J(4) by simp
  qed
  ultimately show ?thesis using s'(1) V(2) unfolding db_inv_def lv by blast
qed

lemma RebuildNodes_ok:
  assumes "pool_inv (pool_of s) ls m" "top_node s = None"
  shows "\<exists>s'. RebuildNodes s = Some s' \<and> dbR s' m \<and> pool_of s' = pool_of s"
proof -
  have I: "chain (pheap s) (head (proot s)) ls" "\<forall>p\<in>set ls. \<exists>lf. pheap s p = Some lf \<and> leaf_ok lf"
    using assms(1) by (auto simp: pool_inv_def pool_of_def)
  from collect_leaves_ok [OF I, of "[]"] obtain new s1 where c:
    "collect_leaves (head (proot s)) s [] = Some (new, s1)" "grown s s1"
    "map (\<lambda>(b, mk). ptr s1 b) new = map Some (filter (\<lambda>q. lm (pheap s) q \<noteq> Map.empty) ls)"
    "\<forall>(b, mk)\<in>set new. vnext s \<le> b \<and> b < vnext s1 \<and> recovered s1 b mk" "distinct (map fst new)" by auto
  have g: "pool_of s1 = pool_of s" "pheap s1 = pheap s" "top_node s1 = None"
    using c(2) assms(2) by (simp_all add: grown_def pool_of_def)
  define R where "R = sort_key (\<lambda>(a, mk). cstr mk) new"
  have new: "\<forall>(b, mk)\<in>set new. b < vnext s1 \<and> recovered s1 b mk" using c(4) by auto
  have trm: "\<forall>(b, mk)\<in>set R. terminated mk" using new by (auto simp: R_def recovered_def is_max_def)
  have eq: "s1\<lparr>top_node := None\<rparr> = s1" using g(3) by (cases s1) simp
  have ev: "RebuildNodes s = link_leaves R s1"
    using c(1) trm by (simp add: RebuildNodes_def R_def list_all_iff eq)
  note inv = rebuilt_inv [OF assms(1) [folded g(1)] _ c(3) [folded g(2)] new c(5) R_def]
  show ?thesis
  proof (cases R)
    case Nil
    then have "db_inv s1 ls (woven R) m" using g(3) by (intro inv) (simp_all add: vtree_def volatile_step_def)
    then show ?thesis using ev Nil g(1) by (auto simp: dbR_def)
  next
    case (Cons x rest)
    obtain a mk where x: "x = (a, mk)" by (cases x)
    let ?s2 = "s1\<lparr>top_node := Some a\<rparr>"
    have dR: "distinct (map fst R)" "set R = set new" using c(5) by (simp_all add: R_def distinct_map)
    have ra: "a < vnext s1" "recovered s1 a mk" using new Cons dR(2) by (auto simp: x)
    then have t2: "tree_ok ?s2 (GLeaf a)"
      by (auto simp: tree_ok_def recovered_def leafnode_at_def split: option.splits vnode.splits)
    have srt: "sorted_wrt (<) (map (\<lambda>(a, x). cstr x) R)"
    proof -
      have "pool_inv (pool_of s1) ls m" using assms(1) g(1) by simp
      then have ord: "key_order (lm (pheap s1)) p q \<or> key_order (lm (pheap s1)) q p" if "p \<in> set ls" "q \<in> set ls" "p \<noteq> q" for p q
        using that by (simp add: pool_inv_def pool_of_def)
      have "\<forall>(b, mk)\<in>set new. recovered s1 b mk" using new by auto
      from collected_sorted(1) [OF c(3) [folded g(2)] this c(5) chain_distinct [OF I(1)] ord R_def]
      show ?thesis unfolding sorted_wrt_map by (rule sorted_wrt_mono_rel [rotated]) auto
    qed
    have "\<exists>s' t'. link_leaves ((a, mk) # rest) ?s2 = Some s' \<and> tree_ok s' t' \<and> flat t' = [] @ woven ((a, mk) # rest) \<and> volatile_step ?s2 s'"
    proof (rule link_leaves_ok [OF t2])
      show "\<forall>(b, y)\<in>set rest. b < vnext ?s2 \<and> L b \<notin> set [] \<and> (\<exists>l. leafnode_at (vheap ?s2) b = Some l \<and> is_leaf l)"
      proof (clarify)
        fix b y assume "(b, y) \<in> set rest"
        then have "(b, y) \<in> set new" using Cons dR(2) by auto
        then show "b < vnext ?s2 \<and> L b \<notin> set [] \<and> (\<exists>l. leafnode_at (vheap ?s2) b = Some l \<and> is_leaf l)"
          using new by (auto simp: recovered_def)
      qed
      show "distinct (map fst ((a, mk) # rest))" using dR(1) Cons x by simp
      show "\<forall>(b, y)\<in>set ((a, mk) # rest). terminated y" using trm Cons x by simp
      show "sorted_wrt (<) (seps [] @ map (\<lambda>(b, y). cstr y) ((a, mk) # rest))" using srt Cons x by simp
    qed simp
    then obtain s' t' where r: "link_leaves R ?s2 = Some s'" "tree_ok s' t'" "flat t' = woven R" "volatile_step ?s2 s'"
      using Cons x by auto
    have vt: "vtree s' (woven R)" using r(2,3) by (auto simp: vtree_def tree_ok_def split: option.splits)
    have vs: "volatile_step s1 s'" using r(4) by (simp add: volatile_step_def)
    then have ps: "pool_of s' = pool_of s1" by (simp add: volatile_step_def pool_of_def)
    have "RebuildNodes s = Some s'" using ev r(1) link_leaves_top [OF g(3), of a mk rest] Cons x by simp
    then show ?thesis using inv [OF ps vt vs] ps g(1) by (auto simp: dbR_def)
  qed
qed

lemma dbR_root:
  assumes "dbR s m" "head r = head (proot s)"
  shows "dbR (s\<lparr>proot := r\<rparr>) m"
proof -
  let ?s = "s\<lparr>proot := r\<rparr>"
  have p: "ptr ?s = ptr s" by (simp add: fun_eq_iff ptr_def)
  have "tmap ?s = tmap s" unfolding tmap_def p by simp
  moreover have "attached ?s = attached s" by (simp add: fun_eq_iff attached_def)
  moreover have "tree_ok ?s = tree_ok s" by (simp add: fun_eq_iff tree_ok_def)
  then have "vtree ?s = vtree s" unfolding vtree_def by (cases "top_node s") simp_all
  moreover have "leaves_ok ?s = leaves_ok s" using assms(2) by (simp add: fun_eq_iff leaves_ok_def)
  ultimately have "db_inv ?s ls items m = db_inv s ls items m" for ls items unfolding db_inv_def using p by simp
  then show ?thesis using assms(1) by (simp add: dbR_def)
qed

lemma persistent_inv_root: "persistent_inv pl m \<Longrightarrow> head r = head (pool_root pl) \<Longrightarrow> persistent_inv (pl\<lparr>pool_root := r\<rparr>) m"
  by (simp add: persistent_inv_def pool_inv_def)

lemma persistent_inv_new: "persistent_inv new_pool Map.empty"
  by (auto simp: persistent_inv_def pool_inv_def new_pool_def new_ScreeDBRoot_def intro!: exI [of _ "[]"])

lemma Recover_ok:
  assumes "persistent_inv (pool_of s) m" "top_node s = None"
  shows "\<exists>s'. Recover s = Some s' \<and> dbR s' m"
proof (cases "head (proot s)")
  case None
  from assms(1) obtain ls where ls: "pool_inv (pool_of s) ls m" by (auto simp: persistent_inv_def)
  then have c: "chain (pheap s) (head (proot s)) ls" "\<And>k v. m k = Some v \<longleftrightarrow> (\<exists>p\<in>set ls. lm (pheap s) p k = Some v)"
    by (auto simp: pool_inv_def pool_of_def)
  from c(1) None have e: "ls = []" by (cases ls) simp_all
  have e': "m = Map.empty" by (rule ext) (metis c(2) e empty_iff list.set(1) not_None_eq)
  let ?s = "s\<lparr>proot := (proot s)\<lparr>opened := 1, closed := 0\<rparr>\<rparr>"
  have "db_inv ?s [] [] m"
    using None assms(2) e' by (simp add: db_inv_def leaves_ok_def vtree_def lay_ok_def lay_map_def)
  then show ?thesis using None by (auto simp: Recover_def exec_tx_def dbR_def)
next
  case (Some p)
  from assms(1) obtain ls where ls: "pool_inv (pool_of s) ls m" by (auto simp: persistent_inv_def)
  from RebuildNodes_ok [OF ls assms(2)] obtain s1 where s1: "RebuildNodes s = Some s1" "dbR s1 m" by blast
  then have "Recover s = Some (s1\<lparr>proot := (proot s1)\<lparr>opened := opened (proot s1) + 1\<rparr>\<rparr>)"
    using Some by (simp add: Recover_def exec_tx_def)
  then show ?thesis using dbR_root [OF s1(2)] by simp
qed

lemma ScreeDBTree_new_ok:
  assumes "case file of None \<Rightarrow> m = Map.empty | Some pl \<Rightarrow> persistent_inv pl m"
  shows "\<exists>s. ScreeDBTree_new file = Some s \<and> dbR s m"
proof -
  let ?pl = "case file of None \<Rightarrow> new_pool | Some pl \<Rightarrow> pl"
  have "persistent_inv ?pl m" using assms persistent_inv_new by (auto split: option.splits)
  moreover have "pool_of (ScreeDBTree_init ?pl) = ?pl" by (simp add: pool_of_def ScreeDBTree_init_def)
  ultimately show ?thesis
    unfolding ScreeDBTree_new_def by (intro Recover_ok) (simp_all add: ScreeDBTree_init_def)
qed

lemma Shutdown_ok: "dbR s m \<Longrightarrow> \<exists>s'. Shutdown s = Some s' \<and> dbR s' m \<and> pheap s' = pheap s \<and> head (proot s') = head (proot s)"
  using dbR_root [of s m "(proot s)\<lparr>closed := closed (proot s) + 1\<rparr>"] by (simp add: Shutdown_def exec_tx_def)

lemma ScreeDBTree_delete_ok:
  assumes "dbR s m"
  shows "\<exists>pl. ScreeDBTree_delete s = Some pl \<and> persistent_inv pl m"
proof -
  from Shutdown_ok [OF assms] obtain s' where "Shutdown s = Some s'" "dbR s' m" by blast
  then show ?thesis using dbR_persistent by (simp add: ScreeDBTree_delete_def)
qed

end
