(* ===== verification/Scree_Alloc.thy ===== *)
theory Scree_Alloc
  imports Scree_Recovery
begin

text \<open>
  Runs in which persistent allocations may fail.  Whatever the allocator does, an operation either
  ends as it does when every allocation succeeds or it throws: no operation reads or writes memory
  it should not because of a failed allocation.  A \<open>Put\<close> that throws leaves the pool as it was.
\<close>

abbreviation all_alloc :: "nat \<Rightarrow> bool" where
  "all_alloc \<equiv> \<lambda>_. True"

text \<open>\<open>x\<close> is the run with some allocator, \<open>y\<close> the run in which every allocation succeeds.\<close>

definition agrees :: "(bool \<times> 'a) option \<Rightarrow> (bool \<times> 'a) option \<Rightarrow> bool" where
  "agrees x y \<longleftrightarrow> (\<forall>r. y = Some (True, r) \<longrightarrow> x = Some (True, r) \<or> (\<exists>r'. x = Some (False, r')))"

lemma agreesI: "(\<And>r. y = Some (True, r) \<Longrightarrow> x = Some (True, r) \<or> (\<exists>r'. x = Some (False, r'))) \<Longrightarrow> agrees x y"
  by (simp add: agrees_def)

lemma agreesE:
  assumes "agrees x y" "y = Some (True, r)"
  obtains (same) "x = Some (True, r)" | (failed) r' where "x = Some (False, r')"
  using assms by (auto simp: agrees_def)

lemma agrees_refl [simp]: "agrees x x"
  by (simp add: agrees_def)

text \<open>Sequencing: the rest of the run happens only after success.\<close>

lemma agrees_bind:
  assumes "agrees x y" "\<And>r. y = Some (True, r) \<Longrightarrow> agrees (f (True, r)) (g (True, r))"
    "\<And>r. \<exists>r'. f (False, r) = Some (False, r')" "\<And>r. \<not> (\<exists>r'. g (False, r) = Some (True, r'))"
  shows "agrees (Option.bind x f) (Option.bind y g)"
proof (rule agreesI)
  fix r assume "Option.bind y g = Some (True, r)"
  then obtain b q where y: "y = Some (b, q)" "g (b, q) = Some (True, r)" by (auto simp: bind_eq_Some_conv)
  then have b: "b = True" using assms(4) by (cases b) auto
  from assms(1) y(1) [unfolded b] show "Option.bind x f = Some (True, r) \<or> (\<exists>r'. Option.bind x f = Some (False, r'))"
  proof (cases rule: agreesE)
    case same
    then show ?thesis using assms(2) [of q] y b by (simp add: agrees_def)
  next
    case (failed r')
    then show ?thesis using assms(3) [of r'] by auto
  qed
qed

lemma agrees_bind_same: "(\<And>q. x = Some q \<Longrightarrow> agrees (f q) (g q)) \<Longrightarrow> agrees (Option.bind x f) (Option.bind x g)"
  by (cases x) (auto simp: agrees_def)

lemma set_string_agrees: "agrees (set_string alloc sl n s) (set_string all_alloc sl n s)"
  by (auto simp: agrees_def set_string_def bind_eq_Some_conv split: if_splits)

lemma LeafFillSpecificSlot_agrees:
  "agrees (LeafFillSpecificSlot alloc hash key value slot st) (LeafFillSpecificSlot all_alloc hash key value slot st)"
proof -
  obtain ln lf n where st: "st = (ln, lf, n)" by (cases st) auto
  have "agrees (if h = 0 then do { k \<leftarrow> Slice_of_cstr (data_ptr key); set_string alloc k n sk } else Some (True, n, sk))
     (if h = 0 then do { k \<leftarrow> Slice_of_cstr (data_ptr key); set_string all_alloc k n sk } else Some (True, n, sk))" for h sk
    by (auto intro: agrees_bind_same set_string_agrees)
  then show ?thesis unfolding st LeafFillSpecificSlot_def prod.case
    by (intro agrees_bind_same agrees_bind) (auto simp: Let_def intro!: agrees_bind_same agrees_bind set_string_agrees)
qed

lemma fill_first_empty_agrees:
  "agrees (fill_first_empty alloc hash key value n st) (fill_first_empty all_alloc hash key value n st)"
  by (induction n) (auto intro!: agrees_bind_same LeafFillSpecificSlot_agrees)

lemma move_string_agrees: "agrees (move_string alloc n src dst) (move_string all_alloc n src dst)"
  unfolding move_string_def
  by (auto intro!: agrees_bind_same agrees_bind set_string_agrees)

lemma split_slot_agrees: "agrees (split_slot alloc sk slot st) (split_slot all_alloc sk slot st)"
proof -
  obtain ln lf nln nlf n where st: "st = (ln, lf, nln, nlf, n)" by (rule prod_cases5)
  show ?thesis unfolding st split_slot_def prod.case
    by (auto simp: Let_def intro!: agrees_bind_same agrees_bind move_string_agrees)
qed

lemma split_loop_agrees: "agrees (split_loop alloc sk n st) (split_loop all_alloc sk n st)"
proof (induction n arbitrary: st)
  case (Suc n)
  show ?case unfolding split_loop.simps
    by (rule agrees_bind [OF split_slot_agrees]) (auto intro: Suc.IH)
qed simp

lemma split_tx_agrees:
  "agrees (split_tx alloc a b sk hash key value old_head s) (split_tx all_alloc a b sk hash key value old_head s)"
proof (cases "alloc (allocs s)")
  case True
  have fill: "agrees (LeafFillFirstEmptySlot alloc hash key value st) (LeafFillFirstEmptySlot all_alloc hash key value st)" for st
    unfolding LeafFillFirstEmptySlot_def by (rule fill_first_empty_agrees)
  show ?thesis
    unfolding split_tx_def Let_def using True
    by (auto intro!: agrees_bind_same agrees_bind split_loop_agrees fill)
next
  case False
  then have "\<exists>r. split_tx alloc a b sk hash key value old_head s = Some (False, r)" by (simp add: split_tx_def)
  then show ?thesis by (auto simp: agrees_def)
qed

lemma exec_tx_agrees: "agrees (f s) (g s) \<Longrightarrow> agrees (exec_tx f s) (exec_tx g s)"
  unfolding exec_tx_def by (rule agrees_bind) auto

lemma LeafSplit_agrees: "agrees (LeafSplit alloc a hash key value s) (LeafSplit all_alloc a hash key value s)"
  unfolding LeafSplit_def Let_def
  by (intro agrees_bind_same agrees_bind [OF exec_tx_agrees [OF split_tx_agrees]]) auto

lemma add_head_leaf_agrees: "agrees (add_head_leaf alloc hash key value s) (add_head_leaf all_alloc hash key value s)"
proof (cases "alloc (allocs s)")
  case True
  then show ?thesis unfolding add_head_leaf_def Let_def
    by (intro agrees_bind [OF exec_tx_agrees]) (auto intro!: agrees_bind LeafFillSpecificSlot_agrees)
next
  case False
  then have "\<exists>r. add_head_leaf alloc hash key value s = Some (False, r)" by (simp add: add_head_leaf_def exec_tx_def Let_def)
  then show ?thesis by (auto simp: agrees_def)
qed

lemma LeafFillSlotForKey_agrees:
  assumes "LeafFillSlotForKey all_alloc a hash key value s = Some (Some b, s')"
  shows "LeafFillSlotForKey alloc a hash key value s = Some (Some b, s') \<or>
    (\<exists>r. LeafFillSlotForKey alloc a hash key value s = Some (None, r))"
proof -
  let ?tx = "\<lambda>alloc ln lf p slot. exec_tx (\<lambda>s. do {
     (done, ln', lf', n) \<leftarrow> LeafFillSpecificSlot alloc hash key value slot (ln, lf, allocs s);
     Some (done, s\<lparr>vheap := (vheap s)(a \<mapsto> VLeaf ln'), pheap := (pheap s)(p \<mapsto> lf'), allocs := n\<rparr>) }) s"
  have tx: "agrees (?tx alloc ln lf p slot) (?tx all_alloc ln lf p slot)" for ln lf p slot
    by (intro exec_tx_agrees agrees_bind [OF LeafFillSpecificSlot_agrees]) auto
  from assms obtain ln p lf m e where r: "leafnode_at (vheap s) a = Some ln" "leaf ln = Some p" "pheap s p = Some lf"
    "fill_scan ln lf hash (data_ptr key) NODE_KEYS None = Some (m, e)"
    by (auto simp: LeafFillSlotForKey_def bind_eq_Some_conv)
  show ?thesis
  proof (cases "if m \<noteq> None then m else e")
    case None
    then show ?thesis using assms r by (simp add: LeafFillSlotForKey_def)
  next
    case (Some slot)
    then obtain s1 where s1: "?tx all_alloc ln lf p slot = Some (True, s1)" "b" "s' = s1"
      using assms r by (auto simp: LeafFillSlotForKey_def bind_eq_Some_conv split: if_splits)
    from tx s1(1) show ?thesis
    proof (cases rule: agreesE)
      case same
      then show ?thesis using Some r s1(2,3) by (simp add: LeafFillSlotForKey_def)
    next
      case (failed r')
      then show ?thesis using Some r by (simp add: LeafFillSlotForKey_def)
    qed
  qed
qed

text \<open>A \<open>Put\<close> with any allocator.\<close>

lemma Put_agrees:
  assumes "Put all_alloc key value s = Some (Some st, s')"
  shows "Put alloc key value s = Some (Some st, s') \<or> (\<exists>r. Put alloc key value s = Some (None, r))"
proof -
  from assms obtain hash f where h: "PearsonHash (data_ptr key) (size_of key) = Some hash" "LeafSearch key s = Some f"
    by (auto simp: Put_def bind_eq_Some_conv)
  show ?thesis
  proof (cases f)
    case None
    with assms h obtain s1 where s1: "add_head_leaf all_alloc hash key value s = Some (True, s1)" "st = Status_OK" "s' = s1"
      by (auto simp: Put_def bind_eq_Some_conv split: if_splits)
    from add_head_leaf_agrees s1(1) show ?thesis
      by (cases rule: agreesE [where x = "add_head_leaf alloc hash key value s"]) (use None h s1(2,3) in \<open>simp_all add: Put_def\<close>)
  next
    case (Some a)
    with assms h obtain r s1 where r: "LeafFillSlotForKey all_alloc a hash key value s = Some (Some r, s1)"
      by (auto simp: Put_def bind_eq_Some_conv split: option.splits bool.splits)
    from LeafFillSlotForKey_agrees [OF r] show ?thesis
    proof
      assume same: "LeafFillSlotForKey alloc a hash key value s = Some (Some r, s1)"
      show ?thesis
      proof (cases r)
        case True
        then show ?thesis using same r assms h Some by (simp add: Put_def)
      next
        case False
        with assms h Some r obtain s2 where s2: "LeafSplit all_alloc a hash key value s1 = Some (True, s2)" "st = Status_OK" "s' = s2"
          by (auto simp: Put_def bind_eq_Some_conv split: if_splits)
        from LeafSplit_agrees s2(1) show ?thesis
          by (cases rule: agreesE [where x = "LeafSplit alloc a hash key value s1"])
            (use False same h Some s2(2,3) in \<open>simp_all add: Put_def\<close>)
      qed
    next
      assume "\<exists>x. LeafFillSlotForKey alloc a hash key value s = Some (None, x)"
      then show ?thesis using h Some by (auto simp: Put_def)
    qed
  qed
qed

lemma Put_total:
  assumes "dbR s m" "key_ok key" "val_ok value"
  shows "(\<exists>s'. Put alloc key value s = Some (Some Status_OK, s') \<and> dbR s' (m(ktext key \<mapsto> ktext value))) \<or>
    (\<exists>s'. Put alloc key value s = Some (None, s') \<and> pool_of s' = pool_of s)"
proof -
  from Put_ok [OF assms, of all_alloc] obtain s' where s': "Put all_alloc key value s = Some (Some Status_OK, s')"
    "dbR s' (m(ktext key \<mapsto> ktext value))" by auto
  from Put_agrees [OF s'(1)] show ?thesis using s'(2) Put_abort by (fastforce simp: pool_of_def)
qed

end
