(* ===== verification/Scree_System.thy ===== *)
theory Scree_System
  imports Scree_Alloc
begin

text \<open>
  ScreeDB as its users see it: the class \<open>ScreeDB\<close> (utilities/screedb/screedb.h), the contract of a
  key/value store and its clients, and the life of a database through operations, failures,
  crashes and restarts.
\<close>

section \<open>The class ScreeDB\<close>

text \<open>
  The methods of the RocksDB interface in the groups of the header.  Those marked \<open>NOOPE\<close> return
  NotSupported; the others of a group return a constant.
\<close>

datatype reply = RStatus Status | RGet Status bytes | RBool bool | RMultiGet "Status list" "bytes list" | RName bytes
  | RException | RNull | RNumber u64 | RVoid

datatype iterator_method = NewIterator | NewIterators | GetLatestSequenceNumber | GetUpdatesSince

fun call_iterator_method :: "iterator_method \<Rightarrow> reply" where
  "call_iterator_method NewIterator = RNull"
| "call_iterator_method NewIterators = RStatus NotSupported"
| "call_iterator_method GetLatestSequenceNumber = RNumber 0"
| "call_iterator_method GetUpdatesSince = RStatus NotSupported"

datatype snapshot_method = GetSnapshot | ReleaseSnapshot

fun call_snapshot_method :: "snapshot_method \<Rightarrow> reply" where
  "call_snapshot_method GetSnapshot = RNull"
| "call_snapshot_method ReleaseSnapshot = RVoid"

datatype column_family_method = CreateColumnFamily | DefaultColumnFamily | DropColumnFamily | GetColumnFamilyMetaData

fun call_column_family_method :: "column_family_method \<Rightarrow> reply" where
  "call_column_family_method CreateColumnFamily = RStatus NotSupported"
| "call_column_family_method DefaultColumnFamily = RNull"
| "call_column_family_method DropColumnFamily = RStatus NotSupported"
| "call_column_family_method GetColumnFamilyMetaData = RVoid"

datatype property_method = GetAggregatedIntProperty | GetIntProperty | GetProperty

fun call_property_method :: "property_method \<Rightarrow> reply" where
  "call_property_method GetAggregatedIntProperty = RBool False"
| "call_property_method GetIntProperty = RBool False"
| "call_property_method GetProperty = RBool False"

datatype configuration_method = DisableFileDeletions | EnableAutoCompaction | EnableFileDeletions | GetDbIdentity | GetEnv
  | GetName | GetNamePtr | Level0StopWriteTrigger | MaxMemCompactionLevel | NumberLevels | SetOptions

fun call_configuration_method :: "configuration_method \<Rightarrow> bytes \<Rightarrow> reply" where
  "call_configuration_method DisableFileDeletions name = RStatus NotSupported"
| "call_configuration_method EnableAutoCompaction name = RStatus NotSupported"
| "call_configuration_method EnableFileDeletions name = RStatus NotSupported"
| "call_configuration_method GetDbIdentity name = RStatus NotSupported"
| "call_configuration_method GetEnv name = RNull"
| "call_configuration_method GetName name = RName name"
| "call_configuration_method GetNamePtr name = RName (c_str name)"
| "call_configuration_method Level0StopWriteTrigger name = RNumber 0"
| "call_configuration_method MaxMemCompactionLevel name = RNumber 0"
| "call_configuration_method NumberLevels name = RNumber 0"
| "call_configuration_method SetOptions name = RStatus NotSupported"

datatype storage_method = AddFile | CompactFiles | CompactRange | DeleteFile | Flush | GetApproximateSizes | GetLiveFiles
  | GetLiveFilesMetaData | GetPropertiesOfAllTables | GetPropertiesOfTablesInRange | GetSortedWalFiles
  | PauseBackgroundWork | ContinueBackgroundWork | SyncWAL

fun call_storage_method :: "storage_method \<Rightarrow> reply" where
  "call_storage_method GetApproximateSizes = RVoid"
| "call_storage_method GetLiveFilesMetaData = RVoid"
| "call_storage_method AddFile = RStatus NotSupported"
| "call_storage_method CompactFiles = RStatus NotSupported"
| "call_storage_method CompactRange = RStatus NotSupported"
| "call_storage_method DeleteFile = RStatus NotSupported"
| "call_storage_method Flush = RStatus NotSupported"
| "call_storage_method GetLiveFiles = RStatus NotSupported"
| "call_storage_method GetPropertiesOfAllTables = RStatus NotSupported"
| "call_storage_method GetPropertiesOfTablesInRange = RStatus NotSupported"
| "call_storage_method GetSortedWalFiles = RStatus NotSupported"
| "call_storage_method PauseBackgroundWork = RStatus NotSupported"
| "call_storage_method ContinueBackgroundWork = RStatus NotSupported"
| "call_storage_method SyncWAL = RStatus NotSupported"

datatype request = ReqDelete Slice | ReqGet Slice bytes | ReqKeyMayExist Slice | ReqMerge Slice Slice
  | ReqMultiGet "Slice list" "bytes list" | ReqPut Slice Slice | ReqSingleDelete Slice | ReqWrite
  | ReqIterator iterator_method | ReqSnapshot snapshot_method | ReqColumnFamily column_family_method
  | ReqProperty property_method | ReqConfiguration configuration_method | ReqStorage storage_method

record ScreeDB =
  dbname :: bytes
  dbtree :: ScreeDBTree

definition ScreeDB_Open :: "bytes \<Rightarrow> pool option \<Rightarrow> (Status \<times> ScreeDB) option" where
  "ScreeDB_Open name file = map_option (\<lambda>t. (Status_OK, \<lparr>dbname = name, dbtree = t\<rparr>)) (ScreeDBTree_new file)"

definition ScreeDB_close :: "ScreeDB \<Rightarrow> pool option" where
  "ScreeDB_close db = ScreeDBTree_delete (dbtree db)"

definition ScreeDB_Put :: "(nat \<Rightarrow> bool) \<Rightarrow> Slice \<Rightarrow> Slice \<Rightarrow> ScreeDB \<Rightarrow> (reply \<times> ScreeDB) option" where
  "ScreeDB_Put alloc key value db = do {
     (r, t) \<leftarrow> Put alloc key value (dbtree db);
     Some (case r of Some st \<Rightarrow> RStatus st | None \<Rightarrow> RException, db\<lparr>dbtree := t\<rparr>) }"

fun ScreeDB_call :: "(nat \<Rightarrow> bool) \<Rightarrow> request \<Rightarrow> ScreeDB \<Rightarrow> (reply \<times> ScreeDB) option" where
  "ScreeDB_call alloc (ReqDelete key) db = do { (st, t) \<leftarrow> Delete key (dbtree db); Some (RStatus st, db\<lparr>dbtree := t\<rparr>) }"
| "ScreeDB_call alloc (ReqGet key value) db = do { (st, v) \<leftarrow> Get key value (dbtree db); Some (RGet st v, db) }"
| "ScreeDB_call alloc (ReqKeyMayExist key) db = Some (RBool True, db)"
| "ScreeDB_call alloc (ReqMerge key value) db = ScreeDB_Put alloc key value db"
| "ScreeDB_call alloc (ReqMultiGet ks vs) db = do { (sts, vs') \<leftarrow> MultiGet ks vs (dbtree db); Some (RMultiGet sts vs', db) }"
| "ScreeDB_call alloc (ReqPut key value) db = ScreeDB_Put alloc key value db"
| "ScreeDB_call alloc (ReqSingleDelete key) db = Some (RStatus NotSupported, db)"
| "ScreeDB_call alloc ReqWrite db = Some (RStatus NotSupported, db)"
| "ScreeDB_call alloc (ReqIterator op) db = Some (call_iterator_method op, db)"
| "ScreeDB_call alloc (ReqSnapshot op) db = Some (call_snapshot_method op, db)"
| "ScreeDB_call alloc (ReqColumnFamily op) db = Some (call_column_family_method op, db)"
| "ScreeDB_call alloc (ReqProperty op) db = Some (call_property_method op, db)"
| "ScreeDB_call alloc (ReqConfiguration op) db = Some (call_configuration_method op (dbname db), db)"
| "ScreeDB_call alloc (ReqStorage op) db = Some (call_storage_method op, db)"

section \<open>The contract of a key/value store\<close>

datatype 'k kv_write = WPut 'k bytes | WDel 'k

fun write_map :: "'k kv_write \<Rightarrow> ('k \<Rightarrow> bytes option) \<Rightarrow> 'k \<Rightarrow> bytes option" where
  "write_map (WPut k v) m = m(k \<mapsto> v)"
| "write_map (WDel k) m = m(k := None)"

fun write_key :: "'k kv_write \<Rightarrow> 'k" where
  "write_key (WPut k v) = k"
| "write_key (WDel k) = k"

text \<open>The client of the store: a batch of writes, one after the other.\<close>

fun run_writes :: "('k \<Rightarrow> bytes \<Rightarrow> 's \<Rightarrow> 's option) \<Rightarrow> ('k \<Rightarrow> 's \<Rightarrow> 's option) \<Rightarrow> 'k kv_write list \<Rightarrow> 's \<Rightarrow> 's option" where
  "run_writes put del [] s = Some s"
| "run_writes put del (WPut k v # ws) s = Option.bind (put k v s) (run_writes put del ws)"
| "run_writes put del (WDel k # ws) s = Option.bind (del k s) (run_writes put del ws)"

locale kv_store =
  fixes store_rel :: "'s \<Rightarrow> ('k \<Rightarrow> bytes option) \<Rightarrow> bool"
    and store_get :: "'k \<Rightarrow> 's \<Rightarrow> bytes option option"
    and store_put :: "'k \<Rightarrow> bytes \<Rightarrow> 's \<Rightarrow> 's option"
    and store_del :: "'k \<Rightarrow> 's \<Rightarrow> 's option"
    and valid_key :: "'k \<Rightarrow> bool"
    and valid_val :: "bytes \<Rightarrow> bool"
  assumes get_law: "store_rel s m \<Longrightarrow> valid_key k \<Longrightarrow> store_get k s = Some (m k)"
    and put_law: "store_rel s m \<Longrightarrow> valid_key k \<Longrightarrow> valid_val v \<Longrightarrow> \<exists>s'. store_put k v s = Some s' \<and> store_rel s' (m(k \<mapsto> v))"
    and del_law: "store_rel s m \<Longrightarrow> valid_key k \<Longrightarrow> \<exists>s'. store_del k s = Some s' \<and> store_rel s' (m(k := None))"
begin

definition valid_write :: "'k kv_write \<Rightarrow> bool" where
  "valid_write w \<longleftrightarrow> valid_key (write_key w) \<and> (case w of WPut k v \<Rightarrow> valid_val v | WDel k \<Rightarrow> True)"

lemma run_writes_law:
  "store_rel s m \<Longrightarrow> \<forall>w\<in>set ws. valid_write w \<Longrightarrow>
     \<exists>s'. run_writes store_put store_del ws s = Some s' \<and> store_rel s' (fold write_map ws m)"
proof (induction ws arbitrary: s m)
  case (Cons w ws)
  show ?case
  proof (cases w)
    case (WPut k v)
    with put_law [OF Cons.prems(1), of k v] Cons.prems(2) obtain s' where
      "store_put k v s = Some s'" "store_rel s' (m(k \<mapsto> v))" by (auto simp: valid_write_def)
    with Cons.IH [of s'] Cons.prems(2) WPut show ?thesis by simp
  next
    case (WDel k)
    with del_law [OF Cons.prems(1), of k] Cons.prems(2) obtain s' where
      "store_del k s = Some s'" "store_rel s' (m(k := None))" by (auto simp: valid_write_def)
    with Cons.IH [of s'] Cons.prems(2) WDel show ?thesis by simp
  qed
qed simp

text \<open>A key reads back what the last write to it left, whatever was written in between.\<close>

lemma write_map_other: "write_key w \<noteq> k \<Longrightarrow> write_map w m k = m k"
  by (cases w) auto

lemma fold_write_other: "\<forall>w\<in>set ws. write_key w \<noteq> k \<Longrightarrow> fold write_map ws m k = m k"
  by (induction ws arbitrary: m) (auto simp: write_map_other)

lemma read_last_put:
  assumes "store_rel s m" "\<forall>w\<in>set (us @ WPut k v # ws). valid_write w" "\<forall>w\<in>set ws. write_key w \<noteq> k"
  shows "\<exists>s'. run_writes store_put store_del (us @ WPut k v # ws) s = Some s' \<and> store_get k s' = Some (Some v)"
proof -
  from run_writes_law [OF assms(1,2)] obtain s' where
    "run_writes store_put store_del (us @ WPut k v # ws) s = Some s'"
    "store_rel s' (fold write_map (us @ WPut k v # ws) m)" by blast
  moreover have "valid_key k" using assms(2) by (auto simp: valid_write_def)
  ultimately show ?thesis using get_law fold_write_other [OF assms(3)] by simp
qed

lemma put_put_commute:
  assumes "store_rel s m" "valid_key j" "valid_key k" "valid_val u" "valid_val v" "j \<noteq> k" "valid_key l"
  shows "\<exists>s1 s2. run_writes store_put store_del [WPut j u, WPut k v] s = Some s1 \<and>
    run_writes store_put store_del [WPut k v, WPut j u] s = Some s2 \<and> store_get l s1 = store_get l s2"
proof -
  have v: "\<forall>w\<in>set [WPut j u, WPut k v]. valid_write w" "\<forall>w\<in>set [WPut k v, WPut j u]. valid_write w"
    using assms by (auto simp: valid_write_def)
  from run_writes_law [OF assms(1) v(1)] run_writes_law [OF assms(1) v(2)] obtain s1 s2 where
    s: "run_writes store_put store_del [WPut j u, WPut k v] s = Some s1" "store_rel s1 (m(j \<mapsto> u, k \<mapsto> v))"
      "run_writes store_put store_del [WPut k v, WPut j u] s = Some s2" "store_rel s2 (m(k \<mapsto> v, j \<mapsto> u))" by auto
  have "m(j \<mapsto> u, k \<mapsto> v) = m(k \<mapsto> v, j \<mapsto> u)" using assms(6) by (rule fun_upd_twist)
  then show ?thesis using s get_law [OF _ assms(7)] by metis
qed

end

section \<open>ScreeDB is such a store\<close>

definition text_key :: "bytes \<Rightarrow> bool" where
  "text_key k \<longleftrightarrow> 0 \<notin> set k \<and> ascii k"

definition text_val :: "bytes \<Rightarrow> bool" where
  "text_val v \<longleftrightarrow> 0 \<notin> set v"

definition scree_get :: "bytes \<Rightarrow> ScreeDBTree \<Rightarrow> bytes option option" where
  "scree_get k s = map_option (\<lambda>(st, v). if ok st then Some v else None) (Get (Slice_of_string k) [] s)"

definition scree_put :: "bytes \<Rightarrow> bytes \<Rightarrow> ScreeDBTree \<Rightarrow> ScreeDBTree option" where
  "scree_put k v s = (case Put all_alloc (Slice_of_string k) (Slice_of_string v) s of Some (Some st, s') \<Rightarrow> Some s' | _ \<Rightarrow> None)"

definition scree_del :: "bytes \<Rightarrow> ScreeDBTree \<Rightarrow> ScreeDBTree option" where
  "scree_del k s = map_option snd (Delete (Slice_of_string k) s)"

lemma key_ok_string: "text_key k \<Longrightarrow> key_ok (Slice_of_string k)"
  by (simp add: key_ok_def text_key_def Slice_of_string_def)

lemma val_ok_string: "val_ok (Slice_of_string v)"
  by (simp add: val_ok_def Slice_of_string_def)

lemma ktext_string: "0 \<notin> set k \<Longrightarrow> ktext (Slice_of_string k) = k"
  by (simp add: Slice_of_string_def)

lemma ok_simps [simp]: "ok Status_OK" "\<not> ok NotFound"
  by (simp_all add: ok_def Status_OK_def NotFound_def Status_of_subcode_def)

interpretation scree: kv_store dbR scree_get scree_put scree_del text_key text_val
proof (unfold_locales, goal_cases)
  case (1 s m k)
  then show ?case using Get_ok [OF 1(1) key_ok_string [OF 1(2)], of "[]"]
    by (auto simp: scree_get_def ktext_string text_key_def split: option.splits)
next
  case (2 s m k v)
  from Put_ok [OF 2(1) key_ok_string [OF 2(2)] val_ok_string [of v], of all_alloc] 2(2,3) show ?case
    by (auto simp: scree_put_def ktext_string text_key_def text_val_def)
next
  case (3 s m k)
  from Delete_ok [OF 3(1) key_ok_string [OF 3(2)]] 3(2) show ?case
    by (auto simp: scree_del_def ktext_string text_key_def)
qed

section \<open>The life of a database\<close>

text \<open>
  A database is down, a pool file, or up.  Each \<open>Put\<close> and \<open>Delete\<close> runs at most one transaction, and
  the changes outside it are volatile, so a crash during one of them is a crash before it or after
  it.  An exception ends the process without \<open>Shutdown\<close>.
\<close>

datatype world = Down pool | Up ScreeDB

datatype event = EvOpen | EvPut bytes bytes | EvPutFailed bytes bytes | EvDelete bytes | EvClose | EvCrash

inductive step :: "world \<Rightarrow> event \<Rightarrow> world \<Rightarrow> bool" where
  step_open: "ScreeDB_Open name (Some pl) = Some (st, db) \<Longrightarrow> step (Down pl) EvOpen (Up db)"
| step_put: "text_key k \<Longrightarrow> text_val v \<Longrightarrow>
    ScreeDB_Put alloc (Slice_of_string k) (Slice_of_string v) db = Some (RStatus st, db') \<Longrightarrow> step (Up db) (EvPut k v) (Up db')"
| step_failed: "text_key k \<Longrightarrow> text_val v \<Longrightarrow>
    ScreeDB_Put alloc (Slice_of_string k) (Slice_of_string v) db = Some (RException, db') \<Longrightarrow>
    step (Up db) (EvPutFailed k v) (Down (pool_of (dbtree db')))"
| step_delete: "text_key k \<Longrightarrow> ScreeDB_call alloc (ReqDelete (Slice_of_string k)) db = Some (r, db') \<Longrightarrow>
    step (Up db) (EvDelete k) (Up db')"
| step_close: "ScreeDB_close db = Some pl \<Longrightarrow> step (Up db) EvClose (Down pl)"
| step_crash: "step (Up db) EvCrash (Down (pool_of (dbtree db)))"

inductive reach :: "world \<Rightarrow> event list \<Rightarrow> bool" where
  reach_start: "reach (Down new_pool) []"
| reach_step: "reach w tr \<Longrightarrow> step w e w' \<Longrightarrow> reach w' (tr @ [e])"

inductive_cases step_DownE: "step (Down pl) e w"
inductive_cases step_UpE: "step (Up db) e w"

text \<open>What the history of a database says it holds.\<close>

fun event_map :: "event \<Rightarrow> (bytes \<Rightarrow> bytes option) \<Rightarrow> bytes \<Rightarrow> bytes option" where
  "event_map (EvPut k v) m = m(k \<mapsto> v)"
| "event_map (EvDelete k) m = m(k := None)"
| "event_map _ m = m"

definition history :: "event list \<Rightarrow> bytes \<Rightarrow> bytes option" where
  "history tr = fold event_map tr Map.empty"

definition world_rel :: "world \<Rightarrow> (bytes \<Rightarrow> bytes option) \<Rightarrow> bool" where
  "world_rel w m = (case w of Down pl \<Rightarrow> persistent_inv pl m | Up db \<Rightarrow> dbR (dbtree db) m)"

lemma step_rel:
  assumes "step w e w'" "world_rel w m"
  shows "world_rel w' (event_map e m)"
  using assms
proof (induction rule: step.induct)
  case (step_open name pl st db)
  then obtain t where "ScreeDBTree_new (Some pl) = Some t" "dbtree db = t" by (auto simp: ScreeDB_Open_def)
  with ScreeDBTree_new_ok [of m "Some pl"] step_open.prems show ?case by (simp add: world_rel_def)
next
  case (step_put k v alloc db st db')
  from step_put.prems have R: "dbR (dbtree db) m" by (simp add: world_rel_def)
  from Put_total [OF R key_ok_string [OF step_put(1)] val_ok_string [of v], of alloc] step_put(1-3)
  have "dbR (dbtree db') (m(k \<mapsto> v))" by (auto simp: ScreeDB_Put_def ktext_string text_key_def text_val_def)
  then show ?case unfolding world_rel_def event_map.simps by simp
next
  case (step_failed k v alloc db db')
  from step_failed.prems have R: "dbR (dbtree db) m" by (simp add: world_rel_def)
  from Put_total [OF R key_ok_string [OF step_failed(1)] val_ok_string [of v], of alloc] step_failed(3)
  have "pool_of (dbtree db') = pool_of (dbtree db)" by (auto simp: ScreeDB_Put_def)
  then show ?case using dbR_persistent [OF R] by (simp add: world_rel_def)
next
  case (step_delete k alloc db r db')
  from step_delete.prems have R: "dbR (dbtree db) m" by (simp add: world_rel_def)
  from Delete_ok [OF R key_ok_string [OF step_delete(1)]] step_delete(1,2)
  have "dbR (dbtree db') (m(k := None))" by (auto simp: ktext_string text_key_def)
  then show ?case unfolding world_rel_def event_map.simps by simp
next
  case (step_close db pl)
  then show ?case using ScreeDBTree_delete_ok [of "dbtree db" m] by (auto simp: world_rel_def ScreeDB_close_def)
next
  case (step_crash db)
  then show ?case using dbR_persistent by (simp add: world_rel_def)
qed

lemma reach_rel: "reach w tr \<Longrightarrow> world_rel w (history tr)"
proof (induction rule: reach.induct)
  case reach_start
  then show ?case by (simp add: world_rel_def history_def persistent_inv_new)
next
  case (reach_step w tr e w')
  then show ?case using step_rel by (simp add: history_def)
qed

text \<open>Nothing the database can be asked to do in a reachable state is undefined.\<close>

definition request_ok :: "request \<Rightarrow> bool" where
  "request_ok r = (case r of
      ReqDelete key \<Rightarrow> key_ok key
    | ReqGet key value \<Rightarrow> key_ok key
    | ReqMerge key value \<Rightarrow> key_ok key \<and> val_ok value
    | ReqPut key value \<Rightarrow> key_ok key \<and> val_ok value
    | ReqMultiGet ks vs \<Rightarrow> (\<forall>key\<in>set ks. ckey_ok key)
    | _ \<Rightarrow> True)"

lemma ScreeDB_call_defined:
  assumes "dbR (dbtree db) m" "request_ok r"
  shows "\<exists>rep db'. ScreeDB_call alloc r db = Some (rep, db')"
proof (cases r)
  case (ReqMerge key v)
  then show ?thesis using Put_total [OF assms(1), of key v alloc] assms(2) by (auto simp: request_ok_def ScreeDB_Put_def)
next
  case (ReqPut key v)
  then show ?thesis using Put_total [OF assms(1), of key v alloc] assms(2) by (auto simp: request_ok_def ScreeDB_Put_def)
next
  case (ReqDelete key)
  then show ?thesis using Delete_ok [OF assms(1), of key] assms(2) by (auto simp: request_ok_def)
next
  case (ReqGet key v)
  then show ?thesis using Get_ok [OF assms(1), of key v] assms(2) by (auto simp: request_ok_def split: option.splits)
next
  case (ReqMultiGet ks vs)
  then show ?thesis using MultiGet_ok [OF assms(1), of ks vs] assms(2) by (auto simp: request_ok_def)
qed auto

end
