(* ===== verification/Comparators.thy ===== *)
theory Comparators
  imports Slices
begin

text \<open>
  The interfaces keys pass through: comparators (util/comparator.cc) and slice transforms
  (util/slice.cc).  Slices are their bytes here, since this code respects their sizes.

  The locales state what include/rocksdb/comparator.h and slice_transform.h promise.  A comparator
  may be partial (\<open>InternalKeyComparator\<close> asserts that keys carry their trailer), so its laws are
  relative to a set of valid keys; sorting, binary search and merging rely on nothing else.
\<close>

section \<open>The contract of a comparator\<close>

locale comparator =
  fixes compare :: "bytes \<Rightarrow> bytes \<Rightarrow> int option" and valid :: "bytes \<Rightarrow> bool"
  assumes total: "valid a \<Longrightarrow> valid b \<Longrightarrow> \<exists>r. compare a b = Some r"
    and swap: "valid a \<Longrightarrow> valid b \<Longrightarrow> compare a b = Some r \<Longrightarrow> compare b a = Some s \<Longrightarrow> sgn s = - sgn r"
    and trans: "valid a \<Longrightarrow> valid b \<Longrightarrow> valid c \<Longrightarrow> compare a b = Some r \<Longrightarrow> r \<le> 0 \<Longrightarrow>
      compare b c = Some s \<Longrightarrow> s \<le> 0 \<Longrightarrow> \<exists>t\<le>0. compare a c = Some t"
begin

definition le :: "bytes \<Rightarrow> bytes \<Rightarrow> bool" where
  "le a b \<longleftrightarrow> (\<exists>r\<le>0. compare a b = Some r)"

definition lt :: "bytes \<Rightarrow> bytes \<Rightarrow> bool" where
  "lt a b \<longleftrightarrow> (\<exists>r<0. compare a b = Some r)"

lemma refl: "valid a \<Longrightarrow> compare a a = Some 0"
  using total [of a a] swap [of a a] by (fastforce simp: sgn_if split: if_splits)

lemma le_refl: "valid a \<Longrightarrow> le a a"
  by (simp add: le_def refl)

lemma le_trans: "valid a \<Longrightarrow> valid b \<Longrightarrow> valid c \<Longrightarrow> le a b \<Longrightarrow> le b c \<Longrightarrow> le a c"
  using trans [of a b c] unfolding le_def by blast

lemma lt_not_le: "valid a \<Longrightarrow> valid b \<Longrightarrow> lt a b \<longleftrightarrow> \<not> le b a"
proof -
  assume v: "valid a" "valid b"
  obtain r s where rs: "compare a b = Some r" "compare b a = Some s" using total [OF v] total [OF v(2,1)] by blast
  from swap [OF v rs] show ?thesis by (auto simp: lt_def le_def rs sgn_if split: if_splits)
qed

lemma lt_imp_le: "lt a b \<Longrightarrow> le a b"
  by (auto simp: lt_def le_def)

lemma le_total: "valid a \<Longrightarrow> valid b \<Longrightarrow> le a b \<or> le b a"
  using lt_not_le lt_imp_le by blast

lemma le_lt_trans: "valid a \<Longrightarrow> valid b \<Longrightarrow> valid c \<Longrightarrow> le a b \<Longrightarrow> lt b c \<Longrightarrow> lt a c"
  using lt_not_le le_trans by blast

lemma lt_le_trans: "valid a \<Longrightarrow> valid b \<Longrightarrow> valid c \<Longrightarrow> lt a b \<Longrightarrow> le b c \<Longrightarrow> lt a c"
  using lt_not_le le_trans by blast

lemma lt_trans: "valid a \<Longrightarrow> valid b \<Longrightarrow> valid c \<Longrightarrow> lt a b \<Longrightarrow> lt b c \<Longrightarrow> lt a c"
  using le_lt_trans lt_imp_le by blast

lemma lt_irrefl: "valid a \<Longrightarrow> \<not> lt a a"
  by (simp add: lt_def refl)

text \<open>The sign of a comparison decides the order.\<close>

lemma sign:
  assumes "valid a" "valid b" "compare a b = Some r"
  shows "r < 0 \<longleftrightarrow> lt a b" "r \<le> 0 \<longleftrightarrow> le a b" "r > 0 \<longleftrightarrow> lt b a" "r \<ge> 0 \<longleftrightarrow> le b a"
proof -
  show 1: "r < 0 \<longleftrightarrow> lt a b" and 2: "r \<le> 0 \<longleftrightarrow> le a b" using assms(3) by (auto simp: lt_def le_def)
  show "r > 0 \<longleftrightarrow> lt b a" using lt_not_le [OF assms(2,1)] 2 by auto
  show "r \<ge> 0 \<longleftrightarrow> le b a" using lt_not_le [OF assms(1,2)] 1 by auto
qed

lemma zero_iff:
  assumes "valid a" "valid b"
  shows "compare a b = Some 0 \<longleftrightarrow> le a b \<and> le b a"
proof -
  obtain r where r: "compare a b = Some r" using total assms by blast
  show ?thesis using sign(2,4) [OF assms r] r by auto
qed

end

text \<open>The two functions that shorten keys for index blocks.\<close>

locale separating_comparator = comparator +
  fixes separator :: "bytes \<Rightarrow> bytes \<Rightarrow> bytes option" and successor :: "bytes \<Rightarrow> bytes option"
  assumes separator: "valid a \<Longrightarrow> valid b \<Longrightarrow> lt a b \<Longrightarrow> \<exists>s. separator a b = Some s \<and> valid s \<and> le a s \<and> lt s b"
    and separator_same: "valid a \<Longrightarrow> valid b \<Longrightarrow> compare a b = Some 0 \<Longrightarrow> separator a b = Some a"
    and successor: "valid a \<Longrightarrow> \<exists>s. successor a = Some s \<and> valid s \<and> le a s"

section \<open>The bytewise comparators\<close>

definition Bytewise_Compare :: "bytes \<Rightarrow> bytes \<Rightarrow> int option" where
  "Bytewise_Compare a b = Slice_compare (Slice_of_string a) (Slice_of_string b)"

definition Bytewise_Equal :: "bytes \<Rightarrow> bytes \<Rightarrow> bool option" where
  "Bytewise_Equal a b = Slice_eq (Slice_of_string a) (Slice_of_string b)"

fun common_prefix :: "bytes \<Rightarrow> bytes \<Rightarrow> nat" where
  "common_prefix (a # as) (b # bs) = (if a = b then Suc (common_prefix as bs) else 0)"
| "common_prefix _ _ = 0"

definition FindShortestSeparator :: "bytes \<Rightarrow> bytes \<Rightarrow> bytes option" where
  "FindShortestSeparator start limit =
     (let min_length = min (length start) (length limit);
          diff_index = common_prefix start limit in
      if diff_index \<ge> min_length then Some start
      else if start ! diff_index < 255 \<and> unat (start ! diff_index) + 1 < unat (limit ! diff_index)
      then do {
        let s = take (diff_index + 1) (start[diff_index := start ! diff_index + 1]);
        r \<leftarrow> Bytewise_Compare s limit;
        if r < 0 then Some s else None }
      else Some start)"

fun FindShortSuccessor :: "bytes \<Rightarrow> bytes" where
  "FindShortSuccessor [] = []"
| "FindShortSuccessor (b # bs) = (if b \<noteq> 255 then [b + 1] else b # FindShortSuccessor bs)"

definition ReverseBytewise_Compare :: "bytes \<Rightarrow> bytes \<Rightarrow> int option" where
  "ReverseBytewise_Compare a b = map_option uminus (Bytewise_Compare a b)"

lemma Bytewise_Compare_total:
  obtains r where "Bytewise_Compare a b = Some r" "r = 0 \<longleftrightarrow> a = b" "r < 0 \<longleftrightarrow> a < b" "r > 0 \<longleftrightarrow> b < a"
proof -
  obtain r where r: "Bytewise_Compare a b = Some r" "r = 0 \<longleftrightarrow> a = b" "r < 0 \<longleftrightarrow> a < b"
    using Slice_compare_total [of "Slice_of_string a" "Slice_of_string b"] by (auto simp: Bytewise_Compare_def)
  moreover have "r > 0 \<longleftrightarrow> b < a" using r(2,3) by (metis less_linear order_less_imp_not_less)
  ultimately show ?thesis by (rule that)
qed

lemma Bytewise_sign:
  assumes "Bytewise_Compare a b = Some r"
  shows "r = 0 \<longleftrightarrow> a = b" "r < 0 \<longleftrightarrow> a < b" "r > 0 \<longleftrightarrow> b < a" "r \<le> 0 \<longleftrightarrow> a \<le> b" "r \<ge> 0 \<longleftrightarrow> b \<le> a"
proof -
  obtain r' where "Bytewise_Compare a b = Some r'" "r' = 0 \<longleftrightarrow> a = b" "r' < 0 \<longleftrightarrow> a < b" "r' > 0 \<longleftrightarrow> b < a"
    by (rule Bytewise_Compare_total)
  with assms show "r = 0 \<longleftrightarrow> a = b" "r < 0 \<longleftrightarrow> a < b" "r > 0 \<longleftrightarrow> b < a" by auto
  then show "r \<le> 0 \<longleftrightarrow> a \<le> b" "r \<ge> 0 \<longleftrightarrow> b \<le> a" by (auto simp: le_less)
qed

lemma Bytewise_defined: "\<exists>r. Bytewise_Compare a b = Some r"
  by (rule Bytewise_Compare_total) blast

interpretation bytewise: comparator Bytewise_Compare "\<lambda>_. True"
proof
  fix a b c :: bytes and r s :: int
  show "\<exists>r. Bytewise_Compare a b = Some r" by (rule Bytewise_defined)
  show "sgn s = - sgn r" if "Bytewise_Compare a b = Some r" "Bytewise_Compare b a = Some s"
    using Bytewise_sign [OF that(1)] Bytewise_sign [OF that(2)] by (auto simp: sgn_if)
  show "\<exists>t\<le>0. Bytewise_Compare a c = Some t"
    if "Bytewise_Compare a b = Some r" "r \<le> 0" "Bytewise_Compare b c = Some s" "s \<le> 0"
  proof -
    have "a \<le> c" using that Bytewise_sign [OF that(1)] Bytewise_sign [OF that(3)] by auto
    then show ?thesis using Bytewise_defined [of a c] Bytewise_sign by blast
  qed
qed

lemma bytewise_le [simp]: "bytewise.le a b \<longleftrightarrow> a \<le> b"
  using Bytewise_defined [of a b] Bytewise_sign by (fastforce simp: bytewise.le_def)

lemma bytewise_lt [simp]: "bytewise.lt a b \<longleftrightarrow> a < b"
  using bytewise.lt_not_le [of a b] by (simp add: not_le)

interpretation reverse: comparator ReverseBytewise_Compare "\<lambda>_. True"
proof
  fix a b c :: bytes and r s :: int
  show "\<exists>r. ReverseBytewise_Compare a b = Some r" using Bytewise_defined [of a b] by (auto simp: ReverseBytewise_Compare_def)
  show "sgn s = - sgn r" if "ReverseBytewise_Compare a b = Some r" "ReverseBytewise_Compare b a = Some s"
    using bytewise.swap [of a b] that by (auto simp: ReverseBytewise_Compare_def)
  show "\<exists>t\<le>0. ReverseBytewise_Compare a c = Some t"
    if "ReverseBytewise_Compare a b = Some r" "r \<le> 0" "ReverseBytewise_Compare b c = Some s" "s \<le> 0"
  proof -
    have "c \<le> b" "b \<le> a" using that by (auto simp: ReverseBytewise_Compare_def dest: Bytewise_sign(5))
    then have "c \<le> a" by (rule order_trans)
    then show ?thesis using Bytewise_defined [of a c] Bytewise_sign(5) by (fastforce simp: ReverseBytewise_Compare_def)
  qed
qed

lemma reverse_le [simp]: "reverse.le a b \<longleftrightarrow> b \<le> a"
  using Bytewise_defined [of a b] Bytewise_sign by (fastforce simp: reverse.le_def ReverseBytewise_Compare_def)

lemma reverse_lt [simp]: "reverse.lt a b \<longleftrightarrow> b < a"
  using reverse.lt_not_le [of a b] by (simp add: not_le)

section \<open>Shortened keys\<close>

lemma common_prefix_le: "common_prefix a b \<le> length a" "common_prefix a b \<le> length b"
  by (induction a b rule: common_prefix.induct) auto

lemma common_prefix_take: "take (common_prefix a b) a = take (common_prefix a b) b"
  by (induction a b rule: common_prefix.induct) auto

lemma common_prefix_differ:
  "common_prefix a b < length a \<Longrightarrow> common_prefix a b < length b \<Longrightarrow> a ! common_prefix a b \<noteq> b ! common_prefix a b"
  by (induction a b rule: common_prefix.induct) auto

lemma prefix_less: "x < y \<Longrightarrow> p @ x < p @ (y :: bytes)"
  by (induction p) auto

lemma word_less_unat: "b < 255 \<Longrightarrow> unat (b + 1) = unat b + 1" for b :: byte
  by (simp add: word_less_nat_alt unat_plus_if_size word_size)

lemma FindShortestSeparator_cases:
  obtains "FindShortestSeparator a b = Some a"
  | p c d as bs where "a = p @ c # as" "b = p @ d # bs" "c < c + 1" "c + 1 < d" "FindShortestSeparator a b = Some (p @ [c + 1])"
proof -
  define n where "n = common_prefix a b"
  show ?thesis
  proof (cases "n < length a \<and> n < length b \<and> a ! n < 255 \<and> unat (a ! n) + 1 < unat (b ! n)")
    case False
    then have "FindShortestSeparator a b = Some a"
      using common_prefix_le [of a b] by (auto simp: FindShortestSeparator_def Let_def n_def)
    then show ?thesis by (rule that(1))
  next
    case True
    have a: "a = take n a @ a ! n # drop (Suc n) a" using True by (simp add: id_take_nth_drop [symmetric])
    have "take n b = take n a" using common_prefix_take [of a b] by (simp add: n_def)
    then have b: "b = take n a @ b ! n # drop (Suc n) b" using True by (metis id_take_nth_drop)
    have "unat (a ! n + 1) = unat (a ! n) + 1" using True by (simp add: word_less_unat)
    then have lt: "a ! n < a ! n + 1" "a ! n + 1 < b ! n" using True by (simp_all add: word_less_nat_alt)
    then have "take n a @ [a ! n + 1] < b" using b by (metis prefix_less Cons_less_Cons)
    then obtain r where "Bytewise_Compare (take n a @ [a ! n + 1]) b = Some r" "r < 0"
      using Bytewise_defined Bytewise_sign(2) by blast
    then have "FindShortestSeparator a b = Some (take n a @ [a ! n + 1])"
      using True by (auto simp: FindShortestSeparator_def Let_def take_Suc_update simp flip: n_def)
    with a b lt show ?thesis by (rule that(2))
  qed
qed

lemma FindShortestSeparator_ok:
  assumes "a < b"
  shows "\<exists>s. FindShortestSeparator a b = Some s \<and> a \<le> s \<and> s < b"
proof (cases rule: FindShortestSeparator_cases [of a b])
  case (2 p c d as bs)
  then show ?thesis by (simp add: less_imp_le prefix_less)
qed (use assms in simp)

lemma FindShortestSeparator_defined: "\<exists>s. FindShortestSeparator a b = Some s \<and> length s \<le> length a"
  by (cases rule: FindShortestSeparator_cases [of a b]) auto

lemma FindShortSuccessor_ge: "k \<le> FindShortSuccessor k"
proof (induction k)
  case (Cons b bs)
  have "b < b + 1" if "b \<noteq> 255"
  proof -
    have "unat b \<noteq> unat (255 :: byte)" using that by (metis word_unat_eq_iff)
    then have "b < 255" using unsigned_less [of b, where ?'a = nat] by (simp add: word_less_nat_alt)
    then show ?thesis by (simp add: word_less_nat_alt word_less_unat)
  qed
  with Cons show ?case by auto
qed simp

interpretation bytewise: separating_comparator Bytewise_Compare "\<lambda>_. True" FindShortestSeparator "\<lambda>k. Some (FindShortSuccessor k)"
proof
  fix a b :: bytes
  show "\<exists>s. FindShortestSeparator a b = Some s \<and> True \<and> bytewise.le a s \<and> bytewise.lt s b" if "bytewise.lt a b"
    using FindShortestSeparator_ok that by simp
  show "FindShortestSeparator a b = Some a" if "Bytewise_Compare a b = Some 0"
  proof -
    have "a = b" using Bytewise_sign(1) [OF that] by simp
    then show ?thesis by (cases rule: FindShortestSeparator_cases [of a b]) auto
  qed
  show "\<exists>s. Some (FindShortSuccessor a) = Some s \<and> True \<and> bytewise.le a s" using FindShortSuccessor_ge by simp
qed

lemma length_FindShortSuccessor: "length (FindShortSuccessor a) \<le> length a"
  by (induction a) auto

section \<open>Slice transforms\<close>

locale slice_transform =
  fixes Transform :: "bytes \<Rightarrow> bytes option" and InDomain InRange SameResultWhenAppended :: "bytes \<Rightarrow> bool"
  assumes domain: "InDomain s \<Longrightarrow> \<exists>d. Transform s = Some d \<and> InRange d"
    and range: "InRange d \<Longrightarrow> \<exists>s. InDomain s \<and> Transform s = Some d"
    and same: "SameResultWhenAppended p \<Longrightarrow> Transform (p @ x) = Transform p"
begin

text \<open>A filter over transformed keys may answer a seek to \<open>p\<close>: it was told of every key that extends \<open>p\<close>.\<close>

lemma filter_covers:
  assumes "SameResultWhenAppended p" "k \<in> ks" "k = p @ x" "\<forall>k\<in>ks. InDomain k"
  shows "\<exists>d. Transform p = Some d \<and> Some d \<in> Transform ` ks"
proof -
  have "Transform k = Transform p" using same [OF assms(1)] assms(3) by simp
  moreover obtain d where "Transform k = Some d" using domain assms(2,4) by blast
  ultimately show ?thesis using assms(2) by (intro exI [of _ d]) (metis imageI)
qed

end

definition FixedPrefix_InDomain :: "nat \<Rightarrow> bytes \<Rightarrow> bool" where
  "FixedPrefix_InDomain n src \<longleftrightarrow> length src \<ge> n"

definition FixedPrefix_Transform :: "nat \<Rightarrow> bytes \<Rightarrow> bytes option" where
  "FixedPrefix_Transform n src = (if FixedPrefix_InDomain n src then Some (take n src) else None)"

definition FixedPrefix_InRange :: "nat \<Rightarrow> bytes \<Rightarrow> bool" where
  "FixedPrefix_InRange n dst \<longleftrightarrow> length dst = n"

definition FixedPrefix_SameResultWhenAppended :: "nat \<Rightarrow> bytes \<Rightarrow> bool" where
  "FixedPrefix_SameResultWhenAppended n p = FixedPrefix_InDomain n p"

definition CappedPrefix_Transform :: "nat \<Rightarrow> bytes \<Rightarrow> bytes option" where
  "CappedPrefix_Transform n src = Some (take (min n (length src)) src)"

definition CappedPrefix_InDomain :: "nat \<Rightarrow> bytes \<Rightarrow> bool" where
  "CappedPrefix_InDomain n src \<longleftrightarrow> True"

definition CappedPrefix_InRange :: "nat \<Rightarrow> bytes \<Rightarrow> bool" where
  "CappedPrefix_InRange n dst \<longleftrightarrow> length dst \<le> n"

definition CappedPrefix_SameResultWhenAppended :: "nat \<Rightarrow> bytes \<Rightarrow> bool" where
  "CappedPrefix_SameResultWhenAppended n p \<longleftrightarrow> length p \<ge> n"

definition Noop_Transform :: "bytes \<Rightarrow> bytes option" where
  "Noop_Transform src = Some src"

definition Noop_InDomain :: "bytes \<Rightarrow> bool" where
  "Noop_InDomain src \<longleftrightarrow> True"

definition Noop_InRange :: "bytes \<Rightarrow> bool" where
  "Noop_InRange dst \<longleftrightarrow> True"

definition Noop_SameResultWhenAppended :: "bytes \<Rightarrow> bool" where
  "Noop_SameResultWhenAppended p \<longleftrightarrow> False"

interpretation fixed_prefix: slice_transform "FixedPrefix_Transform n" "FixedPrefix_InDomain n" "FixedPrefix_InRange n"
    "FixedPrefix_SameResultWhenAppended n" for n
proof
  fix d assume "FixedPrefix_InRange n d"
  then show "\<exists>s. FixedPrefix_InDomain n s \<and> FixedPrefix_Transform n s = Some d"
    by (intro exI [of _ d]) (simp add: FixedPrefix_Transform_def FixedPrefix_InDomain_def FixedPrefix_InRange_def)
qed (auto simp: FixedPrefix_Transform_def FixedPrefix_InDomain_def FixedPrefix_InRange_def
    FixedPrefix_SameResultWhenAppended_def)

interpretation capped_prefix: slice_transform "CappedPrefix_Transform n" "CappedPrefix_InDomain n" "CappedPrefix_InRange n"
    "CappedPrefix_SameResultWhenAppended n" for n
proof
  fix d assume "CappedPrefix_InRange n d"
  then show "\<exists>s. CappedPrefix_InDomain n s \<and> CappedPrefix_Transform n s = Some d"
    by (intro exI [of _ d]) (simp add: CappedPrefix_Transform_def CappedPrefix_InDomain_def CappedPrefix_InRange_def)
qed (auto simp: CappedPrefix_Transform_def CappedPrefix_InDomain_def CappedPrefix_InRange_def
    CappedPrefix_SameResultWhenAppended_def)

interpretation noop: slice_transform Noop_Transform Noop_InDomain Noop_InRange Noop_SameResultWhenAppended
  by unfold_locales (auto simp: Noop_Transform_def Noop_InDomain_def Noop_InRange_def Noop_SameResultWhenAppended_def)



text \<open>
  C17. \<open>ReverseBytewiseComparator\<close> inherits \<open>FindShortSuccessor\<close> from the bytewise comparator: in its
  own order the result is never above the key, and whenever a byte can be incremented it is
  strictly below, against the contract of comparator.h.
\<close>

theorem reverse_successor_wrong_way:
  "\<exists>r. ReverseBytewise_Compare a (FindShortSuccessor a) = Some r \<and> 0 \<le> r \<and> (FindShortSuccessor a \<noteq> a \<longrightarrow> 0 < r)"
proof -
  obtain r where r: "Bytewise_Compare a (FindShortSuccessor a) = Some r" using Bytewise_defined by blast
  show ?thesis using Bytewise_sign [OF r] r FindShortSuccessor_ge [of a] by (auto simp: ReverseBytewise_Compare_def)
qed

theorem reverse_successor_wrong_way_witness:
  "FindShortSuccessor [97] \<noteq> [97] \<and> (\<exists>r>0. ReverseBytewise_Compare [97] (FindShortSuccessor [97]) = Some r)"
  using reverse_successor_wrong_way [of "[97]"] by auto

end
