(* ===== verification/DBFormat.thy ===== *)
theory DBFormat
  imports Comparators Coding
begin

text \<open>
  Internal keys (db/dbformat.h and dbformat.cc): a user key followed by an eight byte trailer that
  packs a sequence number and a value type.  An assertion that fails is \<open>None\<close>.

  Encoded keys are ordered as their parsed form is: by user key, then by decreasing sequence
  number, then by decreasing type.  Internal keys inherit the contract of the user comparator,
  the shortening of index keys included, and a lookup key for a snapshot splits the versions of
  its user key into those the snapshot does not see and those it does.
\<close>

named_theorems ikey_simps \<open>internal keys: parts of an encoded key\<close>

section \<open>Value types and trailers\<close>

type_synonym ValueType = byte

definition kTypeDeletion :: ValueType where "kTypeDeletion = 0"
definition kTypeValue :: ValueType where "kTypeValue = 1"
definition kTypeMerge :: ValueType where "kTypeMerge = 2"
definition kTypeLogData :: ValueType where "kTypeLogData = 3"
definition kTypeColumnFamilyDeletion :: ValueType where "kTypeColumnFamilyDeletion = 4"
definition kTypeColumnFamilyValue :: ValueType where "kTypeColumnFamilyValue = 5"
definition kTypeColumnFamilyMerge :: ValueType where "kTypeColumnFamilyMerge = 6"
definition kTypeSingleDeletion :: ValueType where "kTypeSingleDeletion = 7"
definition kTypeColumnFamilySingleDeletion :: ValueType where "kTypeColumnFamilySingleDeletion = 8"
definition kMaxValue :: ValueType where "kMaxValue = 127"
definition kValueTypeForSeek :: ValueType where "kValueTypeForSeek = kTypeSingleDeletion"

lemmas value_types = kTypeDeletion_def kTypeValue_def kTypeMerge_def kTypeLogData_def kTypeColumnFamilyDeletion_def
  kTypeColumnFamilyValue_def kTypeColumnFamilyMerge_def kTypeSingleDeletion_def kTypeColumnFamilySingleDeletion_def
  kMaxValue_def kValueTypeForSeek_def

definition IsValueType :: "ValueType \<Rightarrow> bool" where
  "IsValueType t \<longleftrightarrow> t \<le> kTypeMerge \<or> t = kTypeSingleDeletion"

definition kMaxSequenceNumber :: u64 where
  "kMaxSequenceNumber = push_bit 56 1 - 1"

record ParsedInternalKey =
  user_key :: bytes
  seqno :: u64
  vtype :: ValueType

definition InternalKeyEncodingLength :: "ParsedInternalKey \<Rightarrow> nat" where
  "InternalKeyEncodingLength key = length (user_key key) + 8"

text \<open>Both the packing and the update of a trailer compute \<open>(seq << 8) | t\<close>.\<close>

definition pack :: "u64 \<Rightarrow> ValueType \<Rightarrow> u64" where
  "pack s t = push_bit 8 s OR ucast t"

definition PackSequenceAndType :: "u64 \<Rightarrow> ValueType \<Rightarrow> u64 option" where
  "PackSequenceAndType s t =
     (if s \<le> kMaxSequenceNumber \<and> IsValueType t then Some (pack s t) else None)"

definition UnPackSequenceAndType :: "u64 \<Rightarrow> (u64 \<times> ValueType) option" where
  "UnPackSequenceAndType packed =
     (let s = drop_bit 8 packed; t = ucast (packed AND 255) in
      if s \<le> kMaxSequenceNumber \<and> IsValueType t then Some (s, t) else None)"

definition AppendInternalKey :: "bytes \<Rightarrow> ParsedInternalKey \<Rightarrow> bytes option" where
  "AppendInternalKey result key = do {
     let r = result @ user_key key;
     p \<leftarrow> PackSequenceAndType (seqno key) (vtype key);
     Some (PutFixed64 r p) }"

definition ExtractUserKey :: "bytes \<Rightarrow> bytes option" where
  "ExtractUserKey k = (if length k \<ge> 8 then Some (take (length k - 8) k) else None)"

text \<open>The trailer of a key; reading it needs eight bytes.\<close>

definition trailer :: "bytes \<Rightarrow> u64 option" where
  "trailer k = (if length k \<ge> 8 then DecodeFixed64 (drop (length k - 8) k) else None)"

definition ExtractValueType :: "bytes \<Rightarrow> ValueType option" where
  "ExtractValueType k = do { num \<leftarrow> trailer k; Some (ucast (num AND 255)) }"

definition GetInternalKeySeqno :: "bytes \<Rightarrow> u64 option" where
  "GetInternalKeySeqno k = do { num \<leftarrow> trailer k; Some (drop_bit 8 num) }"

text \<open>The inner option is the \<open>bool\<close> result.\<close>

definition ParseInternalKey :: "bytes \<Rightarrow> ParsedInternalKey option option" where
  "ParseInternalKey k =
     (if length k < 8 then Some None
      else do {
        num \<leftarrow> DecodeFixed64 (drop (length k - 8) k);
        let t = ucast (num AND 255);
        if t \<le> kMaxValue
        then Some (if IsValueType t
                   then Some \<lparr>user_key = take (length k - 8) k, seqno = drop_bit 8 num, vtype = t\<rparr> else None)
        else None })"

definition UpdateInternalKey :: "bytes \<Rightarrow> u64 \<Rightarrow> ValueType \<Rightarrow> bytes option" where
  "UpdateInternalKey k s t =
     (if length k \<ge> 8 then Some (take (length k - 8) k @ EncodeFixed64 (pack s t)) else None)"

section \<open>The comparator of internal keys\<close>

definition InternalKey_Compare :: "(bytes \<Rightarrow> bytes \<Rightarrow> int option) \<Rightarrow> bytes \<Rightarrow> bytes \<Rightarrow> int option" where
  "InternalKey_Compare user_compare akey bkey = do {
     a \<leftarrow> ExtractUserKey akey;
     b \<leftarrow> ExtractUserKey bkey;
     r \<leftarrow> user_compare a b;
     if r = 0 then do {
       anum \<leftarrow> trailer akey;
       bnum \<leftarrow> trailer bkey;
       Some (if anum > bnum then -1 else if anum < bnum then 1 else r)
     } else Some r }"

definition ParsedKey_Compare :: "(bytes \<Rightarrow> bytes \<Rightarrow> int option) \<Rightarrow> ParsedInternalKey \<Rightarrow> ParsedInternalKey \<Rightarrow> int option" where
  "ParsedKey_Compare user_compare a b = do {
     r \<leftarrow> user_compare (user_key a) (user_key b);
     Some (if r = 0 then
             (if seqno a > seqno b then -1 else if seqno a < seqno b then 1
              else if vtype a > vtype b then -1 else if vtype a < vtype b then 1 else r)
           else r) }"

text \<open>The two assertions on the shortened key are part of the code.\<close>

definition InternalKey_FindShortestSeparator ::
    "(bytes \<Rightarrow> bytes \<Rightarrow> int option) \<Rightarrow> (bytes \<Rightarrow> bytes \<Rightarrow> bytes option) \<Rightarrow> bytes \<Rightarrow> bytes \<Rightarrow> bytes option" where
  "InternalKey_FindShortestSeparator user_compare user_separator start limit = do {
     user_start \<leftarrow> ExtractUserKey start;
     user_limit \<leftarrow> ExtractUserKey limit;
     tmp \<leftarrow> user_separator user_start user_limit;
     r \<leftarrow> user_compare user_start tmp;
     if length tmp < length user_start \<and> r < 0 then do {
       p \<leftarrow> PackSequenceAndType kMaxSequenceNumber kValueTypeForSeek;
       let tmp = PutFixed64 tmp p;
       r1 \<leftarrow> InternalKey_Compare user_compare start tmp;
       r2 \<leftarrow> InternalKey_Compare user_compare tmp limit;
       if r1 < 0 \<and> r2 < 0 then Some tmp else None
     } else Some start }"

definition InternalKey_FindShortSuccessor ::
    "(bytes \<Rightarrow> bytes \<Rightarrow> int option) \<Rightarrow> (bytes \<Rightarrow> bytes option) \<Rightarrow> bytes \<Rightarrow> bytes option" where
  "InternalKey_FindShortSuccessor user_compare user_successor key = do {
     ukey \<leftarrow> ExtractUserKey key;
     tmp \<leftarrow> user_successor ukey;
     r \<leftarrow> user_compare ukey tmp;
     if length tmp < length ukey \<and> r < 0 then do {
       p \<leftarrow> PackSequenceAndType kMaxSequenceNumber kValueTypeForSeek;
       let tmp = PutFixed64 tmp p;
       r1 \<leftarrow> InternalKey_Compare user_compare key tmp;
       if r1 < 0 then Some tmp else None
     } else Some key }"

section \<open>The class InternalKey\<close>

definition InternalKey_new :: "bytes \<Rightarrow> u64 \<Rightarrow> ValueType \<Rightarrow> bytes option" where
  "InternalKey_new u s t = AppendInternalKey [] \<lparr>user_key = u, seqno = s, vtype = t\<rparr>"

definition SetMaxPossibleForUserKey :: "bytes \<Rightarrow> bytes \<Rightarrow> bytes option" where
  "SetMaxPossibleForUserKey rep u = AppendInternalKey rep \<lparr>user_key = u, seqno = kMaxSequenceNumber, vtype = kValueTypeForSeek\<rparr>"

definition SetMinPossibleForUserKey :: "bytes \<Rightarrow> bytes \<Rightarrow> bytes option" where
  "SetMinPossibleForUserKey rep u = AppendInternalKey rep \<lparr>user_key = u, seqno = 0, vtype = 0\<rparr>"

definition InternalKey_Valid :: "bytes \<Rightarrow> bool option" where
  "InternalKey_Valid rep = map_option (\<lambda>p. p \<noteq> None) (ParseInternalKey rep)"

definition InternalKey_Encode :: "bytes \<Rightarrow> bytes option" where
  "InternalKey_Encode rep = (if rep \<noteq> [] then Some rep else None)"

definition InternalKey_SetFrom :: "bytes \<Rightarrow> ParsedInternalKey \<Rightarrow> bytes option" where
  "InternalKey_SetFrom rep p = AppendInternalKey [] p"

section \<open>Lookup keys\<close>

text \<open>The array and the offset of \<open>kstart_\<close> in it.\<close>

record LookupKey =
  lk_array :: bytes
  lk_kstart :: nat

definition LookupKey_new :: "bytes \<Rightarrow> u64 \<Rightarrow> LookupKey option" where
  "LookupKey_new u s = do {
     let len = EncodeVarint32 (of_nat (length u + 8));
     p \<leftarrow> PackSequenceAndType s kValueTypeForSeek;
     Some \<lparr>lk_array = len @ u @ EncodeFixed64 p, lk_kstart = length len\<rparr> }"

definition memtable_key :: "LookupKey \<Rightarrow> bytes" where
  "memtable_key k = lk_array k"

definition lookup_internal_key :: "LookupKey \<Rightarrow> bytes" where
  "lookup_internal_key k = drop (lk_kstart k) (lk_array k)"

definition lookup_user_key :: "LookupKey \<Rightarrow> bytes" where
  "lookup_user_key k = take (length (lk_array k) - lk_kstart k - 8) (drop (lk_kstart k) (lk_array k))"

section \<open>Prefix extractors on internal keys\<close>

definition InternalKeySliceTransform_Transform :: "(bytes \<Rightarrow> bytes option) \<Rightarrow> bytes \<Rightarrow> bytes option" where
  "InternalKeySliceTransform_Transform transform src = do { u \<leftarrow> ExtractUserKey src; transform u }"

definition InternalKeySliceTransform_InDomain :: "(bytes \<Rightarrow> bool) \<Rightarrow> bytes \<Rightarrow> bool option" where
  "InternalKeySliceTransform_InDomain in_domain src = map_option in_domain (ExtractUserKey src)"

definition InternalKeySliceTransform_InRange :: "(bytes \<Rightarrow> bool) \<Rightarrow> bytes \<Rightarrow> bool option" where
  "InternalKeySliceTransform_InRange in_range dst = map_option in_range (ExtractUserKey dst)"

section \<open>Packing\<close>

lemma kMaxSequenceNumber_num: "kMaxSequenceNumber = 0xffffffffffffff"
  by (simp add: kMaxSequenceNumber_def push_bit_eq_mult)

lemma seqno_bit: "s \<le> kMaxSequenceNumber \<Longrightarrow> bit s n \<Longrightarrow> n < 56" for s :: u64
proof -
  assume "s \<le> kMaxSequenceNumber" "bit s n"
  then have "s < 2 ^ 56" by (simp add: kMaxSequenceNumber_num word_le_nat_alt word_less_nat_alt)
  then have "s AND mask 56 = s" by (rule less_mask_eq)
  then show "n < 56" using \<open>bit s n\<close> by (metis bit_and_iff Bit_Operations.semiring_bit_operations_class.bit_mask_iff)
qed

lemma pack_parts:
  fixes s :: u64 and t :: byte
  assumes "s \<le> kMaxSequenceNumber"
  shows "drop_bit 8 (pack s t) = s" "ucast (pack s t AND 255) = t"
proof -
  show "drop_bit 8 (pack s t) = s"
    by (rule bit_word_eqI) (auto simp: pack_def bit_simps dest: seqno_bit [OF assms] bit_imp_le_length)
  show "ucast (pack s t AND 255) = t"
    by (rule bit_word_eqI) (auto simp: pack_def bit_simps bit_255_int)
qed

lemma unat_drop8: "unat (drop_bit 8 p) = unat p div 256" for p :: u64
  by (simp add: drop_bit_eq_div unat_div)

lemma unat_and255: "unat (ucast (p AND 255) :: byte) = unat p mod 256" for p :: u64
proof -
  have "ucast (p AND 255) = (ucast p :: byte)" by (rule bit_word_eqI) (auto simp: bit_simps bit_255_int)
  then show ?thesis by (simp add: unsigned_ucast_eq take_bit_eq_mod)
qed

lemma pack_unat:
  fixes s :: u64 and t :: byte
  assumes "s \<le> kMaxSequenceNumber"
  shows "unat (pack s t) = 256 * unat s + unat t"
  using unat_drop8 [of "pack s t"] unat_and255 [of "pack s t"]
  unfolding pack_parts [OF assms] by presburger

text \<open>The trailer orders as the pair of sequence number and type.\<close>

lemma pack_less:
  fixes t t' :: byte
  assumes "s \<le> kMaxSequenceNumber" "s' \<le> kMaxSequenceNumber"
  shows "pack s t < pack s' t' \<longleftrightarrow> s < s' \<or> s = s' \<and> t < t'"
proof -
  have "unat t < 256" "unat t' < 256" using unsigned_less [of t, where ?'a = nat] unsigned_less [of t', where ?'a = nat] by simp_all
  then have "256 * unat s + unat t < 256 * unat s' + unat t' \<longleftrightarrow> unat s < unat s' \<or> unat s = unat s' \<and> unat t < unat t'"
    by auto
  then show ?thesis
    by (simp add: word_less_nat_alt pack_unat [OF assms(1)] pack_unat [OF assms(2)] word_unat_eq_iff)
qed

section \<open>Encoded keys\<close>

definition key_valid :: "ParsedInternalKey \<Rightarrow> bool" where
  "key_valid p \<longleftrightarrow> seqno p \<le> kMaxSequenceNumber \<and> IsValueType (vtype p)"

definition encode_key :: "ParsedInternalKey \<Rightarrow> bytes" where
  "encode_key p = user_key p @ EncodeFixed64 (pack (seqno p) (vtype p))"

lemma AppendInternalKey_encode: "key_valid p \<Longrightarrow> AppendInternalKey r p = Some (r @ encode_key p)"
  by (simp add: AppendInternalKey_def PackSequenceAndType_def key_valid_def encode_key_def PutFixed64_def)

lemma DecodeFixed64_Encode0 [simp]: "DecodeFixed64 (EncodeFixed64 v) = Some v"
  using DecodeFixed64_Encode [of v "[]"] by simp

lemma length_encode_key [ikey_simps]: "length (encode_key p) = length (user_key p) + 8"
  by (simp add: encode_key_def)

lemma ExtractUserKey_encode [ikey_simps]: "ExtractUserKey (encode_key p) = Some (user_key p)"
  by (simp add: ExtractUserKey_def encode_key_def)

lemma trailer_encode [ikey_simps]: "trailer (encode_key p) = Some (pack (seqno p) (vtype p))"
  by (simp add: trailer_def encode_key_def)

lemma IsValueType_max: "IsValueType t \<Longrightarrow> t \<le> kMaxValue"
  by (auto simp: IsValueType_def value_types word_le_nat_alt)

lemma IsValueType_seek: "IsValueType t \<Longrightarrow> t \<le> kValueTypeForSeek" "IsValueType kValueTypeForSeek" "IsValueType 0"
  by (auto simp: IsValueType_def value_types word_le_nat_alt)

lemma ParseInternalKey_encode: "key_valid p \<Longrightarrow> ParseInternalKey (encode_key p) = Some (Some p)"
  by (simp add: ParseInternalKey_def length_encode_key key_valid_def IsValueType_max pack_parts encode_key_def Let_def)

lemma GetInternalKeySeqno_encode: "key_valid p \<Longrightarrow> GetInternalKeySeqno (encode_key p) = Some (seqno p)"
  by (simp add: GetInternalKeySeqno_def trailer_encode key_valid_def pack_parts)

lemma ExtractValueType_encode: "key_valid p \<Longrightarrow> ExtractValueType (encode_key p) = Some (vtype p)"
  by (simp add: ExtractValueType_def trailer_encode key_valid_def pack_parts)

lemma UpdateInternalKey_encode: "UpdateInternalKey (encode_key p) s t = Some (encode_key (p\<lparr>seqno := s, vtype := t\<rparr>))"
  by (simp add: UpdateInternalKey_def encode_key_def)

lemma Compare_encode:
  assumes "key_valid p" "key_valid q"
  shows "InternalKey_Compare cmp (encode_key p) (encode_key q) = ParsedKey_Compare cmp p q"
proof -
  have *: "pack (seqno p) (vtype p) < pack (seqno q) (vtype q) \<longleftrightarrow>
      seqno p < seqno q \<or> seqno p = seqno q \<and> vtype p < vtype q"
    "pack (seqno q) (vtype q) < pack (seqno p) (vtype p) \<longleftrightarrow>
      seqno q < seqno p \<or> seqno q = seqno p \<and> vtype q < vtype p"
    using assms by (simp_all add: pack_less key_valid_def)
  have eq: "(if pack (seqno q) (vtype q) < pack (seqno p) (vtype p) then -1
        else if pack (seqno p) (vtype p) < pack (seqno q) (vtype q) then 1 else r) =
      (if seqno p > seqno q then -1 else if seqno p < seqno q then 1
        else if vtype p > vtype q then -1 else if vtype p < vtype q then 1 else r)" for r :: int
    unfolding * by (cases "seqno p" "seqno q" rule: linorder_cases) auto
  show ?thesis
  proof (cases "cmp (user_key p) (user_key q)")
    case (Some r)
    then show ?thesis
      by (cases "r = 0") (simp_all add: InternalKey_Compare_def ParsedKey_Compare_def ikey_simps eq split del: if_split)
  qed (simp add: InternalKey_Compare_def ParsedKey_Compare_def ikey_simps)
qed

section \<open>Internal keys inherit the contract of the user comparator\<close>

definition internal_valid :: "(bytes \<Rightarrow> bool) \<Rightarrow> bytes \<Rightarrow> bool" where
  "internal_valid valid k \<longleftrightarrow> 8 \<le> length k \<and> valid (take (length k - 8) k)"

lemma DecodeFixed64_defined: "length x = 8 \<Longrightarrow> \<exists>v. DecodeFixed64 x = Some v"
  by (auto simp: numeral_eq_Suc length_Suc_conv DecodeFixed64_def)

lemma trailer_defined: "8 \<le> length k \<Longrightarrow> \<exists>v. trailer k = Some v"
  by (simp add: trailer_def DecodeFixed64_defined)

lemma internal_validE:
  assumes "internal_valid valid k"
  obtains u n where "ExtractUserKey k = Some u" "trailer k = Some n" "valid u"
  using assms trailer_defined [of k] by (auto simp: internal_valid_def ExtractUserKey_def)

lemma internal_valid_encode [simp]: "internal_valid valid (encode_key p) \<longleftrightarrow> valid (user_key p)"
  by (simp add: internal_valid_def encode_key_def)

definition seek_key :: "bytes \<Rightarrow> bytes" where
  "seek_key u = encode_key \<lparr>user_key = u, seqno = kMaxSequenceNumber, vtype = kValueTypeForSeek\<rparr>"

lemma Pack_seek: "PackSequenceAndType kMaxSequenceNumber kValueTypeForSeek =
    Some (pack kMaxSequenceNumber kValueTypeForSeek)"
  by (simp add: PackSequenceAndType_def IsValueType_seek)

lemma PutFixed64_seek: "PutFixed64 u (pack kMaxSequenceNumber kValueTypeForSeek) = seek_key u"
  by (simp add: PutFixed64_def seek_key_def encode_key_def)

locale internal_keys = comparator
begin

lemma compare_parts:
  assumes "ExtractUserKey a = Some u" "trailer a = Some m" "ExtractUserKey b = Some v" "trailer b = Some n" "valid u" "valid v"
  obtains r where "InternalKey_Compare compare a b = Some r"
    "r < 0 \<longleftrightarrow> lt u v \<or> compare u v = Some 0 \<and> n < m" "r > 0 \<longleftrightarrow> lt v u \<or> compare u v = Some 0 \<and> m < n"
proof -
  obtain r where r: "compare u v = Some r" using total [OF assms(5,6)] by blast
  note sg = sign(1,3) [OF assms(5,6) r]
  show ?thesis
  proof (cases "r = 0")
    case True
    with sg have "\<not> lt u v" "\<not> lt v u" by simp_all
    moreover have "InternalKey_Compare compare a b = Some (if m > n then -1 else if m < n then 1 else 0)"
      using assms(1-4) r True by (simp add: InternalKey_Compare_def)
    ultimately show ?thesis using r True by (intro that) (assumption, auto)
  next
    case False
    moreover have "InternalKey_Compare compare a b = Some r" using assms(1-4) r False by (simp add: InternalKey_Compare_def)
    ultimately show ?thesis using r sg by (intro that) (assumption, auto)
  qed
qed

end

sublocale internal_keys \<subseteq> internal: comparator "InternalKey_Compare compare" "internal_valid valid"
proof
  fix a b c r s
  assume va: "internal_valid valid a" and vb: "internal_valid valid b"
  obtain u m where a: "ExtractUserKey a = Some u" "trailer a = Some m" "valid u" by (rule internal_validE [OF va])
  obtain v n where b: "ExtractUserKey b = Some v" "trailer b = Some n" "valid v" by (rule internal_validE [OF vb])
  obtain r0 where r0: "InternalKey_Compare compare a b = Some r0" "r0 < 0 \<longleftrightarrow> lt u v \<or> compare u v = Some 0 \<and> n < m"
    "r0 > 0 \<longleftrightarrow> lt v u \<or> compare u v = Some 0 \<and> m < n" by (rule compare_parts [OF a(1,2) b(1,2) a(3) b(3)])
  then show "\<exists>r. InternalKey_Compare compare a b = Some r" by blast
  obtain s0 where s0: "InternalKey_Compare compare b a = Some s0" "s0 < 0 \<longleftrightarrow> lt v u \<or> compare v u = Some 0 \<and> m < n"
    "s0 > 0 \<longleftrightarrow> lt u v \<or> compare v u = Some 0 \<and> n < m" by (rule compare_parts [OF b(1,2) a(1,2) b(3) a(3)])
  have sw: "compare u v = Some 0 \<longleftrightarrow> compare v u = Some 0" using zero_iff a(3) b(3) by auto
  show "sgn s = - sgn r" if "InternalKey_Compare compare a b = Some r" "InternalKey_Compare compare b a = Some s"
  proof -
    have "r < 0 \<longleftrightarrow> s > 0" "r > 0 \<longleftrightarrow> s < 0" using r0 s0 that sw by simp_all
    then show ?thesis by (auto simp: sgn_if)
  qed
  assume vc: "internal_valid valid c"
  obtain w k where c: "ExtractUserKey c = Some w" "trailer c = Some k" "valid w" by (rule internal_validE [OF vc])
  assume ab: "InternalKey_Compare compare a b = Some r" "r \<le> 0" and bc: "InternalKey_Compare compare b c = Some s" "s \<le> 0"
  have 1: "\<not> lt v u" "compare u v = Some 0 \<longrightarrow> n \<le> m" using r0 ab by auto
  obtain t0 where t0: "InternalKey_Compare compare b c = Some t0" "t0 > 0 \<longleftrightarrow> lt w v \<or> compare v w = Some 0 \<and> n < k"
    by (rule compare_parts [OF b(1,2) c(1,2) b(3) c(3)])
  have 2: "\<not> lt w v" "compare v w = Some 0 \<longrightarrow> k \<le> n" using t0 bc by auto
  have le: "le u v" "le v w" using 1(1) 2(1) lt_not_le a(3) b(3) c(3) by blast+
  have uw: "le u w" using le_trans [OF a(3) b(3) c(3) le] .
  have "k \<le> m" if "compare u w = Some 0"
  proof -
    have wu: "le w u" using zero_iff [OF a(3) c(3)] that by simp
    have "le v u" "le w v" using le_trans [OF b(3) c(3) a(3) le(2) wu] le_trans [OF c(3) a(3) b(3) wu le(1)] .
    then have "compare u v = Some 0" "compare v w = Some 0" using le zero_iff a(3) b(3) c(3) by simp_all
    then show ?thesis using 1(2) 2(2) by simp
  qed
  then have no: "\<not> (lt w u \<or> compare u w = Some 0 \<and> m < k)" using uw lt_not_le [OF c(3) a(3)] by auto
  obtain r1 where r1: "InternalKey_Compare compare a c = Some r1" "r1 > 0 \<longleftrightarrow> lt w u \<or> compare u w = Some 0 \<and> m < k"
    by (rule compare_parts [OF a(1,2) c(1,2) a(3) c(3)])
  then show "\<exists>t\<le>0. InternalKey_Compare compare a c = Some t" using no by auto
qed

context internal_keys
begin

lemma internal_lt_user: "valid (user_key p) \<Longrightarrow> valid (user_key q) \<Longrightarrow> lt (user_key p) (user_key q) \<Longrightarrow>
    internal.lt (encode_key p) (encode_key q)"
  using compare_parts [OF ExtractUserKey_encode trailer_encode ExtractUserKey_encode trailer_encode, of p q]
  by (auto simp: internal.lt_def)

text \<open>Versions of one user key: the newer one first.\<close>

lemma internal_le_version:
  assumes "key_valid p" "key_valid q" "user_key p = user_key q" "valid (user_key p)"
  shows "internal.le (encode_key p) (encode_key q) \<longleftrightarrow> seqno q < seqno p \<or> seqno q = seqno p \<and> vtype q \<le> vtype p"
proof -
  have "ParsedKey_Compare compare p q = Some (if seqno p > seqno q then -1 else if seqno p < seqno q then 1
      else if vtype p > vtype q then -1 else if vtype p < vtype q then 1 else 0)"
    using assms(3,4) refl by (simp add: ParsedKey_Compare_def)
  then show ?thesis using Compare_encode [OF assms(1,2), of compare] by (auto simp: internal.le_def not_less)
qed

end

locale internal_separators = separating_comparator + internal_keys
begin

lemma seek_key_valid: "valid s \<Longrightarrow> internal_valid valid (seek_key s)"
  by (simp add: seek_key_def)

lemma seek_key_above:
  assumes "ExtractUserKey a = Some u" "trailer a = Some m" "valid u" "lt u s" "valid s"
  shows "internal.lt a (seek_key s)"
proof -
  obtain r where "InternalKey_Compare compare a (seek_key s) = Some r"
    "r < 0 \<longleftrightarrow> lt u s \<or> compare u s = Some 0 \<and> pack kMaxSequenceNumber kValueTypeForSeek < m"
    using compare_parts [OF assms(1,2), of "seek_key s" s] assms by (auto simp: seek_key_def ikey_simps)
  then show ?thesis using assms(4) by (auto simp: internal.lt_def)
qed

lemma seek_key_below:
  assumes "ExtractUserKey b = Some v" "trailer b = Some n" "valid v" "lt s v" "valid s"
  shows "internal.lt (seek_key s) b"
proof -
  obtain r where "InternalKey_Compare compare (seek_key s) b = Some r"
    "r < 0 \<longleftrightarrow> lt s v \<or> compare s v = Some 0 \<and> n < pack kMaxSequenceNumber kValueTypeForSeek"
    using compare_parts [OF _ _ assms(1,2), of "seek_key s" s] assms by (auto simp: seek_key_def ikey_simps)
  then show ?thesis using assms(4) by (auto simp: internal.lt_def)
qed

lemma internal_successor:
  assumes va: "internal_valid valid a"
  shows "\<exists>s. InternalKey_FindShortSuccessor compare successor a = Some s \<and> internal_valid valid s \<and> internal.le a s"
proof -
  obtain u m where a: "ExtractUserKey a = Some u" "trailer a = Some m" "valid u" by (rule internal_validE [OF va])
  obtain s where s: "successor u = Some s" "valid s" "le u s" using successor [OF a(3)] by blast
  obtain r where r: "compare u s = Some r" using total [OF a(3) s(2)] by blast
  show ?thesis
  proof (cases "length s < length u \<and> r < 0")
    case True
    then have "lt u s" using r by (auto simp: lt_def)
    from seek_key_above [OF a this s(2)] have lt: "internal.lt a (seek_key s)" .
    then obtain r1 where "InternalKey_Compare compare a (seek_key s) = Some r1" "r1 < 0" by (auto simp: internal.lt_def)
    then have "InternalKey_FindShortSuccessor compare successor a = Some (seek_key s)"
      using a s r True by (simp add: InternalKey_FindShortSuccessor_def Pack_seek PutFixed64_seek)
    then show ?thesis using internal.lt_imp_le [OF lt] seek_key_valid [OF s(2)] by blast
  next
    case False
    then have "InternalKey_FindShortSuccessor compare successor a = Some a"
      using a s r by (auto simp: InternalKey_FindShortSuccessor_def)
    then show ?thesis using va internal.le_refl by blast
  qed
qed

lemma internal_separator_unchanged:
  assumes "ExtractUserKey a = Some u" "ExtractUserKey b = Some v" "valid u" "valid v" "compare u v = Some 0"
  shows "InternalKey_FindShortestSeparator compare separator a b = Some a"
  using assms separator_same [of u v] refl [of u] by (simp add: InternalKey_FindShortestSeparator_def)

lemma internal_separator:
  assumes va: "internal_valid valid a" and vb: "internal_valid valid b" and lt: "internal.lt a b"
  shows "\<exists>s. InternalKey_FindShortestSeparator compare separator a b = Some s \<and> internal_valid valid s \<and>
    internal.le a s \<and> internal.lt s b"
proof -
  obtain u m where a: "ExtractUserKey a = Some u" "trailer a = Some m" "valid u" by (rule internal_validE [OF va])
  obtain v n where b: "ExtractUserKey b = Some v" "trailer b = Some n" "valid v" by (rule internal_validE [OF vb])
  have same: ?thesis if "InternalKey_FindShortestSeparator compare separator a b = Some a"
    using that va lt internal.le_refl by blast
  obtain r0 where "InternalKey_Compare compare a b = Some r0" "r0 < 0 \<longleftrightarrow> lt u v \<or> compare u v = Some 0 \<and> n < m"
    by (rule compare_parts [OF a(1,2) b(1,2) a(3) b(3)])
  then consider "compare u v = Some 0" | "lt u v" using lt by (auto simp: internal.lt_def)
  then show ?thesis
  proof cases
    case 1
    then show ?thesis using internal_separator_unchanged a b same by blast
  next
    case 2
    obtain s where s: "separator u v = Some s" "valid s" "le u s" "lt s v" using separator [OF a(3) b(3) 2] by blast
    obtain r where r: "compare u s = Some r" using total [OF a(3) s(2)] by blast
    show ?thesis
    proof (cases "length s < length u \<and> r < 0")
      case True
      then have "lt u s" using r by (auto simp: lt_def)
      note lts = seek_key_above [OF a this s(2)] seek_key_below [OF b s(4,2)]
      then obtain r1 r2 where "InternalKey_Compare compare a (seek_key s) = Some r1" "r1 < 0"
        "InternalKey_Compare compare (seek_key s) b = Some r2" "r2 < 0" by (auto simp: internal.lt_def)
      then have "InternalKey_FindShortestSeparator compare separator a b = Some (seek_key s)"
        using a b s r True by (simp add: InternalKey_FindShortestSeparator_def Pack_seek PutFixed64_seek)
      then show ?thesis using internal.lt_imp_le [OF lts(1)] lts(2) seek_key_valid [OF s(2)] by blast
    next
      case False
      then have "InternalKey_FindShortestSeparator compare separator a b = Some a"
        using a b s r by (auto simp: InternalKey_FindShortestSeparator_def)
      then show ?thesis by (rule same)
    qed
  qed
qed

end

sublocale internal_separators \<subseteq> internal: separating_comparator "InternalKey_Compare compare" "internal_valid valid"
    "InternalKey_FindShortestSeparator compare separator" "InternalKey_FindShortSuccessor compare successor"
proof
  fix a b
  assume va: "internal_valid valid a"
  show "\<exists>s. InternalKey_FindShortSuccessor compare successor a = Some s \<and> internal_valid valid s \<and> internal.le a s"
    by (rule internal_successor [OF va])
  assume vb: "internal_valid valid b"
  show "\<exists>s. InternalKey_FindShortestSeparator compare separator a b = Some s \<and> internal_valid valid s \<and>
      internal.le a s \<and> internal.lt s b" if "internal.lt a b"
    by (rule internal_separator [OF va vb that])
  show "InternalKey_FindShortestSeparator compare separator a b = Some a" if "InternalKey_Compare compare a b = Some 0"
  proof -
    obtain u m where a: "ExtractUserKey a = Some u" "trailer a = Some m" "valid u" by (rule internal_validE [OF va])
    obtain v n where b: "ExtractUserKey b = Some v" "trailer b = Some n" "valid v" by (rule internal_validE [OF vb])
    obtain r where r: "InternalKey_Compare compare a b = Some r" "r < 0 \<longleftrightarrow> lt u v \<or> compare u v = Some 0 \<and> n < m"
      "r > 0 \<longleftrightarrow> lt v u \<or> compare u v = Some 0 \<and> m < n" by (rule compare_parts [OF a(1,2) b(1,2) a(3) b(3)])
    with that have "\<not> lt u v" "\<not> lt v u" by simp_all
    then have "compare u v = Some 0" using zero_iff [OF a(3) b(3)] lt_not_le a(3) b(3) by blast
    then show ?thesis using internal_separator_unchanged a b by blast
  qed
qed

interpretation ikey: internal_separators Bytewise_Compare "\<lambda>_. True" FindShortestSeparator "\<lambda>k. Some (FindShortSuccessor k)"
  by unfold_locales

interpretation rikey: internal_keys ReverseBytewise_Compare "\<lambda>_. True"
  by unfold_locales

section \<open>Lookups\<close>

lemma LookupKey_new_ok:
  assumes "s \<le> kMaxSequenceNumber"
  shows "\<exists>k. LookupKey_new u s = Some k \<and>
    lookup_internal_key k = encode_key \<lparr>user_key = u, seqno = s, vtype = kValueTypeForSeek\<rparr> \<and> lookup_user_key k = u \<and>
    memtable_key k = PutLengthPrefixedSlice [] (lookup_internal_key k)"
  using assms
  by (simp add: LookupKey_new_def PackSequenceAndType_def IsValueType_seek lookup_internal_key_def lookup_user_key_def
      memtable_key_def encode_key_def PutLengthPrefixedSlice_def PutVarint32_def Let_def)

lemma AppendInternalKeyD: "AppendInternalKey [] p = Some a \<Longrightarrow> key_valid p \<and> a = encode_key p"
  by (auto simp: AppendInternalKey_def PackSequenceAndType_def key_valid_def encode_key_def PutFixed64_def bind_eq_Some_conv
      split: if_splits)



text \<open>
  C13. A lookup key for the snapshot \<open>s\<close> splits the versions of its user key: a version sorts at or
  after the lookup key exactly when its sequence number is at most \<open>s\<close>, so the first entry a seek
  finds is the newest version the snapshot sees.
\<close>

theorem lookup_key_splits_versions:
  assumes "LookupKey_new u s = Some k" "InternalKey_new u q t = Some v"
  shows "\<exists>r. InternalKey_Compare Bytewise_Compare (lookup_internal_key k) v = Some r \<and> (r \<le> 0 \<longleftrightarrow> q \<le> s)"
proof -
  let ?p = "\<lparr>user_key = u, seqno = s, vtype = kValueTypeForSeek\<rparr>" and ?q = "\<lparr>user_key = u, seqno = q, vtype = t\<rparr>"
  have s: "s \<le> kMaxSequenceNumber"
    using assms(1) by (auto simp: LookupKey_new_def PackSequenceAndType_def bind_eq_Some_conv Let_def split: if_splits)
  have k: "lookup_internal_key k = encode_key ?p" using LookupKey_new_ok [OF s, of u] assms(1) by auto
  have v: "key_valid ?q" "v = encode_key ?q" using AppendInternalKeyD assms(2) by (auto simp: InternalKey_new_def)
  have p: "key_valid ?p" using s by (simp add: key_valid_def IsValueType_seek)
  have t: "t \<le> kValueTypeForSeek" using v(1) IsValueType_seek(1) by (simp add: key_valid_def)
  obtain r where r: "InternalKey_Compare Bytewise_Compare (encode_key ?p) (encode_key ?q) = Some r"
    using ikey.internal.total [of "encode_key ?p" "encode_key ?q"] by auto
  have "r \<le> 0 \<longleftrightarrow> ikey.internal.le (encode_key ?p) (encode_key ?q)" using ikey.internal.sign(2) [OF _ _ r] by simp
  also have "\<dots> \<longleftrightarrow> q \<le> s" using ikey.internal_le_version [OF p v(1)] t by auto
  finally show ?thesis using r k v(2) by auto
qed

theorem lookup_key_splits_versions_witness:
  "\<exists>k v r. LookupKey_new [107] 6 = Some k \<and> InternalKey_new [107] 7 1 = Some v \<and>
     InternalKey_Compare Bytewise_Compare (lookup_internal_key k) v = Some r \<and> r > 0"
proof -
  obtain k where k: "LookupKey_new [107] 6 = Some k" using LookupKey_new_ok [of 6 "[107]"] by (auto simp: kMaxSequenceNumber_num)
  have "key_valid \<lparr>user_key = [107], seqno = 7, vtype = 1\<rparr>"
    by (simp add: key_valid_def IsValueType_def value_types kMaxSequenceNumber_num)
  then obtain v where v: "InternalKey_new [107] 7 1 = Some v" using AppendInternalKey_encode by (auto simp: InternalKey_new_def)
  from lookup_key_splits_versions [OF k v] k v show ?thesis by auto
qed

text \<open>
  C14. \<open>InternalKeyComparator\<close> shortens index keys correctly: for internal keys \<open>a\<close> before \<open>b\<close> the
  separator is defined (both assertions hold) and lies in \<open>[a, b)\<close> of the internal order.
\<close>

theorem internal_separator_between:
  assumes "8 \<le> length a" "8 \<le> length b" "InternalKey_Compare Bytewise_Compare a b = Some r" "r < 0"
  shows "\<exists>s r1 r2. InternalKey_FindShortestSeparator Bytewise_Compare FindShortestSeparator a b = Some s \<and>
    InternalKey_Compare Bytewise_Compare a s = Some r1 \<and> r1 \<le> 0 \<and> InternalKey_Compare Bytewise_Compare s b = Some r2 \<and> r2 < 0"
proof -
  have v: "internal_valid (\<lambda>_. True) a" "internal_valid (\<lambda>_. True) b" using assms(1,2) by (simp_all add: internal_valid_def)
  have "ikey.internal.lt a b" using assms(3,4) by (auto simp: ikey.internal.lt_def)
  from ikey.internal.separator [OF v this] show ?thesis by (auto simp: ikey.internal.lt_def ikey.internal.le_def)
qed

theorem internal_separator_between_witness:
  "\<exists>a b s. 8 \<le> length a \<and> 8 \<le> length b \<and>
     InternalKey_FindShortestSeparator Bytewise_Compare FindShortestSeparator a b = Some s"
proof -
  let ?p = "\<lparr>user_key = [97, 97], seqno = 1, vtype = 1\<rparr>" and ?q = "\<lparr>user_key = [99], seqno = 1, vtype = 1\<rparr>"
  have "ikey.internal.lt (encode_key ?p) (encode_key ?q)" by (rule ikey.internal_lt_user) simp_all
  then obtain r where "InternalKey_Compare Bytewise_Compare (encode_key ?p) (encode_key ?q) = Some r" "r < 0"
    by (auto simp: ikey.internal.lt_def)
  from internal_separator_between [OF _ _ this]
  obtain s where "InternalKey_FindShortestSeparator Bytewise_Compare FindShortestSeparator (encode_key ?p) (encode_key ?q) = Some s"
    by (auto simp: length_encode_key)
  moreover have "8 \<le> length (encode_key ?p)" "8 \<le> length (encode_key ?q)" by (simp_all add: length_encode_key)
  ultimately show ?thesis by blast
qed

text \<open>
  C15. \<open>SetMaxPossibleForUserKey\<close> builds the first internal key of a user key and
  \<open>SetMinPossibleForUserKey\<close> the last one: in the internal order the former is at or before, and
  the latter at or after, every version of the key, the opposite of what their comments say.
\<close>

theorem max_possible_is_first:
  assumes "InternalKey_new u s t = Some v"
  shows "\<exists>hi lo r1 r2. SetMaxPossibleForUserKey [] u = Some hi \<and> SetMinPossibleForUserKey [] u = Some lo \<and>
    InternalKey_Compare Bytewise_Compare hi v = Some r1 \<and> r1 \<le> 0 \<and> InternalKey_Compare Bytewise_Compare v lo = Some r2 \<and> r2 \<le> 0"
proof -
  let ?v = "\<lparr>user_key = u, seqno = s, vtype = t\<rparr>"
    and ?h = "\<lparr>user_key = u, seqno = kMaxSequenceNumber, vtype = kValueTypeForSeek\<rparr>"
    and ?l = "\<lparr>user_key = u, seqno = 0, vtype = 0\<rparr>"
  have v: "key_valid ?v" "v = encode_key ?v" using AppendInternalKeyD assms by (auto simp: InternalKey_new_def)
  have h: "key_valid ?h" "key_valid ?l" by (simp_all add: key_valid_def IsValueType_seek)
  have s: "s \<le> kMaxSequenceNumber" "t \<le> kValueTypeForSeek" using v(1) IsValueType_seek(1) by (simp_all add: key_valid_def)
  have "ikey.internal.le (encode_key ?h) v" using ikey.internal_le_version [OF h(1) v(1)] s v(2) by auto
  moreover have "ikey.internal.le v (encode_key ?l)" using ikey.internal_le_version [OF v(1) h(2)] v(2) by (auto simp: word_gt_0)
  ultimately show ?thesis using AppendInternalKey_encode h
    by (fastforce simp: ikey.internal.le_def SetMaxPossibleForUserKey_def SetMinPossibleForUserKey_def)
qed

theorem max_possible_is_first_witness:
  "\<exists>v hi r1. InternalKey_new [107] 7 1 = Some v \<and> SetMaxPossibleForUserKey [] [107] = Some hi \<and>
     InternalKey_Compare Bytewise_Compare hi v = Some r1 \<and> r1 \<le> 0"
proof -
  have "key_valid \<lparr>user_key = [107], seqno = 7, vtype = 1\<rparr>"
    by (simp add: key_valid_def IsValueType_def value_types kMaxSequenceNumber_num)
  then obtain v where v: "InternalKey_new [107] 7 1 = Some v" using AppendInternalKey_encode by (auto simp: InternalKey_new_def)
  from max_possible_is_first [OF v] v show ?thesis by blast
qed



end
