(* ===== verification/Iter_Key.thy ===== *)
theory Iter_Key
  imports DBFormat
begin

text \<open>
  \<open>IterKey\<close> (db/dbformat.h): the growing key buffer of block and database iterators.  The buffer
  is a list of cells, \<open>None\<close> for memory that was never written; \<open>key_\<close> points to the buffer, to
  external memory (a pinned key), or to a buffer that has been replaced.  Reading an unwritten cell
  or through a stale pointer, and writing past the end, are undefined.  Arguments do not alias the
  buffer.
\<close>

section \<open>Memory\<close>

definition mem_write :: "byte option list \<Rightarrow> nat \<Rightarrow> bytes \<Rightarrow> byte option list option" where
  "mem_write m off bs =
     (if off + length bs \<le> length m then Some (take off m @ map Some bs @ drop (off + length bs) m) else None)"

definition mem_read :: "byte option list \<Rightarrow> nat \<Rightarrow> bytes option" where
  "mem_read m n = (if n \<le> length m then those (take n m) else None)"

definition new_mem :: "nat \<Rightarrow> byte option list" where
  "new_mem n = replicate n None"

section \<open>The class IterKey\<close>

datatype key_ptr = In_buf | External bytes | Stale

record IterKey =
  ik_buf :: "byte option list"
  ik_heap :: bool
  ik_key :: key_ptr
  ik_size :: nat

definition IterKey_new :: IterKey where
  "IterKey_new = \<lparr>ik_buf = new_mem 32, ik_heap = False, ik_key = In_buf, ik_size = 0\<rparr>"

definition key_read :: "IterKey \<Rightarrow> nat \<Rightarrow> bytes option" where
  "key_read k n = (case ik_key k of In_buf \<Rightarrow> mem_read (ik_buf k) n
     | External x \<Rightarrow> (if n \<le> length x then Some (take n x) else None) | Stale \<Rightarrow> None)"

definition GetKey :: "IterKey \<Rightarrow> bytes option" where
  "GetKey k = key_read k (ik_size k)"

definition GetUserKey :: "IterKey \<Rightarrow> bytes option" where
  "GetUserKey k = (if ik_size k \<ge> 8 then key_read k (ik_size k - 8) else None)"

definition IterKey_Clear :: "IterKey \<Rightarrow> IterKey" where
  "IterKey_Clear k = k\<lparr>ik_size := 0\<rparr>"

definition IsKeyPinned :: "IterKey \<Rightarrow> bool" where
  "IsKeyPinned k \<longleftrightarrow> ik_key k \<noteq> In_buf"

text \<open>What \<open>key_\<close> points to when the buffer it pointed to is replaced.\<close>

definition unbuffer :: "key_ptr \<Rightarrow> key_ptr" where
  "unbuffer p = (case p of In_buf \<Rightarrow> Stale | _ \<Rightarrow> p)"

definition ResetBuffer :: "IterKey \<Rightarrow> IterKey" where
  "ResetBuffer k = (if ik_heap k
     then k\<lparr>ik_buf := new_mem 32, ik_heap := False, ik_key := unbuffer (ik_key k), ik_size := 0\<rparr>
     else k\<lparr>ik_size := 0\<rparr>)"

definition EnlargeBufferIfNeeded :: "nat \<Rightarrow> IterKey \<Rightarrow> IterKey" where
  "EnlargeBufferIfNeeded n k =
     (if n > length (ik_buf k) then
        (let k = ResetBuffer k in k\<lparr>ik_buf := new_mem n, ik_heap := True, ik_key := unbuffer (ik_key k)\<rparr>)
      else k)"

definition TrimAppend :: "nat \<Rightarrow> bytes \<Rightarrow> IterKey \<Rightarrow> IterKey option" where
  "TrimAppend shared_len x k =
     (if shared_len \<le> ik_size k then do {
        let total_size = shared_len + length x;
        k1 \<leftarrow> (if IsKeyPinned k then do {
                 let k' = EnlargeBufferIfNeeded total_size k;
                 s \<leftarrow> key_read k' shared_len;
                 b \<leftarrow> mem_write (ik_buf k') 0 s;
                 Some (k'\<lparr>ik_buf := b\<rparr>)
               } else if total_size > length (ik_buf k) then do {
                 s \<leftarrow> key_read k shared_len;
                 b \<leftarrow> mem_write (new_mem total_size) 0 s;
                 Some (k\<lparr>ik_buf := b, ik_heap := True\<rparr>)
               } else Some k);
        b \<leftarrow> mem_write (ik_buf k1) shared_len x;
        Some (k1\<lparr>ik_buf := b, ik_key := In_buf, ik_size := total_size\<rparr>)
      } else None)"

definition SetKey :: "bytes \<Rightarrow> bool \<Rightarrow> IterKey \<Rightarrow> IterKey option" where
  "SetKey key copy k =
     (if copy then do {
        let k' = EnlargeBufferIfNeeded (length key) k;
        b \<leftarrow> mem_write (ik_buf k') 0 key;
        Some (k'\<lparr>ik_buf := b, ik_key := In_buf, ik_size := length key\<rparr>)
      } else Some (k\<lparr>ik_key := External key, ik_size := length key\<rparr>))"

text \<open>\<open>SetKey(key, ikey)\<close>: the second result is the user key \<open>ikey\<close> refers to afterwards.\<close>

definition SetKeyParsed :: "bytes \<Rightarrow> ParsedInternalKey \<Rightarrow> IterKey \<Rightarrow> (IterKey \<times> ParsedInternalKey) option" where
  "SetKeyParsed key parsed k =
     (if length key \<ge> 8 then do {
        k' \<leftarrow> SetKey key True k;
        u \<leftarrow> key_read k' (length key - 8);
        Some (k', parsed\<lparr>user_key := u\<rparr>)
      } else None)"

definition IterKey_UpdateInternalKey :: "u64 \<Rightarrow> ValueType \<Rightarrow> IterKey \<Rightarrow> IterKey option" where
  "IterKey_UpdateInternalKey s t k =
     (if \<not> IsKeyPinned k \<and> ik_size k \<ge> 8 then do {
        b \<leftarrow> mem_write (ik_buf k) (ik_size k - 8) (EncodeFixed64 (pack s t));
        Some (k\<lparr>ik_buf := b\<rparr>)
      } else None)"

definition SetInternalKey :: "bytes \<Rightarrow> bytes \<Rightarrow> u64 \<Rightarrow> ValueType \<Rightarrow> IterKey \<Rightarrow> IterKey option" where
  "SetInternalKey key_prefix u s t k = do {
     let psize = length key_prefix;
     let usize = length u;
     let k' = EnlargeBufferIfNeeded (psize + usize + 8) k;
     b1 \<leftarrow> (if psize > 0 then mem_write (ik_buf k') 0 key_prefix else Some (ik_buf k'));
     b2 \<leftarrow> mem_write b1 psize u;
     p \<leftarrow> PackSequenceAndType s t;
     b3 \<leftarrow> mem_write b2 (usize + psize) (EncodeFixed64 p);
     Some (k'\<lparr>ik_buf := b3, ik_key := In_buf, ik_size := psize + usize + 8\<rparr>) }"

definition SetInternalKeyParsed :: "bytes \<Rightarrow> ParsedInternalKey \<Rightarrow> IterKey \<Rightarrow> IterKey option" where
  "SetInternalKeyParsed key_prefix p k = SetInternalKey key_prefix (user_key p) (seqno p) (vtype p) k"

definition Reserve :: "nat \<Rightarrow> IterKey \<Rightarrow> IterKey" where
  "Reserve n k = (EnlargeBufferIfNeeded n k)\<lparr>ik_size := n\<rparr>"

definition EncodeLengthPrefixedKey :: "bytes \<Rightarrow> IterKey \<Rightarrow> IterKey option" where
  "EncodeLengthPrefixedKey key k = do {
     let n = length key;
     let k' = EnlargeBufferIfNeeded (n + VarintLength (of_nat n)) k;
     let len = EncodeVarint32 (of_nat n);
     b1 \<leftarrow> mem_write (ik_buf k') 0 len;
     b2 \<leftarrow> mem_write b1 (length len) key;
     Some (k'\<lparr>ik_buf := b2, ik_key := In_buf\<rparr>) }"

section \<open>Correctness\<close>

lemma those_map_Some [simp]: "those (map Some xs) = Some xs"
  by (induction xs) auto

lemma those_append: "those (xs @ ys) = do { a \<leftarrow> those xs; b \<leftarrow> those ys; Some (a @ b) }"
  by (induction xs) (auto split: option.splits bind_splits)

lemma those_take: "those xs = Some ys \<Longrightarrow> those (take n xs) = Some (take n ys)"
  by (induction xs arbitrary: ys n) (auto simp: take_Cons split: option.splits nat.splits)

lemma mem_write_ok: "off + length bs \<le> length m \<Longrightarrow>
    \<exists>m'. mem_write m off bs = Some m' \<and> length m' = length m \<and> take (off + length bs) m' = take off m @ map Some bs"
  by (simp add: mem_write_def)

lemma mem_write_read:
  assumes "mem_read m n = Some x" "n + length bs \<le> length m"
  shows "\<exists>m'. mem_write m n bs = Some m' \<and> length m' = length m \<and> mem_read m' (n + length bs) = Some (x @ bs)"
  using mem_write_ok [OF assms(2)] assms by (auto simp: mem_read_def those_append)

lemma mem_read_0 [simp]: "mem_read m 0 = Some []"
  by (simp add: mem_read_def)

lemma length_new_mem [simp]: "length (new_mem n) = n"
  by (simp add: new_mem_def)

lemma Enlarge_ok [simp]: "n \<le> length (ik_buf (EnlargeBufferIfNeeded n k))"
  by (simp add: EnlargeBufferIfNeeded_def Let_def)

lemma Enlarge_External: "ik_key k = External x \<Longrightarrow> ik_key (EnlargeBufferIfNeeded n k) = External x"
  by (simp add: EnlargeBufferIfNeeded_def ResetBuffer_def unbuffer_def Let_def)

lemma key_read_prefix: "GetKey k = Some x \<Longrightarrow> n \<le> ik_size k \<Longrightarrow> key_read k n = Some (take n x)"
proof -
  assume a: "GetKey k = Some x" "n \<le> ik_size k"
  show ?thesis
  proof (cases "ik_key k")
    case In_buf
    then have "ik_size k \<le> length (ik_buf k)" "those (take (ik_size k) (ik_buf k)) = Some x"
      using a(1) by (auto simp: GetKey_def key_read_def mem_read_def split: if_splits)
    then show ?thesis using In_buf a(2) those_take [of "take (ik_size k) (ik_buf k)" x n]
      by (simp add: key_read_def mem_read_def min_def)
  qed (use a in \<open>auto simp: GetKey_def key_read_def min_def split: if_splits\<close>)
qed

lemma length_GetKey: "GetKey k = Some x \<Longrightarrow> length x = ik_size k"
proof -
  have "those xs = Some ys \<Longrightarrow> length ys = length xs" for xs :: "byte option list" and ys
    by (induction xs arbitrary: ys) (auto split: option.splits)
  then show "GetKey k = Some x \<Longrightarrow> length x = ik_size k"
    by (fastforce simp: GetKey_def key_read_def mem_read_def split: key_ptr.splits if_splits)
qed

lemma SetKey_ok: "\<exists>k'. SetKey key copy k = Some k' \<and> GetKey k' = Some key"
proof (cases copy)
  case True
  from mem_write_read [of "ik_buf (EnlargeBufferIfNeeded (length key) k)" 0 "[]" key]
  show ?thesis using True by (auto simp: SetKey_def GetKey_def key_read_def)
qed (simp add: SetKey_def GetKey_def key_read_def)

lemma TrimAppend_ok:
  assumes "GetKey k = Some x" "n \<le> length x"
  shows "\<exists>k'. TrimAppend n y k = Some k' \<and> GetKey k' = Some (take n x @ y) \<and> \<not> IsKeyPinned k'"
proof -
  have n: "n \<le> ik_size k" using assms length_GetKey by simp
  have rd: "key_read k n = Some (take n x)" by (rule key_read_prefix [OF assms(1) n])
  have fresh: "\<exists>b. mem_write m 0 (take n x) = Some b \<and> length b = length m \<and> mem_read b n = Some (take n x)"
    if "n \<le> length m" for m
    using mem_write_read [of m 0 "[]" "take n x"] that assms(2) by simp
  have fin: "\<exists>k'. (do { b \<leftarrow> mem_write (ik_buf k1) n y; Some (k1\<lparr>ik_buf := b, ik_key := In_buf, ik_size := n + length y\<rparr>) }) = Some k' \<and>
      GetKey k' = Some (take n x @ y) \<and> \<not> IsKeyPinned k'"
    if "mem_read (ik_buf k1) n = Some (take n x)" "n + length y \<le> length (ik_buf k1)" for k1
    using mem_write_read [OF that] by (auto simp: GetKey_def key_read_def IsKeyPinned_def)
  consider (pin) e where "ik_key k = External e" | (buf) "ik_key k = In_buf"
    using rd by (cases "ik_key k") (auto simp: key_read_def)
  then show ?thesis
  proof cases
    case pin
    let ?k = "EnlargeBufferIfNeeded (n + length y) k"
    have ext: "key_read ?k n = Some (take n x)" using rd Enlarge_External [OF pin] pin by (simp add: key_read_def)
    have "n \<le> length (ik_buf ?k)" using Enlarge_ok [of "n + length y" k] by linarith
    from fresh [OF this] obtain b where b: "mem_write (ik_buf ?k) 0 (take n x) = Some b"
      "length b = length (ik_buf ?k)" "mem_read b n = Some (take n x)" by blast
    then show ?thesis using fin [of "?k\<lparr>ik_buf := b\<rparr>"] pin n ext by (simp add: TrimAppend_def IsKeyPinned_def Let_def)
  next
    case buf
    show ?thesis
    proof (cases "n + length y > length (ik_buf k)")
      case True
      obtain b where "mem_write (new_mem (n + length y)) 0 (take n x) = Some b" "length b = n + length y"
        "mem_read b n = Some (take n x)" using fresh [of "new_mem (n + length y)"] by auto
      then show ?thesis using fin [of "k\<lparr>ik_buf := b, ik_heap := True\<rparr>"] buf True n rd
        by (simp add: TrimAppend_def IsKeyPinned_def Let_def)
    next
      case False
      then show ?thesis using fin [of k] buf n rd by (simp add: TrimAppend_def IsKeyPinned_def Let_def key_read_def)
    qed
  qed
qed

lemma SetInternalKey_ok:
  assumes "s \<le> kMaxSequenceNumber" "IsValueType t"
  shows "\<exists>k'. SetInternalKey p u s t k = Some k' \<and>
    GetKey k' = Some (p @ encode_key \<lparr>user_key = u, seqno = s, vtype = t\<rparr>) \<and> \<not> IsKeyPinned k'"
proof -
  let ?b = "ik_buf (EnlargeBufferIfNeeded (length p + length u + 8) k)"
  have len: "length p + length u + 8 \<le> length ?b" by simp
  obtain b1 where b1: "(if length p > 0 then mem_write ?b 0 p else Some ?b) = Some b1" "length b1 = length ?b"
    "mem_read b1 (length p) = Some p"
    using mem_write_read [of ?b 0 "[]" p] len by (cases "p = []") auto
  obtain b2 where b2: "mem_write b1 (length p) u = Some b2" "length b2 = length ?b"
    "mem_read b2 (length p + length u) = Some (p @ u)" using mem_write_read [OF b1(3), of u] b1(2) len by auto
  obtain b3 where b3: "mem_write b2 (length p + length u) (EncodeFixed64 (pack s t)) = Some b3"
    "mem_read b3 (length p + length u + 8) = Some ((p @ u) @ EncodeFixed64 (pack s t))"
    using mem_write_read [OF b2(3), of "EncodeFixed64 (pack s t)"] b2(2) len by auto
  show ?thesis using b1(1) b2(1) b3 assms
    by (simp add: SetInternalKey_def PackSequenceAndType_def Let_def GetKey_def key_read_def encode_key_def
        IsKeyPinned_def add.commute)
qed

text \<open>\<open>EncodeLengthPrefixedKey\<close> writes the prefixed key into the buffer, but leaves the size of the key as it was.\<close>

lemma EncodeLengthPrefixedKey_ok:
  assumes "length key < 2 ^ 32"
  shows "\<exists>k'. EncodeLengthPrefixedKey key k = Some k' \<and> ik_key k' = In_buf \<and>
    mem_read (ik_buf k') (length (PutLengthPrefixedSlice [] key)) = Some (PutLengthPrefixedSlice [] key) \<and>
    ik_size k' = ik_size (EnlargeBufferIfNeeded (length key + VarintLength (of_nat (length key))) k)"
proof -
  let ?n = "of_nat (length key) :: u32" and ?b = "ik_buf (EnlargeBufferIfNeeded (length key + VarintLength (of_nat (length key))) k)"
  have "unat (ucast ?n :: u64) = unat (of_nat (length key) :: u64)"
    using assms by (simp add: unat_ucast_up unat_of_nat)
  then have "ucast ?n = (of_nat (length key) :: u64)" by (simp add: word_unat_eq_iff)
  then have len: "length (EncodeVarint32 ?n) = VarintLength (of_nat (length key))"
    by (simp add: EncodeVarint32_eq VarintLength_eq)
  have fit: "length key + VarintLength (of_nat (length key)) \<le> length ?b" by simp
  obtain b1 where b1: "mem_write ?b 0 (EncodeVarint32 ?n) = Some b1" "length b1 = length ?b"
    "mem_read b1 (length (EncodeVarint32 ?n)) = Some (EncodeVarint32 ?n)"
    using mem_write_read [of ?b 0 "[]" "EncodeVarint32 ?n"] len fit by auto
  obtain b2 where "mem_write b1 (length (EncodeVarint32 ?n)) key = Some b2"
    "mem_read b2 (length (EncodeVarint32 ?n) + length key) = Some (EncodeVarint32 ?n @ key)"
    using mem_write_read [OF b1(3), of key] b1(2) len fit by auto
  then show ?thesis using b1(1)
    by (simp add: EncodeLengthPrefixedKey_def Let_def PutLengthPrefixedSlice_def PutVarint32_def)
qed

text \<open>
  C18. \<open>TrimAppend\<close> keeps the shared prefix of a readable key, pinned or buffered, and appends the new
  bytes, growing the buffer without losing a byte or writing past its end.
\<close>

theorem iter_key_trim_append:
  assumes "GetKey k = Some x" "n \<le> length x"
  shows "\<exists>k'. TrimAppend n y k = Some k' \<and> GetKey k' = Some (take n x @ y)"
  using TrimAppend_ok [OF assms, of y] by blast

theorem iter_key_trim_append_witness:
  "\<exists>k k'. SetKey [1, 2, 3] False IterKey_new = Some k \<and> TrimAppend 2 (replicate 40 9) k = Some k' \<and>
     GetKey k' = Some ([1, 2] @ replicate 40 9)"
proof -
  obtain k where k: "SetKey [1, 2, 3] False IterKey_new = Some k" "GetKey k = Some [1, 2, 3]"
    using SetKey_ok [of "[1, 2, 3]" False IterKey_new] by blast
  from iter_key_trim_append [OF k(2), of 2 "replicate 40 9"] k(1) show ?thesis by auto
qed

end
