(* ===== verification/Hashing.thy ===== *)
theory Hashing
  imports Coding
begin

text \<open>
  The hash functions of util/hash.cc, util/hash.h and util/murmurhash.cc (the 64-bit variant), and
  the linear congruential generator of util/random.h.
\<close>

section \<open>The generator\<close>

definition Random_M :: u32 where "Random_M = 2147483647"
definition Random_A :: u64 where "Random_A = 16807"

text \<open>A generator is its seed.\<close>

definition GoodSeed :: "u32 \<Rightarrow> u32" where
  "GoodSeed s = (if s AND Random_M \<noteq> 0 then s AND Random_M else 1)"

definition Random_new :: "u32 \<Rightarrow> u32" where
  "Random_new s = GoodSeed s"

definition Random_Next :: "u32 \<Rightarrow> u32" where
  "Random_Next seed =
     (let product = ucast seed * Random_A;
          seed = (ucast (drop_bit 31 product + (product AND ucast Random_M)) :: u32) in
      if seed > Random_M then seed - Random_M else seed)"

text \<open>The value and the generator after the call; the argument is an \<open>int\<close> converted to unsigned.\<close>

definition Random_Uniform :: "int \<Rightarrow> u32 \<Rightarrow> (u32 \<times> u32) option" where
  "Random_Uniform n seed =
     (if (of_int n :: u32) = 0 then None else Some (Random_Next seed mod of_int n, Random_Next seed))"

definition Random_OneIn :: "int \<Rightarrow> u32 \<Rightarrow> (bool \<times> u32) option" where
  "Random_OneIn n seed =
     (if (of_int n :: u32) = 0 then None else Some (Random_Next seed mod of_int n = 0, Random_Next seed))"

definition Random_Skewed :: "int \<Rightarrow> u32 \<Rightarrow> (u32 \<times> u32) option" where
  "Random_Skewed max_log seed = do {
     (base, seed) \<leftarrow> Random_Uniform (max_log + 1) seed;
     if unat base < 31 then Random_Uniform (2 ^ unat base) seed else None }"

section \<open>Hash\<close>

definition Hash_m :: u32 where "Hash_m = 0xc6a4a793"

fun Hash_words :: "bytes \<Rightarrow> u32 \<Rightarrow> (u32 \<times> bytes) option" where
  "Hash_words (a # b # c # d # rest) h = do {
     w \<leftarrow> DecodeFixed32 (a # b # c # d # rest);
     let h = (h + w) * Hash_m;
     Hash_words rest (h XOR drop_bit 16 h) }"
| "Hash_words rest h = Some (h, rest)"

text \<open>The last bytes enter sign-extended.\<close>

definition Hash_tail :: "bytes \<Rightarrow> u32 \<Rightarrow> u32" where
  "Hash_tail rest h =
     (let h = (if length rest \<ge> 3 then h + push_bit 16 (scast (rest ! 2)) else h);
          h = (if length rest \<ge> 2 then h + push_bit 8 (scast (rest ! 1)) else h) in
      if length rest \<ge> 1 then (let h = (h + scast (rest ! 0)) * Hash_m in h XOR drop_bit 24 h) else h)"

definition Hash :: "bytes \<Rightarrow> u32 \<Rightarrow> u32 option" where
  "Hash p seed = do {
     (h, rest) \<leftarrow> Hash_words p (ucast (ucast seed XOR (of_nat (length p) * ucast Hash_m :: u64)));
     Some (Hash_tail rest h) }"

definition BloomHash :: "bytes \<Rightarrow> u32 option" where
  "BloomHash key = Hash key 0xbc9f1d34"

definition GetSliceHash :: "bytes \<Rightarrow> u32 option" where
  "GetSliceHash s = Hash s 397"

section \<open>MurmurHash64A\<close>

definition Murmur_m :: u64 where "Murmur_m = 0xc6a4a7935bd1e995"

fun Murmur_words :: "bytes \<Rightarrow> u64 \<Rightarrow> (u64 \<times> bytes) option" where
  "Murmur_words (a # b # c # d # e # f # g # i # rest) h = do {
     k \<leftarrow> DecodeFixed64 (a # b # c # d # e # f # g # i # rest);
     let k = k * Murmur_m;
     let k = (k XOR drop_bit 47 k) * Murmur_m;
     Murmur_words rest ((h XOR k) * Murmur_m) }"
| "Murmur_words rest h = Some (h, rest)"

definition Murmur_tail :: "bytes \<Rightarrow> u64 \<Rightarrow> u64" where
  "Murmur_tail rest h =
     (if rest = [] then h
      else foldr (\<lambda>i h. h XOR push_bit (8 * i) (ucast (rest ! i))) [0..<length rest] h * Murmur_m)"

definition MurmurHash64A :: "bytes \<Rightarrow> u32 \<Rightarrow> u64 option" where
  "MurmurHash64A key seed = do {
     (h, rest) \<leftarrow> Murmur_words key (ucast seed XOR (of_nat (length key) * Murmur_m));
     let h = Murmur_tail rest h;
     let h = h XOR drop_bit 47 h;
     let h = h * Murmur_m;
     Some (h XOR drop_bit 47 h) }"

section \<open>Properties\<close>

lemma DecodeFixed32_total [simp]: "\<exists>v. DecodeFixed32 (a # b # c # d # r) = Some v"
  by simp

lemma Hash_words_total: "\<exists>h' rest. Hash_words p h = Some (h', rest) \<and> length rest < 4"
  by (induction p h rule: Hash_words.induct) (auto simp: Let_def)

lemma Hash_total: "\<exists>h. Hash p seed = Some h"
  using Hash_words_total [of p "ucast (ucast seed XOR (of_nat (length p) * ucast Hash_m :: u64))"] by (auto simp: Hash_def)

lemma Murmur_words_total: "\<exists>h' rest. Murmur_words p h = Some (h', rest) \<and> length rest < 8"
  by (induction p h rule: Murmur_words.induct) (auto simp: Let_def DecodeFixed64_def)

lemma MurmurHash64A_total: "\<exists>h. MurmurHash64A p seed = Some h"
  using Murmur_words_total [of p "ucast seed XOR (of_nat (length p) * Murmur_m)"] by (auto simp: MurmurHash64A_def Let_def)

lemma unat_product: "unat (ucast s * Random_A) = unat (s :: u32) * 16807"
proof -
  have "unat s < 2 ^ 32" using unsigned_less [of s] by simp
  then show ?thesis by (simp add: Random_A_def unat_word_ariths(2) unat_ucast_up)
qed

lemma unat_and_M: "unat (p AND ucast Random_M) = unat (p :: u64) mod 2 ^ 31"
proof -
  have "ucast Random_M = (mask 31 :: u64)" by (simp add: Random_M_def mask_eq_exp_minus_1)
  then show ?thesis by (metis take_bit_eq_mask take_bit_eq_mod unsigned_take_bit_eq)
qed

lemma unat_M: "unat Random_M = 2 ^ 31 - 1"
  by (simp add: Random_M_def)

text \<open>The two halves of the product are congruent to it, and their sum fits 32 bits.\<close>

lemma halves_mod: "(p div 2 ^ 31 + p mod 2 ^ 31) mod (2 ^ 31 - 1) = p mod (2 ^ 31 - 1 :: nat)"
proof -
  have "p = (2 ^ 31 - 1) * (p div 2 ^ 31) + (p div 2 ^ 31 + p mod 2 ^ 31)"
    using div_mult_mod_eq [of p "2 ^ 31"] by simp
  then show ?thesis by (metis mod_mult_self4)
qed

lemma unat_reduce:
  fixes s :: u32
  assumes "unat s < 2 ^ 31"
  shows "unat (ucast (drop_bit 31 (ucast s * Random_A) + (ucast s * Random_A AND ucast Random_M)) :: u32) =
    unat s * 16807 div 2 ^ 31 + unat s * 16807 mod 2 ^ 31"
proof -
  define p where "p = unat s * 16807"
  have lt: "p div 2 ^ 31 < 16807" "p mod 2 ^ 31 < 2 ^ 31" using assms by (auto simp: p_def less_mult_imp_div_less)
  have "unat (drop_bit 31 (ucast s * Random_A) + (ucast s * Random_A AND ucast Random_M)) = p div 2 ^ 31 + p mod 2 ^ 31"
    using lt by (simp add: unat_word_ariths(1) unat_and_M unat_product p_def drop_bit_eq_div unat_div)
  then show ?thesis using lt by (simp add: p_def unsigned_ucast_eq take_bit_nat_eq_self)
qed

lemma reduce_once: "t < 2 * m \<Longrightarrow> t mod m \<noteq> 0 \<Longrightarrow> (if t > m then t - m else t) = t mod m" for t m :: nat
  by (cases t m rule: linorder_cases) (simp_all add: le_mod_geq)

text \<open>
  C21. The generator computes the multiplicative congruential sequence it is documented to: from a seed
  strictly between zero and the modulus, \<open>Next\<close> is the seed times 16807 modulo \<open>2\<^sup>3\<^sup>1 - 1\<close>, which
  is again such a seed.
\<close>

theorem random_next:
  assumes "0 < s" "s < Random_M"
  shows "unat (Random_Next s) = unat s * 16807 mod (2 ^ 31 - 1) \<and> 0 < Random_Next s \<and> Random_Next s < Random_M"
proof -
  have s: "0 < unat s" "unat s < 2 ^ 31 - 1" using assms by (simp_all add: word_less_nat_alt unat_M)
  define p where "p = unat s * 16807"
  define t where "t = (ucast (drop_bit 31 (ucast s * Random_A) + (ucast s * Random_A AND ucast Random_M)) :: u32)"
  have t: "unat t = p div 2 ^ 31 + p mod 2 ^ 31" using unat_reduce [of s] s by (simp add: t_def p_def)
  have "coprime (2 ^ 31 - 1 :: nat) 16807" by (simp add: coprime_iff_gcd_eq_1 gcd_non_0_nat)
  then have nz: "p mod (2 ^ 31 - 1) \<noteq> 0"
    using s coprime_dvd_mult_left_iff [of "2 ^ 31 - 1 :: nat" 16807 "unat s"]
    by (auto simp: p_def mod_eq_0_iff_dvd dest: dvd_imp_le)
  have "p div 2 ^ 31 < 16807" using s by (auto simp: p_def less_mult_imp_div_less)
  then have lt: "unat t < 2 * (2 ^ 31 - 1)" using t mod_less_divisor [of "2 ^ 31" p] by simp
  have N: "unat (Random_Next s) = (if unat t > 2 ^ 31 - 1 then unat t - (2 ^ 31 - 1) else unat t)"
    by (simp add: Random_Next_def t_def [symmetric] word_less_nat_alt unat_M unat_sub word_le_nat_alt)
  have "unat t mod (2 ^ 31 - 1) = p mod (2 ^ 31 - 1)" unfolding t by (rule halves_mod)
  then have "unat (Random_Next s) = p mod (2 ^ 31 - 1)"
    using reduce_once [OF lt] nz unfolding N by metis
  then show ?thesis using nz by (simp add: p_def word_less_nat_alt unat_M)
qed

theorem random_next_witness:
  "unat (Random_Next 1) = 16807 mod (2 ^ 31 - 1) \<and> 0 < Random_Next 1 \<and> Random_Next 1 < Random_M"
  using random_next [of 1] by (simp add: Random_M_def)

lemma Random_Next_M: "Random_Next Random_M = Random_M"
  by code_simp

text \<open>
  C22. The constructor accepts a seed it must not: created from 2147483647 the generator returns that
  value for ever.
\<close>

theorem random_stuck_seed: "(Random_Next ^^ k) (Random_new 2147483647) = 2147483647"
proof (induction k)
  case 0 then show ?case by code_simp
next
  case (Suc k) then show ?case using Random_Next_M by (simp add: Random_M_def)
qed

end
