(* ===== verification/Bloom.thy ===== *)
theory Bloom
  imports Hashing
begin

text \<open>
  Bloom filters: the full filter and the filter policy of util/bloom.cc.  Both set and test the bits
  of a probe sequence, as does \<open>DynamicBloom\<close>; the locale \<open>bloom_bits\<close> has that contract, and the
  absence of false negatives is proved in it.
\<close>

definition CACHE_LINE_SIZE :: u32 where "CACHE_LINE_SIZE = 64"

text \<open>\<open>data[bitpos / 8] |= 1 << (bitpos % 8)\<close> and the test of the same bit.\<close>

definition or_store :: "nat \<Rightarrow> byte \<Rightarrow> bytes \<Rightarrow> bytes option" where
  "or_store i msk d = (if i < length d then Some (d[i := d ! i OR msk]) else None)"

definition or_bit :: "nat \<Rightarrow> bytes \<Rightarrow> bytes option" where
  "or_bit p d = or_store (p div 8) (push_bit (p mod 8) 1) d"

definition test_bit_at :: "nat \<Rightarrow> bytes \<Rightarrow> bool option" where
  "test_bit_at p d = map_option (\<lambda>b. b AND push_bit (p mod 8) 1 \<noteq> 0) (nth_opt d (p div 8))"

definition rotate17 :: "u32 \<Rightarrow> u32" where
  "rotate17 h = drop_bit 17 h OR push_bit 15 h"

section \<open>Full filters\<close>

record FullFilterBitsBuilder =
  fb_bits_per_key :: u64
  fb_num_probes :: u64
  hash_entries :: "u32 list"

definition FullFilterBitsBuilder_new :: "u64 \<Rightarrow> u64 \<Rightarrow> FullFilterBitsBuilder option" where
  "FullFilterBitsBuilder_new bits_per_key num_probes =
     (if bits_per_key \<noteq> 0 then Some \<lparr>fb_bits_per_key = bits_per_key, fb_num_probes = num_probes, hash_entries = []\<rparr> else None)"

definition FullFilter_AddKey :: "bytes \<Rightarrow> FullFilterBitsBuilder \<Rightarrow> FullFilterBitsBuilder option" where
  "FullFilter_AddKey key b = do {
     hash \<leftarrow> BloomHash key;
     Some (if length (hash_entries b) = 0 \<or> hash \<noteq> last (hash_entries b)
           then b\<lparr>hash_entries := hash_entries b @ [hash]\<rparr> else b) }"

definition GetTotalBitsForLocality :: "u32 \<Rightarrow> u32" where
  "GetTotalBitsForLocality total_bits =
     (let num_lines = (total_bits + CACHE_LINE_SIZE * 8 - 1) div (CACHE_LINE_SIZE * 8);
          num_lines = (if num_lines mod 2 = 0 then num_lines + 1 else num_lines) in
      num_lines * (CACHE_LINE_SIZE * 8))"

text \<open>The space, the number of bits and the number of lines; the number of entries is an \<open>int\<close>.\<close>

definition ReserveSpace :: "u32 \<Rightarrow> FullFilterBitsBuilder \<Rightarrow> (bytes \<times> u32 \<times> u32) option" where
  "ReserveSpace num_entry b =
     (if fb_bits_per_key b \<noteq> 0 then do {
        (total_bits, num_lines) \<leftarrow>
          (if num_entry \<noteq> 0 then
             (let total_bits = GetTotalBitsForLocality (num_entry * ucast (fb_bits_per_key b)) in
              if total_bits > 0 \<and> total_bits mod 8 = 0 then Some (total_bits, total_bits div (CACHE_LINE_SIZE * 8)) else None)
           else Some (0, 0));
        Some (replicate (unat (total_bits div 8 + 5)) 0, total_bits, num_lines) }
      else None)"

partial_function (option) full_add_probes :: "u64 \<Rightarrow> u32 \<Rightarrow> u32 \<Rightarrow> u32 \<Rightarrow> u32 \<Rightarrow> bytes \<Rightarrow> bytes option" where
  "full_add_probes num_probes i b delta h d =
     (if ucast i < num_probes then do {
        let bitpos = b + h mod (CACHE_LINE_SIZE * 8);
        d \<leftarrow> or_bit (unat bitpos) d;
        full_add_probes num_probes (i + 1) b delta (h + delta) d }
      else Some d)"

definition FullFilter_AddHash :: "u64 \<Rightarrow> u32 \<Rightarrow> u32 \<Rightarrow> u32 \<Rightarrow> bytes \<Rightarrow> bytes option" where
  "FullFilter_AddHash num_probes num_lines total_bits h d =
     (if num_lines > 0 \<and> total_bits > 0 then
        full_add_probes num_probes 0 (h mod num_lines * (CACHE_LINE_SIZE * 8)) (rotate17 h) h d
      else None)"

fun add_hashes :: "(u32 \<Rightarrow> bytes \<Rightarrow> bytes option) \<Rightarrow> u32 list \<Rightarrow> bytes \<Rightarrow> bytes option" where
  "add_hashes add [] d = Some d"
| "add_hashes add (h # hs) d = do { d \<leftarrow> add h d; add_hashes add hs d }"

text \<open>The filter, and the builder with its entries cleared.\<close>

definition FullFilter_Finish :: "FullFilterBitsBuilder \<Rightarrow> (bytes \<times> FullFilterBitsBuilder) option" where
  "FullFilter_Finish b = do {
     (d, total_bits, num_lines) \<leftarrow> ReserveSpace (of_nat (length (hash_entries b))) b;
     d \<leftarrow> (if total_bits \<noteq> 0 \<and> num_lines \<noteq> 0
           then add_hashes (FullFilter_AddHash (fb_num_probes b) num_lines total_bits) (hash_entries b) d else Some d);
     let n = unat (total_bits div 8);
     if n + 5 \<le> length d
     then Some (take n d @ ucast (fb_num_probes b) # EncodeFixed32 num_lines @ drop (n + 5) d, b\<lparr>hash_entries := []\<rparr>)
     else None }"

record FullFilterBitsReader =
  fr_data :: bytes
  fr_data_len :: u32
  fr_num_probes :: u64
  fr_num_lines :: u32

text \<open>The number of probes is a (signed) character.\<close>

definition GetFilterMeta :: "bytes \<Rightarrow> (u64 \<times> u32) option" where
  "GetFilterMeta contents =
     (let len = (of_nat (length contents) :: u32) in
      if len \<le> 5 then Some (0, 0)
      else do {
        p \<leftarrow> nth_opt contents (unat (len - 5));
        n \<leftarrow> DecodeFixed32 (drop (unat (len - 4)) contents);
        Some (scast p, n) })"

definition FullFilterBitsReader_new :: "bytes \<Rightarrow> FullFilterBitsReader option" where
  "FullFilterBitsReader_new contents = do {
     let len = of_nat (length contents);
     (num_probes, num_lines) \<leftarrow> GetFilterMeta contents;
     Some (if num_lines \<noteq> 0 \<and> (len - 5) mod num_lines \<noteq> 0
           then \<lparr>fr_data = contents, fr_data_len = len, fr_num_probes = 0, fr_num_lines = 0\<rparr>
           else \<lparr>fr_data = contents, fr_data_len = len, fr_num_probes = num_probes, fr_num_lines = num_lines\<rparr>) }"

partial_function (option) full_test_probes :: "u32 \<Rightarrow> u64 \<Rightarrow> u32 \<Rightarrow> u32 \<Rightarrow> u32 \<Rightarrow> u32 \<Rightarrow> bytes \<Rightarrow> bool option" where
  "full_test_probes cache_line_size num_probes i b delta h d =
     (if ucast i < num_probes then do {
        let bitpos = b + h mod (cache_line_size * 8);
        t \<leftarrow> test_bit_at (unat bitpos) d;
        if \<not> t then Some False
        else full_test_probes cache_line_size num_probes (i + 1) b delta (h + delta) d }
      else Some True)"

definition HashMayMatch :: "u32 \<Rightarrow> bytes \<Rightarrow> u64 \<Rightarrow> u32 \<Rightarrow> bool option" where
  "HashMayMatch hash contents num_probes num_lines =
     (let len = (of_nat (length contents) :: u32) in
      if len \<le> 5 then Some False
      else if num_probes \<noteq> 0 \<and> num_lines \<noteq> 0 \<and> (len - 5) mod num_lines = 0 then
        (let cache_line_size = (len - 5) div num_lines in
         if cache_line_size * 8 = 0 then None
         else full_test_probes cache_line_size num_probes 0 (hash mod num_lines * (cache_line_size * 8)) (rotate17 hash) hash contents)
      else None)"

definition FullFilter_MayMatch :: "bytes \<Rightarrow> FullFilterBitsReader \<Rightarrow> bool option" where
  "FullFilter_MayMatch entry r =
     (if fr_data_len r \<le> 5 then Some False
      else if fr_num_probes r = 0 \<or> fr_num_lines r = 0 then Some True
      else do {
        hash \<leftarrow> BloomHash entry;
        HashMayMatch hash (take (unat (fr_data_len r)) (fr_data r)) (fr_num_probes r) (fr_num_lines r) })"

section \<open>The filter policy\<close>

record BloomFilterPolicy =
  bp_bits_per_key :: u64
  bp_num_probes :: nat
  use_block_based_builder :: bool

text \<open>
  \<open>bits_per_key_ * 0.69\<close> is a floating point product.  Truncated and cut to 30 it is the exact one:
  the product is at least 30 from 44 bits on, and below that it is at least 0.01 away from every integer.
\<close>

definition policy_initialize :: "u64 \<Rightarrow> nat" where
  "policy_initialize bits_per_key =
     (let n = unat bits_per_key * 69 div 100 in if n < 1 then 1 else if n > 30 then 30 else n)"

definition BloomFilterPolicy_new :: "int \<Rightarrow> bool \<Rightarrow> BloomFilterPolicy" where
  "BloomFilterPolicy_new bits_per_key block_based =
     \<lparr>bp_bits_per_key = of_int bits_per_key, bp_num_probes = policy_initialize (of_int bits_per_key),
      use_block_based_builder = block_based\<rparr>"

primrec policy_add_probes :: "nat \<Rightarrow> u64 \<Rightarrow> u32 \<Rightarrow> u32 \<Rightarrow> bytes \<Rightarrow> bytes option" where
  "policy_add_probes 0 bits delta h d = Some d"
| "policy_add_probes (Suc n) bits delta h d =
     (if bits = 0 then None
      else do { d \<leftarrow> or_bit (unat (ucast (ucast h mod bits) :: u32)) d; policy_add_probes n bits delta (h + delta) d })"

definition policy_add_hash :: "nat \<Rightarrow> u64 \<Rightarrow> u32 \<Rightarrow> bytes \<Rightarrow> bytes option" where
  "policy_add_hash num_probes bits h d = policy_add_probes num_probes bits (rotate17 h) h d"

definition CreateFilter :: "bytes list \<Rightarrow> bytes \<Rightarrow> BloomFilterPolicy \<Rightarrow> bytes option" where
  "CreateFilter keys dst p = do {
     let bits = of_nat (length keys) * bp_bits_per_key p;
     let bits = (if bits < 64 then 64 else bits);
     let n = (bits + 7) div 8;
     let bits = n * 8;
     hs \<leftarrow> those (map BloomHash keys);
     array \<leftarrow> add_hashes (policy_add_hash (bp_num_probes p) bits) hs (replicate (unat n) 0 @ [of_nat (bp_num_probes p)]);
     Some (dst @ array) }"

primrec policy_test_probes :: "nat \<Rightarrow> u64 \<Rightarrow> u32 \<Rightarrow> u32 \<Rightarrow> bytes \<Rightarrow> bool option" where
  "policy_test_probes 0 bits delta h d = Some True"
| "policy_test_probes (Suc n) bits delta h d =
     (if bits = 0 then None
      else do {
        t \<leftarrow> test_bit_at (unat (ucast (ucast h mod bits) :: u32)) d;
        if \<not> t then Some False else policy_test_probes n bits delta (h + delta) d })"

definition KeyMayMatch :: "bytes \<Rightarrow> bytes \<Rightarrow> bool option" where
  "KeyMayMatch key contents =
     (let len = length contents in
      if len < 2 then Some False
      else
        (let bits = (of_nat (len - 1) * 8 :: u64); k = (scast (contents ! (len - 1)) :: u64) in
         if k > 30 then Some True
         else do { h \<leftarrow> BloomHash key; policy_test_probes (unat k) bits (rotate17 h) h contents }))"

definition GetFilterBitsBuilder :: "BloomFilterPolicy \<Rightarrow> FullFilterBitsBuilder option option" where
  "GetFilterBitsBuilder p =
     (if use_block_based_builder p then Some None
      else do { b \<leftarrow> FullFilterBitsBuilder_new (bp_bits_per_key p) (of_nat (bp_num_probes p)); Some (Some b) })"

text \<open>A filter built from a list of keys.\<close>

fun AddKeys :: "bytes list \<Rightarrow> FullFilterBitsBuilder \<Rightarrow> FullFilterBitsBuilder option" where
  "AddKeys [] b = Some b"
| "AddKeys (k # ks) b = do { b \<leftarrow> FullFilter_AddKey k b; AddKeys ks b }"

definition build_full_filter :: "u64 \<Rightarrow> u64 \<Rightarrow> bytes list \<Rightarrow> bytes option" where
  "build_full_filter bits_per_key num_probes keys = do {
     b \<leftarrow> FullFilterBitsBuilder_new bits_per_key num_probes;
     b \<leftarrow> AddKeys keys b;
     (f, b) \<leftarrow> FullFilter_Finish b;
     Some f }"

section \<open>Bits and probe sequences\<close>

declare push_bit_of_1 [simp del]

definition bit_set :: "nat \<Rightarrow> bytes \<Rightarrow> bool" where
  "bit_set p d \<longleftrightarrow> p div 8 < length d \<and> bit (d ! (p div 8)) (p mod 8)"

fun or_bits :: "nat list \<Rightarrow> bytes \<Rightarrow> bytes" where
  "or_bits [] d = d"
| "or_bits (p # ps) d = or_bits ps (d[p div 8 := d ! (p div 8) OR push_bit (p mod 8) 1])"

primrec probe_seq :: "nat \<Rightarrow> (u32 \<Rightarrow> u32) \<Rightarrow> (u32 \<Rightarrow> u32) \<Rightarrow> u32 \<Rightarrow> nat list" where
  "probe_seq 0 pos nxt h = []"
| "probe_seq (Suc n) pos nxt h = unat (pos h) # probe_seq n pos nxt (nxt h)"

definition in_range :: "nat list \<Rightarrow> nat \<Rightarrow> bool" where
  "in_range ps n \<longleftrightarrow> (\<forall>p \<in> set ps. p div 8 < n)"

lemma in_range_simps [simp]: "in_range [] n" "in_range (p # ps) n \<longleftrightarrow> p div 8 < n \<and> in_range ps n"
  by (auto simp: in_range_def)

lemma length_or_bits [simp]: "length (or_bits ps d) = length d"
  by (induction ps d rule: or_bits.induct) auto

lemma bit_set_or_bit:
  assumes "p div 8 < length d"
  shows "bit_set q (d[p div 8 := d ! (p div 8) OR push_bit (p mod 8) 1]) \<longleftrightarrow> bit_set q d \<or> q = p"
proof (cases "q div 8 = p div 8")
  case True
  then have "q = p \<longleftrightarrow> q mod 8 = p mod 8" by (metis div_mult_mod_eq)
  then show ?thesis using assms True by (auto simp: bit_set_def bit_simps)
next
  case False
  then show ?thesis by (auto simp: bit_set_def)
qed

lemma bit_set_or_bits: "in_range ps (length d) \<Longrightarrow> bit_set q (or_bits ps d) \<longleftrightarrow> bit_set q d \<or> q \<in> set ps"
  by (induction ps d rule: or_bits.induct) (auto simp: bit_set_or_bit)

lemma nth_or_bits: "\<forall>p \<in> set ps. p div 8 \<noteq> i \<Longrightarrow> or_bits ps d ! i = d ! i"
  by (induction ps d rule: or_bits.induct) auto

lemma or_bit_ok: "p div 8 < length d \<Longrightarrow> or_bit p d = Some (or_bits [p] d)"
  by (simp add: or_bit_def or_store_def)

lemma and_bit_zero: "b AND push_bit k 1 \<noteq> 0 \<longleftrightarrow> bit b k" for b :: byte
proof -
  have "b AND push_bit k 1 = 0" if "\<not> bit b k" using that by (intro bit_word_eqI) (auto simp: bit_simps)
  moreover have "bit (b AND push_bit k 1) k" if "bit b k" using that bit_imp_le_length [OF that] by (simp add: bit_simps)
  ultimately show ?thesis by (metis bit_0_eq bot_apply bot_bool_def)
qed

lemma test_bit_ok: "p div 8 < length d \<Longrightarrow> test_bit_at p d = Some (bit_set p d)"
  by (simp add: test_bit_at_def bit_set_def and_bit_zero)

section \<open>The contract of a filter\<close>

text \<open>
  A configuration and the length of the array decide which positions a hash uses; adding sets them,
  testing asks for all of them.
\<close>

locale bloom_bits =
  fixes add :: "'c \<Rightarrow> u32 \<Rightarrow> bytes \<Rightarrow> bytes option"
    and test :: "'c \<Rightarrow> u32 \<Rightarrow> bytes \<Rightarrow> bool option"
    and positions :: "'c \<Rightarrow> u32 \<Rightarrow> nat list"
    and valid :: "'c \<Rightarrow> nat \<Rightarrow> bool"
  assumes positions_in: "valid c n \<Longrightarrow> in_range (positions c h) n"
    and add_sets: "valid c (length d) \<Longrightarrow> add c h d = Some (or_bits (positions c h) d)"
    and test_asks: "valid c (length d) \<Longrightarrow> test c h d = Some (\<forall>p \<in> set (positions c h). bit_set p d)"
begin

lemma add_hashes_bits:
  "valid c (length d) \<Longrightarrow> add_hashes (add c) hs d = Some (or_bits (concat (map (positions c) hs)) d)"
proof (induction hs arbitrary: d)
  case (Cons h hs)
  have "or_bits (xs @ ys) d = or_bits ys (or_bits xs d)" for xs ys and d :: bytes
    by (induction xs d rule: or_bits.induct) auto
  then show ?case using Cons by (simp add: add_sets)
qed simp

lemma concat_in: "valid c n \<Longrightarrow> in_range (concat (map (positions c) hs)) n"
  using positions_in by (fastforce simp: in_range_def)

lemma no_false_negative:
  assumes "valid c (length d)" "h \<in> set hs"
  shows "test c h (or_bits (concat (map (positions c) hs)) d) = Some True"
  using assms concat_in [OF assms(1)] by (auto simp: test_asks bit_set_or_bits)

lemma test_exact:
  assumes "valid c (length d)" "\<forall>p. \<not> bit_set p d"
  shows "test c h (or_bits (concat (map (positions c) hs)) d) =
    Some (set (positions c h) \<subseteq> (\<Union>k \<in> set hs. set (positions c k)))"
  using assms concat_in [OF assms(1)] by (auto simp: test_asks bit_set_or_bits)

end

section \<open>Full filters satisfy the contract\<close>

lemma in_range_probe_seq: "(\<And>x. unat (pos x) < 8 * n) \<Longrightarrow> in_range (probe_seq k pos nxt h) n"
  by (induction k arbitrary: h) (auto simp: less_mult_imp_div_less mult.commute)

text \<open>Position of a probe in its cache line.\<close>

lemma line_position:
  assumes "q < nl" "unat nl * 512 \<le> 2 ^ 32"
  shows "unat (q * (CACHE_LINE_SIZE * 8) + x mod (CACHE_LINE_SIZE * 8)) = unat q * 512 + unat x mod 512"
    "unat q * 512 + unat x mod 512 < unat nl * 512"
proof -
  have q: "unat q < unat nl" using assms(1) by (simp add: word_less_nat_alt)
  have m: "unat x mod 512 < 512" by simp
  have "unat q * 512 + 512 \<le> unat nl * 512" using q by simp
  then show lt: "unat q * 512 + unat x mod 512 < unat nl * 512" using m by linarith
  have "unat q * 512 < 2 ^ 32" using lt assms(2) by linarith
  then have "unat (q * (CACHE_LINE_SIZE * 8)) = unat q * 512" by (simp add: CACHE_LINE_SIZE_def unat_word_ariths(2))
  moreover have "unat (x mod (CACHE_LINE_SIZE * 8)) = unat x mod 512" by (simp add: CACHE_LINE_SIZE_def unat_mod)
  ultimately show "unat (q * (CACHE_LINE_SIZE * 8) + x mod (CACHE_LINE_SIZE * 8)) = unat q * 512 + unat x mod 512"
    using lt assms(2) by (simp add: unat_word_ariths(1))
qed

lemma u32_less: "0 < nl \<Longrightarrow> h mod nl < nl" for h nl :: u32
  by (simp add: word_less_nat_alt unat_mod)

definition full_positions :: "u64 \<times> u32 \<Rightarrow> u32 \<Rightarrow> nat list" where
  "full_positions c h = probe_seq (unat (fst c))
     (\<lambda>x. h mod snd c * (CACHE_LINE_SIZE * 8) + x mod (CACHE_LINE_SIZE * 8)) (\<lambda>x. x + rotate17 h) h"

definition full_valid :: "u64 \<times> u32 \<Rightarrow> nat \<Rightarrow> bool" where
  "full_valid c n \<longleftrightarrow> unat (fst c) < 2 ^ 32 \<and> 0 < snd c \<and> unat (snd c) * 512 < 2 ^ 32 \<and> unat (snd c) * 64 \<le> n"

lemma full_in_range: "full_valid c n \<Longrightarrow> in_range (full_positions c h) n"
proof -
  assume v: "full_valid c n"
  then have *: "h mod snd c < snd c" "unat (snd c) * 512 \<le> 2 ^ 32" by (simp_all add: full_valid_def u32_less)
  have "unat (snd c) * 512 \<le> 8 * n" using v by (simp add: full_valid_def)
  then have "unat (h mod snd c * (CACHE_LINE_SIZE * 8) + x mod (CACHE_LINE_SIZE * 8)) < 8 * n" for x
    using line_position [OF *, of x] by linarith
  then show ?thesis unfolding full_positions_def by (rule in_range_probe_seq)
qed

lemma probe_count:
  fixes i :: u32
  assumes "unat np < 2 ^ 32" "(ucast i :: u64) < np"
  shows "unat np - unat i = Suc (unat np - unat (i + 1))" "unat (i + 1) \<le> unat np"
proof -
  have "unat i < unat np" using assms(2) by (simp add: word_less_nat_alt unat_ucast_up)
  moreover from this assms(1) have "unat (i + 1) = unat i + 1" by (simp add: unat_word_ariths(1))
  ultimately show "unat np - unat i = Suc (unat np - unat (i + 1))" "unat (i + 1) \<le> unat np" by simp_all
qed

lemma full_add_ok:
  assumes "unat np < 2 ^ 32" "unat i \<le> unat np"
    "in_range (probe_seq (unat np - unat i) (\<lambda>x. b + x mod (CACHE_LINE_SIZE * 8)) (\<lambda>x. x + delta) h) (length d)"
  shows "full_add_probes np i b delta h d =
    Some (or_bits (probe_seq (unat np - unat i) (\<lambda>x. b + x mod (CACHE_LINE_SIZE * 8)) (\<lambda>x. x + delta) h) d)"
  using assms
proof (induction "unat np - unat i" arbitrary: i h d)
  case 0
  then have "\<not> (ucast i :: u64) < np" by (simp add: word_less_nat_alt unat_ucast_up)
  then show ?case using 0 by (subst full_add_probes.simps) simp
next
  case (Suc k)
  then have less: "(ucast i :: u64) < np" by (simp add: word_less_nat_alt unat_ucast_up)
  note pc = probe_count [OF Suc.prems(1) less]
  show ?case using Suc.hyps(1) [of "i + 1"] Suc.hyps(2) Suc.prems less pc
    by (subst full_add_probes.simps) (simp add: or_bit_ok)
qed

lemma full_test_ok:
  assumes "unat np < 2 ^ 32" "unat i \<le> unat np"
    "in_range (probe_seq (unat np - unat i) (\<lambda>x. b + x mod (cl * 8)) (\<lambda>x. x + delta) h) (length d)"
  shows "full_test_probes cl np i b delta h d =
    Some (\<forall>p \<in> set (probe_seq (unat np - unat i) (\<lambda>x. b + x mod (cl * 8)) (\<lambda>x. x + delta) h). bit_set p d)"
  using assms
proof (induction "unat np - unat i" arbitrary: i h)
  case 0
  then have "\<not> (ucast i :: u64) < np" by (simp add: word_less_nat_alt unat_ucast_up)
  then show ?case using 0 by (subst full_test_probes.simps) simp
next
  case (Suc k)
  then have less: "(ucast i :: u64) < np" by (simp add: word_less_nat_alt unat_ucast_up)
  note pc = probe_count [OF Suc.prems(1) less]
  show ?case using Suc.hyps(1) [of "i + 1"] Suc.hyps(2) Suc.prems less pc
    by (subst full_test_probes.simps) (simp add: test_bit_ok)
qed

definition full_test :: "u64 \<times> u32 \<Rightarrow> u32 \<Rightarrow> bytes \<Rightarrow> bool option" where
  "full_test c h d = full_test_probes CACHE_LINE_SIZE (fst c) 0 (h mod snd c * (CACHE_LINE_SIZE * 8)) (rotate17 h) h d"

interpretation full: bloom_bits "\<lambda>c. FullFilter_AddHash (fst c) (snd c) (snd c * (CACHE_LINE_SIZE * 8))"
  full_test full_positions full_valid
proof
  fix c h and d :: bytes
  assume v: "full_valid c (length d)"
  note r = full_in_range [OF v, of h]
  have "snd c * (CACHE_LINE_SIZE * 8) > 0" using v
    by (simp add: full_valid_def word_less_nat_alt CACHE_LINE_SIZE_def unat_word_ariths(2))
  then show "FullFilter_AddHash (fst c) (snd c) (snd c * (CACHE_LINE_SIZE * 8)) h d = Some (or_bits (full_positions c h) d)"
    using v r full_add_ok [of "fst c" 0] by (simp add: FullFilter_AddHash_def full_positions_def full_valid_def)
  show "full_test c h d = Some (\<forall>p \<in> set (full_positions c h). bit_set p d)"
    using v r full_test_ok [of "fst c" 0] by (simp add: full_test_def full_positions_def full_valid_def)
qed (rule full_in_range)

lemma total_bits_lines:
  obtains nl where "0 < nl" "unat nl * 512 < 2 ^ 32" "GetTotalBitsForLocality t = nl * (CACHE_LINE_SIZE * 8)"
    "unat (GetTotalBitsForLocality t) = unat nl * 512"
proof -
  define n0 where "n0 = (t + CACHE_LINE_SIZE * 8 - 1) div (CACHE_LINE_SIZE * 8)"
  define nl where "nl = (if n0 mod 2 = 0 then n0 + 1 else n0)"
  have "unat n0 = unat (t + CACHE_LINE_SIZE * 8 - 1) div 512" by (simp add: n0_def unat_div CACHE_LINE_SIZE_def)
  moreover have "unat (t + CACHE_LINE_SIZE * 8 - 1) < 2 ^ 32" using unsigned_less [of "t + CACHE_LINE_SIZE * 8 - 1"] by simp
  ultimately have n0: "unat n0 \<le> 8388607" by simp
  have odd: "unat nl mod 2 = 1 \<and> unat nl \<le> 8388607"
  proof (cases "n0 mod 2 = 0")
    case True
    then have "unat n0 mod 2 = 0" by (simp add: word_unat_eq_iff unat_mod)
    then have "unat n0 \<le> 8388606" using n0 by presburger
    then show ?thesis using True \<open>unat n0 mod 2 = 0\<close> by (simp add: nl_def unat_word_ariths(1)) presburger
  next
    case False
    then show ?thesis using n0 by (simp add: nl_def word_unat_eq_iff unat_mod)
  qed
  have 1: "0 < nl" "unat nl * 512 < 2 ^ 32" using odd by (auto simp: word_less_nat_alt intro: Nat.gr0I)
  have 2: "GetTotalBitsForLocality t = nl * (CACHE_LINE_SIZE * 8)" by (simp add: GetTotalBitsForLocality_def Let_def n0_def nl_def)
  have "unat (nl * (CACHE_LINE_SIZE * 8)) = unat nl * 512" using 1 by (simp add: unat_word_ariths(2) CACHE_LINE_SIZE_def)
  then show ?thesis using that 1 2 by simp
qed

lemma AddKeys_entries:
  "\<exists>b'. AddKeys ks b = Some b' \<and> fb_bits_per_key b' = fb_bits_per_key b \<and> fb_num_probes b' = fb_num_probes b \<and>
     length (hash_entries b') \<le> length (hash_entries b) + length ks \<and>
     set (hash_entries b') = set (hash_entries b) \<union> {h. \<exists>k \<in> set ks. BloomHash k = Some h}"
proof (induction ks arbitrary: b)
  case (Cons k ks)
  obtain h where h: "BloomHash k = Some h" using Hash_total by (auto simp: BloomHash_def)
  define b1 where "b1 = (if length (hash_entries b) = 0 \<or> h \<noteq> last (hash_entries b)
    then b\<lparr>hash_entries := hash_entries b @ [h]\<rparr> else b)"
  have b1: "FullFilter_AddKey k b = Some b1" by (simp add: FullFilter_AddKey_def h b1_def)
  have e: "set (hash_entries b1) = set (hash_entries b) \<union> {h}" by (auto simp: b1_def)
  have l: "length (hash_entries b1) \<le> Suc (length (hash_entries b))" "fb_bits_per_key b1 = fb_bits_per_key b"
    "fb_num_probes b1 = fb_num_probes b" by (auto simp: b1_def)
  from Cons.IH [of b1] obtain b' where "AddKeys ks b1 = Some b'" "fb_bits_per_key b' = fb_bits_per_key b1"
    "fb_num_probes b' = fb_num_probes b1" "length (hash_entries b') \<le> length (hash_entries b1) + length ks"
    "set (hash_entries b') = set (hash_entries b1) \<union> {h. \<exists>k \<in> set ks. BloomHash k = Some h}" by blast
  then show ?case using b1 e l h by (intro exI [of _ b']) auto
qed simp

definition full_contents :: "u64 \<times> u32 \<Rightarrow> bytes \<Rightarrow> bytes" where
  "full_contents c d = d @ ucast (fst c) # EncodeFixed32 (snd c)"

text \<open>\<open>Finish\<close> sets the bits of all entries and appends the number of probes and lines.\<close>

lemma Finish_ok:
  assumes "hash_entries b \<noteq> []" "length (hash_entries b) < 2 ^ 31" "fb_bits_per_key b \<noteq> 0" "unat (fb_num_probes b) < 2 ^ 32"
  obtains nl d where "full_valid (fb_num_probes b, nl) (unat nl * 64)" "length d = unat nl * 64"
    "FullFilter_Finish b = Some (full_contents (fb_num_probes b, nl) d, b\<lparr>hash_entries := []\<rparr>)"
    "\<forall>p. p div 8 < unat nl * 64 \<longrightarrow> bit_set p d \<longleftrightarrow> p \<in> (\<Union>h \<in> set (hash_entries b). set (full_positions (fb_num_probes b, nl) h))"
proof -
  have ne: "(of_nat (length (hash_entries b)) :: u32) \<noteq> 0"
    using assms(1,2) by (simp add: word_unat_eq_iff unat_small)
  obtain nl where nl: "0 < nl" "unat nl * 512 < 2 ^ 32"
    "GetTotalBitsForLocality (of_nat (length (hash_entries b)) * ucast (fb_bits_per_key b)) = nl * (CACHE_LINE_SIZE * 8)"
    "unat (nl * (CACHE_LINE_SIZE * 8)) = unat nl * 512" using total_bits_lines by metis
  let ?c = "(fb_num_probes b, nl)" and ?T = "nl * (CACHE_LINE_SIZE * 8)" and ?z = "replicate (unat nl * 64 + 5) (0 :: byte)"
  let ?ps = "concat (map (full_positions ?c) (hash_entries b))"
  have T: "?T > 0" "?T \<noteq> 0" "?T mod 8 = 0" "?T div (CACHE_LINE_SIZE * 8) = nl" "unat (?T div 8) = unat nl * 64" "unat (?T div 8 + 5) = unat nl * 64 + 5"
    using nl(1,2,4) by (simp_all add: word_less_nat_alt word_unat_eq_iff unat_mod unat_div unat_word_ariths(1) CACHE_LINE_SIZE_def)
  have R: "ReserveSpace (of_nat (length (hash_entries b))) b = Some (?z, ?T, nl)"
    using ne assms(3) T by (simp add: ReserveSpace_def nl(3))
  have v: "full_valid ?c (unat nl * 64)" "full_valid ?c (length ?z)" using nl(1,2) assms(4) by (simp_all add: full_valid_def)
  have A: "add_hashes (FullFilter_AddHash (fb_num_probes b) nl ?T) (hash_entries b) ?z = Some (or_bits ?ps ?z)"
    using full.add_hashes_bits [OF v(2)] by simp
  define d where "d = take (unat nl * 64) (or_bits ?ps ?z)"
  have F: "FullFilter_Finish b = Some (full_contents ?c d, b\<lparr>hash_entries := []\<rparr>)"
    using R A nl(1) T by (simp add: FullFilter_Finish_def d_def full_contents_def Let_def)
  have "bit_set p d \<longleftrightarrow> p \<in> set ?ps" if "p div 8 < unat nl * 64" for p
  proof -
    have "bit_set p d \<longleftrightarrow> bit_set p (or_bits ?ps ?z)" using that by (simp add: bit_set_def d_def)
    also have "\<dots> \<longleftrightarrow> p \<in> set ?ps" using full.concat_in [OF v(2)] that by (simp add: bit_set_or_bits) (simp add: bit_set_def)
    finally show ?thesis .
  qed
  then show ?thesis using that [OF v(1) _ F] by (simp add: d_def)
qed

lemma scast_small: "v \<le> 127 \<Longrightarrow> scast (ucast v :: byte) = (v :: u64)"
proof -
  assume v: "v \<le> 127"
  then have u: "uint v \<le> 127" by (simp add: word_le_def)
  have "uint (ucast v :: byte) = uint v" using u by (simp add: uint_word_ariths uint_up_ucast unsigned_ucast_eq take_bit_int_eq_self)
  moreover have "- 128 \<le> uint v" by (rule order_trans [OF _ unsigned_greater_eq]) simp
  ultimately have "sint (ucast v :: byte) = uint v" using u
    by (simp add: sint_uint signed_take_bit_int_eq_self_iff)
  then show ?thesis by (metis word_of_int_uint scast_eq)
qed

text \<open>Reading a filter back, and what it answers.\<close>

lemma Reader_ok:
  assumes "full_valid (np, nl) (unat nl * 64)" "length d = unat nl * 64" "0 < np" "np \<le> 127"
  shows "FullFilterBitsReader_new (full_contents (np, nl) d) =
    Some \<lparr>fr_data = full_contents (np, nl) d, fr_data_len = nl * 64 + 5, fr_num_probes = np, fr_num_lines = nl\<rparr>"
proof -
  have nl: "0 < nl" "unat nl * 512 < 2 ^ 32" using assms(1) by (simp_all add: full_valid_def)
  have u: "unat (nl * 64) = unat nl * 64" "unat (nl * 64 + 5) = unat nl * 64 + 5" "unat (nl * 64 + 1) = unat nl * 64 + 1"
    using nl(2) by (simp_all add: unat_word_ariths)
  have len: "(of_nat (length (full_contents (np, nl) d)) :: u32) = nl * 64 + 5"
    using assms(2) by (simp add: full_contents_def)
  have c: "\<not> nl * 64 + 5 \<le> 5" "nl * 64 + 5 - 5 = nl * 64" "nl * 64 mod nl = 0"
    using nl u by (simp_all add: word_le_nat_alt word_unat_eq_iff unat_mod word_less_nat_alt)
  have c4: "nl * 64 + 5 - 4 = nl * 64 + 1" by (simp add: add.commute)
  have "GetFilterMeta (full_contents (np, nl) d) = Some (scast (ucast np :: byte), nl)"
    unfolding GetFilterMeta_def Let_def len c4 using c u assms(2) DecodeFixed32_Encode [of nl "[]"]
    by (simp add: full_contents_def nth_append)
  then show ?thesis
    unfolding FullFilterBitsReader_new_def Let_def len using c scast_small [OF assms(4)] by simp
qed

lemma MayMatch_ok:
  assumes "full_valid (np, nl) (unat nl * 64)" "length d = unat nl * 64" "0 < np" "np \<le> 127" "BloomHash k = Some h"
  shows "FullFilter_MayMatch k \<lparr>fr_data = full_contents (np, nl) d, fr_data_len = nl * 64 + 5, fr_num_probes = np, fr_num_lines = nl\<rparr> =
    Some (\<forall>p \<in> set (full_positions (np, nl) h). bit_set p d)"
proof -
  let ?f = "full_contents (np, nl) d"
  have nl: "0 < nl" "unat nl * 512 < 2 ^ 32" using assms(1) by (simp_all add: full_valid_def)
  have u: "unat (nl * 64) = unat nl * 64" "unat (nl * 64 + 5) = unat nl * 64 + 5" using nl(2) by (simp_all add: unat_word_ariths)
  have len: "length ?f = unat nl * 64 + 5" "(of_nat (length ?f) :: u32) = nl * 64 + 5"
    using assms(2) by (simp_all add: full_contents_def)
  have c: "\<not> nl * 64 + 5 \<le> 5" "nl * 64 + 5 - 5 = nl * 64" "nl * 64 mod nl = 0" "nl * 64 div nl = CACHE_LINE_SIZE"
    using nl u by (simp_all add: word_le_nat_alt word_unat_eq_iff unat_mod unat_div word_less_nat_alt CACHE_LINE_SIZE_def)
  have vf: "full_valid (np, nl) (length ?f)" using assms(1) len by (simp add: full_valid_def)
  have "FullFilter_MayMatch k \<lparr>fr_data = ?f, fr_data_len = nl * 64 + 5, fr_num_probes = np, fr_num_lines = nl\<rparr> = full_test (np, nl) h ?f"
    using c nl(1) assms(3,5) [unfolded word_gt_0] len u unfolding word_gt_0
    by (simp add: FullFilter_MayMatch_def HashMayMatch_def Let_def full_test_def) (simp add: CACHE_LINE_SIZE_def)
  also have "\<dots> = Some (\<forall>p \<in> set (full_positions (np, nl) h). bit_set p ?f)" by (rule full.test_asks [OF vf])
  also have "(\<forall>p \<in> set (full_positions (np, nl) h). bit_set p ?f) \<longleftrightarrow> (\<forall>p \<in> set (full_positions (np, nl) h). bit_set p d)"
    using full_in_range [OF assms(1), of h] assms(2) by (auto simp: in_range_def bit_set_def full_contents_def nth_append)
  finally show ?thesis .
qed

text \<open>
  C23. The full filter has no false negatives and reading it is always defined: for every list of up to
  \<open>2\<^sup>3\<^sup>1 - 1\<close> keys and one to 127 probes, the filter built from the keys says maybe for each of them,
  and gives an answer for every other key.  The number of bits is computed modulo \<open>2\<^sup>3\<^sup>2\<close>, which costs
  precision only.
\<close>

theorem full_filter_no_false_negatives:
  assumes "bits_per_key \<noteq> 0" "0 < np" "np \<le> 127" "length keys < 2 ^ 31"
  shows "\<exists>f r. build_full_filter bits_per_key np keys = Some f \<and> FullFilterBitsReader_new f = Some r \<and>
    (\<forall>k \<in> set keys. FullFilter_MayMatch k r = Some True) \<and> (\<forall>k. FullFilter_MayMatch k r \<noteq> None)"
proof (cases "keys = []")
  case True
  define f where "f = (ucast np :: byte) # EncodeFixed32 0"
  have "build_full_filter bits_per_key np keys = Some f"
    using True assms(1) by (simp add: build_full_filter_def FullFilterBitsBuilder_new_def FullFilter_Finish_def ReserveSpace_def f_def)
  moreover have "FullFilterBitsReader_new f = Some \<lparr>fr_data = f, fr_data_len = 5, fr_num_probes = 0, fr_num_lines = 0\<rparr>"
    by (simp add: f_def FullFilterBitsReader_new_def GetFilterMeta_def)
  ultimately show ?thesis using True by (intro exI [of _ f] exI) (auto simp: FullFilter_MayMatch_def)
next
  case False
  define b0 where "b0 = \<lparr>fb_bits_per_key = bits_per_key, fb_num_probes = np, hash_entries = []\<rparr>"
  obtain b where b: "AddKeys keys b0 = Some b" "fb_bits_per_key b = bits_per_key" "fb_num_probes b = np"
    "length (hash_entries b) \<le> length keys" "set (hash_entries b) = {h. \<exists>k \<in> set keys. BloomHash k = Some h}"
    using AddKeys_entries [of keys b0] by (auto simp: b0_def)
  have hash: "\<exists>h. BloomHash k = Some h" for k using Hash_total by (simp add: BloomHash_def)
  have ne: "hash_entries b \<noteq> []"
  proof -
    obtain k where "k \<in> set keys" using False by (cases keys) auto
    then show ?thesis using b(5) hash by fastforce
  qed
  have pre: "length (hash_entries b) < 2 ^ 31" "fb_bits_per_key b \<noteq> 0" "unat (fb_num_probes b) < 2 ^ 32"
    using assms b(2,3,4) by (auto simp: word_le_nat_alt)
  obtain nl d where F: "full_valid (np, nl) (unat nl * 64)" "length d = unat nl * 64"
    "FullFilter_Finish b = Some (full_contents (np, nl) d, b\<lparr>hash_entries := []\<rparr>)"
    "\<forall>p. p div 8 < unat nl * 64 \<longrightarrow> bit_set p d \<longleftrightarrow> p \<in> (\<Union>h \<in> set (hash_entries b). set (full_positions (np, nl) h))"
    by (rule Finish_ok [OF ne pre, unfolded b(3)]) blast
  let ?r = "\<lparr>fr_data = full_contents (np, nl) d, fr_data_len = nl * 64 + 5, fr_num_probes = np, fr_num_lines = nl\<rparr>"
  note match = MayMatch_ok [OF F(1,2) assms(2,3)]
  have "FullFilter_MayMatch k ?r = Some True" if k: "k \<in> set keys" for k
  proof -
    obtain h where h: "BloomHash k = Some h" using hash by blast
    then have "h \<in> set (hash_entries b)" using b(5) k by auto
    then show ?thesis using match [OF h] full_in_range [OF F(1), of h] F(4) by (auto simp: in_range_def)
  qed
  moreover have "FullFilter_MayMatch k ?r \<noteq> None" for k using match hash by fastforce
  moreover have "build_full_filter bits_per_key np keys = Some (full_contents (np, nl) d)"
    using assms(1) b(1) F(3) by (simp add: build_full_filter_def FullFilterBitsBuilder_new_def b0_def)
  ultimately show ?thesis using Reader_ok [OF F(1,2) assms(2,3)] by blast
qed

theorem full_filter_no_false_negatives_witness:
  "\<exists>f r. build_full_filter 10 6 [[97], [98, 99]] = Some f \<and> FullFilterBitsReader_new f = Some r \<and>
    (\<forall>k \<in> set [[97], [98, 99]]. FullFilter_MayMatch k r = Some True) \<and> (\<forall>k. FullFilter_MayMatch k r \<noteq> None)"
  using full_filter_no_false_negatives [of 10 6 "[[97], [98, 99]]"] by simp

section \<open>A corrupted filter\<close>

lemma full_test_diverges:
  assumes "full_test_probes cl np i b delta h d = Some t" "\<forall>i. (ucast (i :: u32) :: u64) < np"
    "\<forall>x. test_bit_at (unat (b + x mod (cl * 8))) d = Some True"
  shows False
proof -
  have "(\<forall>i. (ucast (i :: u32) :: u64) < np) \<longrightarrow> (\<forall>x. test_bit_at (unat (b + x mod (cl * 8))) d = Some True) \<longrightarrow> False"
  proof (rule full_test_probes.raw_induct [OF _ assms(1)], goal_cases)
    case (1 f cl np i b delta h d t)
    show ?case
    proof (intro impI)
      assume *: "\<forall>i. (ucast (i :: u32) :: u64) < np" "\<forall>x. test_bit_at (unat (b + x mod (cl * 8))) d = Some True"
      with 1(2) have "f cl np (i + 1) b delta (h + delta) d = Some t" by (simp add: Let_def)
      from 1(1) [OF this] * show False by blast
    qed
  qed
  then show ?thesis using assms(2,3) by blast
qed

definition stuck_filter :: bytes where
  "stuck_filter = replicate 64 255 @ 128 # EncodeFixed32 1"

lemma stuck_bits: "test_bit_at (unat (0 + x mod (64 * 8) :: u32)) stuck_filter = Some True"
proof -
  have lt: "unat (x mod 512) < 512" by (simp add: unat_mod)
  then have i: "unat (x mod 512) div 8 < 64" by (simp add: less_mult_imp_div_less)
  have "stuck_filter ! (unat (x mod 512) div 8) = 255" using i by (simp add: stuck_filter_def nth_append)
  moreover have "bit (255 :: byte) (unat (x mod 512) mod 8)" by (simp add: bit_simps bit_255_int)
  ultimately have "bit_set (unat (x mod 512)) stuck_filter" using i by (simp add: bit_set_def) (simp add: stuck_filter_def)
  moreover have "unat (x mod 512) div 8 < length stuck_filter" using i by (simp add: stuck_filter_def)
  ultimately show ?thesis by (simp add: test_bit_ok)
qed


section \<open>The filter policy satisfies the contract\<close>

definition policy_positions :: "nat \<times> u64 \<Rightarrow> u32 \<Rightarrow> nat list" where
  "policy_positions c h = probe_seq (fst c) (\<lambda>x. ucast (ucast x mod snd c)) (\<lambda>x. x + rotate17 h) h"

definition policy_valid :: "nat \<times> u64 \<Rightarrow> nat \<Rightarrow> bool" where
  "policy_valid c n \<longleftrightarrow> snd c \<noteq> 0 \<and> unat (snd c) \<le> 8 * n"

lemma policy_position: "bits \<noteq> 0 \<Longrightarrow> unat (ucast (ucast x mod bits :: u64) :: u32) = unat (x :: u32) mod unat bits"
proof -
  assume "bits \<noteq> 0"
  have "unat x mod unat bits < 2 ^ 32" by (rule le_less_trans [OF mod_less_eq_dividend]) (use unsigned_less [of x] in simp)
  moreover have "unat (ucast x mod bits :: u64) = unat x mod unat bits" by (simp add: unat_mod unat_ucast_up)
  ultimately show ?thesis by (simp add: unsigned_ucast_eq take_bit_nat_eq_self)
qed

lemma policy_in_range: "policy_valid c n \<Longrightarrow> in_range (policy_positions c h) n"
proof -
  assume v: "policy_valid c n"
  then have "unat (ucast (ucast x mod snd c) :: u32) < 8 * n" for x :: u32
    by (simp add: policy_valid_def policy_position) (metis less_le_trans mod_less_divisor unat_gt_0)
  then show ?thesis unfolding policy_positions_def by (rule in_range_probe_seq)
qed

lemma policy_add_ok:
  assumes "bits \<noteq> 0" "in_range (probe_seq n (\<lambda>x. ucast (ucast x mod bits)) (\<lambda>x. x + delta) h) (length d)"
  shows "policy_add_probes n bits delta h d = Some (or_bits (probe_seq n (\<lambda>x. ucast (ucast x mod bits)) (\<lambda>x. x + delta) h) d)"
  using assms(2) by (induction n arbitrary: h d) (simp_all add: assms(1) or_bit_ok)

lemma policy_test_ok:
  assumes "bits \<noteq> 0" "in_range (probe_seq n (\<lambda>x. ucast (ucast x mod bits)) (\<lambda>x. x + delta) h) (length d)"
  shows "policy_test_probes n bits delta h d =
    Some (\<forall>p \<in> set (probe_seq n (\<lambda>x. ucast (ucast x mod bits)) (\<lambda>x. x + delta) h). bit_set p d)"
  using assms(2) by (induction n arbitrary: h) (simp_all add: assms(1) test_bit_ok)

interpretation policy: bloom_bits "\<lambda>c. policy_add_hash (fst c) (snd c)"
  "\<lambda>c h. policy_test_probes (fst c) (snd c) (rotate17 h) h" policy_positions policy_valid
proof
  fix c h and d :: bytes
  assume v: "policy_valid c (length d)"
  note r = policy_in_range [OF v, of h]
  show "policy_add_hash (fst c) (snd c) h d = Some (or_bits (policy_positions c h) d)"
    using v r by (simp add: policy_add_hash_def policy_positions_def policy_valid_def policy_add_ok)
  show "policy_test_probes (fst c) (snd c) (rotate17 h) h d = Some (\<forall>p \<in> set (policy_positions c h). bit_set p d)"
    using v r by (simp add: policy_positions_def policy_valid_def policy_test_ok)
qed (rule policy_in_range)

lemma those_BloomHash: "\<exists>hs. those (map BloomHash ks) = Some hs \<and> set hs = {h. \<exists>k \<in> set ks. BloomHash k = Some h}"
proof (induction ks)
  case (Cons k ks)
  obtain h where "BloomHash k = Some h" using Hash_total by (auto simp: BloomHash_def)
  then show ?case using Cons by auto
qed simp

lemma policy_probes: "1 \<le> policy_initialize b" "policy_initialize b \<le> 30"
  by (simp_all add: policy_initialize_def Let_def)

lemma probes_byte: "n \<le> 30 \<Longrightarrow> (scast (of_nat n :: byte) :: u64) = of_nat n"
proof -
  assume n: "n \<le> 30"
  then have "(ucast (of_nat n :: u64) :: byte) = of_nat n" by (simp add: unsigned_of_nat take_bit_nat_eq_self)
  then show ?thesis using n scast_small [of "of_nat n"] by (simp add: word_le_nat_alt unat_small64)
qed

lemma last_or_bits: "\<forall>p \<in> set ps. p div 8 < n \<Longrightarrow> or_bits ps (replicate n 0 @ [x]) ! n = x"
  by (subst nth_or_bits) (auto simp: nth_append)

text \<open>
  C24. The filters the policy creates have no false negatives and can always be read: as long as the
  number of bits the keys ask for fits a \<open>size_t\<close>, \<open>CreateFilter\<close> appends a filter to the destination
  that matches every key it was created from.
\<close>

theorem filter_policy_no_false_negatives:
  assumes "p = BloomFilterPolicy_new bits_per_key block_based" "length keys * unat (bp_bits_per_key p) + 7 < 2 ^ 64"
  shows "\<exists>f. CreateFilter keys dst p = Some (dst @ f) \<and> (\<forall>k \<in> set keys. KeyMayMatch k f = Some True) \<and> (\<forall>k. KeyMayMatch k f \<noteq> None)"
proof -
  define n0 where "n0 = of_nat (length keys) * bp_bits_per_key p"
  define n where "n = ((if n0 < 64 then 64 else n0) + 7) div 8"
  have "length keys * unat (bp_bits_per_key p) < 2 ^ 64" using assms(2) by linarith
  then have n0: "unat n0 = length keys * unat (bp_bits_per_key p)"
    by (simp add: n0_def unat_word_ariths(2) unat_of_nat mod_mult_left_eq)
  have n: "unat n = ((if unat n0 < 64 then 64 else unat n0) + 7) div 8"
    using assms(2) n0 by (simp add: n_def unat_div unat_word_ariths(1) word_less_nat_alt)
  have n8: "unat (n * 8) = unat n * 8" "0 < unat n" using assms(2) n0 n by (auto simp: unat_word_ariths(2))
  define np where "np = bp_num_probes p"
  have np: "np \<le> 30" by (simp add: np_def assms(1) BloomFilterPolicy_new_def policy_probes)
  obtain hs where hs: "those (map BloomHash keys) = Some hs" "set hs = {h. \<exists>k \<in> set keys. BloomHash k = Some h}"
    using those_BloomHash by blast
  let ?c = "(np, n * 8)" and ?z = "replicate (unat n) 0 @ [of_nat np]"
  let ?ps = "concat (map (policy_positions ?c) hs)"
  have v: "policy_valid ?c (unat n)" "policy_valid ?c (length ?z)" using n8 by (auto simp: policy_valid_def word_unat_eq_iff)
  define f where "f = or_bits ?ps ?z"
  have C: "CreateFilter keys dst p = Some (dst @ f)"
    unfolding CreateFilter_def Let_def n0_def [symmetric] n_def [symmetric] np_def [symmetric]
    using policy.add_hashes_bits [OF v(2), of hs] hs(1) by (simp add: f_def)
  have f: "length f = unat n + 1" "f ! unat n = of_nat np"
    using last_or_bits policy.concat_in [OF v(1)] by (auto simp: f_def in_range_def)
  have K: "KeyMayMatch k f = policy_test_probes np (n * 8) (rotate17 h) h f" if "BloomHash k = Some h" for k h
    using that f np n8(2) by (simp add: KeyMayMatch_def Let_def probes_byte word_less_nat_alt unat_small64)
  have "KeyMayMatch k f = Some True" if k: "k \<in> set keys" for k
  proof -
    obtain h where h: "BloomHash k = Some h" using Hash_total by (auto simp: BloomHash_def)
    then have "h \<in> set hs" using hs(2) k by auto
    from policy.no_false_negative [OF v(2) this] show ?thesis using K [OF h] by (simp add: f_def)
  qed
  moreover have "KeyMayMatch k f \<noteq> None" for k
  proof -
    obtain h where h: "BloomHash k = Some h" using Hash_total by (auto simp: BloomHash_def)
    have "length f = length ?z" by (simp add: f_def)
    then show ?thesis using K [OF h] policy.test_asks [of ?c f h] v(2) by simp
  qed
  ultimately show ?thesis using C by blast
qed

theorem filter_policy_no_false_negatives_witness:
  "\<exists>f. CreateFilter [[97], [98, 99]] [] (BloomFilterPolicy_new 10 False) = Some ([] @ f) \<and>
    (\<forall>k \<in> set [[97], [98, 99]]. KeyMayMatch k f = Some True) \<and> (\<forall>k. KeyMayMatch k f \<noteq> None)"
  using filter_policy_no_false_negatives [OF refl, of "[[97], [98, 99]]" 10 False "[]"] by (simp add: BloomFilterPolicy_new_def)

end
