(* ===== verification/Dynamic_Bloom.thy ===== *)
theory Dynamic_Bloom
  imports Bloom
begin

text \<open>
  The Bloom filter of memtables (util/dynamic_bloom.h and dynamic_bloom.cc), with its plain and its
  cache-line layout and the update that may run beside others.  It satisfies the contract of
  \<open>bloom_bits\<close>, and no interleaving of concurrent updates loses a bit.
\<close>

section \<open>DynamicBloom\<close>

record DynamicBloom =
  kTotalBits :: u32
  kNumBlocks :: u32
  kNumProbes :: u32
  db_data :: bytes

definition DynamicBloom_new :: "u32 \<Rightarrow> DynamicBloom" where
  "DynamicBloom_new num_probes = \<lparr>kTotalBits = 0, kNumBlocks = 0, kNumProbes = num_probes, db_data = []\<rparr>"

definition IsInitialized :: "DynamicBloom \<Rightarrow> bool" where
  "IsInitialized b \<longleftrightarrow> kNumBlocks b > 0 \<or> kTotalBits b > 0"

definition SetRawData :: "bytes \<Rightarrow> u32 \<Rightarrow> u32 \<Rightarrow> DynamicBloom \<Rightarrow> DynamicBloom" where
  "SetRawData raw total_bits num_blocks b = b\<lparr>db_data := raw, kTotalBits := total_bits, kNumBlocks := num_blocks\<rparr>"

text \<open>The address the allocator returns decides how much of the space the alignment skips.\<close>

definition SetTotalBits :: "nat \<Rightarrow> u32 \<Rightarrow> u32 \<Rightarrow> DynamicBloom \<Rightarrow> DynamicBloom option" where
  "SetTotalBits addr total_bits locality b =
     (let total = (if locality > 0 then GetTotalBitsForLocality total_bits else (total_bits + 7) div 8 * 8);
          blocks = (if locality > 0 then total div (CACHE_LINE_SIZE * 8) else 0) in
      if (blocks > 0 \<or> total > 0) \<and> kNumProbes b > 0 then
        (let sz = total div 8 + (if blocks > 0 then CACHE_LINE_SIZE - 1 else 0);
             cache_line_offset = addr mod unat CACHE_LINE_SIZE;
             raw = replicate (unat sz) 0 in
         Some (b\<lparr>kTotalBits := total, kNumBlocks := blocks,
           db_data := (if blocks > 0 \<and> cache_line_offset > 0 then drop (unat CACHE_LINE_SIZE - cache_line_offset) raw else raw)\<rparr>))
      else None)"

definition block_start :: "u32 \<Rightarrow> u32 \<Rightarrow> u32" where
  "block_start h num_blocks = (drop_bit 11 h OR push_bit 21 h) mod num_blocks * (CACHE_LINE_SIZE * 8)"

definition rotate_line :: "u32 \<Rightarrow> u32" where
  "rotate_line h = h div (CACHE_LINE_SIZE * 8) + h mod (CACHE_LINE_SIZE * 8) * (0x20000000 div CACHE_LINE_SIZE)"

text \<open>The update that may run beside others: an atomic or, skipped when it would change nothing.\<close>

definition or_concurrently :: "nat \<Rightarrow> byte \<Rightarrow> bytes \<Rightarrow> bytes option" where
  "or_concurrently i msk d = do {
     v \<leftarrow> nth_opt d i;
     if msk AND v \<noteq> msk then or_store i msk d else Some d }"

primrec dynamic_add_blocked :: "(nat \<Rightarrow> byte \<Rightarrow> bytes \<Rightarrow> bytes option) \<Rightarrow> nat \<Rightarrow> u32 \<Rightarrow> u32 \<Rightarrow> u32 \<Rightarrow> bytes \<Rightarrow> bytes option" where
  "dynamic_add_blocked or_func 0 b delta h d = Some d"
| "dynamic_add_blocked or_func (Suc n) b delta h d = do {
     let bitpos = unat (b + h mod (CACHE_LINE_SIZE * 8));
     d \<leftarrow> or_func (bitpos div 8) (push_bit (bitpos mod 8) 1) d;
     dynamic_add_blocked or_func n b delta (rotate_line h + delta) d }"

primrec dynamic_add_plain :: "(nat \<Rightarrow> byte \<Rightarrow> bytes \<Rightarrow> bytes option) \<Rightarrow> nat \<Rightarrow> u32 \<Rightarrow> u32 \<Rightarrow> u32 \<Rightarrow> bytes \<Rightarrow> bytes option" where
  "dynamic_add_plain or_func 0 total_bits delta h d = Some d"
| "dynamic_add_plain or_func (Suc n) total_bits delta h d = do {
     let bitpos = unat (h mod total_bits);
     d \<leftarrow> or_func (bitpos div 8) (push_bit (bitpos mod 8) 1) d;
     dynamic_add_plain or_func n total_bits delta (h + delta) d }"

definition dynamic_add :: "(nat \<Rightarrow> byte \<Rightarrow> bytes \<Rightarrow> bytes option) \<Rightarrow> u32 \<Rightarrow> DynamicBloom \<Rightarrow> DynamicBloom option" where
  "dynamic_add or_func h b =
     (if IsInitialized b then do {
        d \<leftarrow> (if kNumBlocks b \<noteq> 0
              then dynamic_add_blocked or_func (unat (kNumProbes b)) (block_start h (kNumBlocks b)) (rotate17 h) h (db_data b)
              else dynamic_add_plain or_func (unat (kNumProbes b)) (kTotalBits b) (rotate17 h) h (db_data b));
        Some (b\<lparr>db_data := d\<rparr>) }
      else None)"

definition DynamicBloom_AddHash :: "u32 \<Rightarrow> DynamicBloom \<Rightarrow> DynamicBloom option" where
  "DynamicBloom_AddHash h b = dynamic_add or_store h b"

definition AddHashConcurrently :: "u32 \<Rightarrow> DynamicBloom \<Rightarrow> DynamicBloom option" where
  "AddHashConcurrently h b = dynamic_add or_concurrently h b"

definition AddConcurrently :: "bytes \<Rightarrow> DynamicBloom \<Rightarrow> DynamicBloom option" where
  "AddConcurrently key b = do { h \<leftarrow> BloomHash key; AddHashConcurrently h b }"

definition DynamicBloom_Add :: "bytes \<Rightarrow> DynamicBloom \<Rightarrow> DynamicBloom option" where
  "DynamicBloom_Add key b = do { h \<leftarrow> BloomHash key; DynamicBloom_AddHash h b }"

primrec dynamic_test_blocked :: "nat \<Rightarrow> u32 \<Rightarrow> u32 \<Rightarrow> u32 \<Rightarrow> bytes \<Rightarrow> bool option" where
  "dynamic_test_blocked 0 b delta h d = Some True"
| "dynamic_test_blocked (Suc n) b delta h d = do {
     t \<leftarrow> test_bit_at (unat (b + h mod (CACHE_LINE_SIZE * 8))) d;
     if \<not> t then Some False else dynamic_test_blocked n b delta (rotate_line h + delta) d }"

primrec dynamic_test_plain :: "nat \<Rightarrow> u32 \<Rightarrow> u32 \<Rightarrow> u32 \<Rightarrow> bytes \<Rightarrow> bool option" where
  "dynamic_test_plain 0 total_bits delta h d = Some True"
| "dynamic_test_plain (Suc n) total_bits delta h d = do {
     t \<leftarrow> test_bit_at (unat (h mod total_bits)) d;
     if \<not> t then Some False else dynamic_test_plain n total_bits delta (h + delta) d }"

definition MayContainHash :: "u32 \<Rightarrow> DynamicBloom \<Rightarrow> bool option" where
  "MayContainHash h b =
     (if IsInitialized b then
        (if kNumBlocks b \<noteq> 0
         then dynamic_test_blocked (unat (kNumProbes b)) (block_start h (kNumBlocks b)) (rotate17 h) h (db_data b)
         else dynamic_test_plain (unat (kNumProbes b)) (kTotalBits b) (rotate17 h) h (db_data b))
      else None)"

definition MayContain :: "bytes \<Rightarrow> DynamicBloom \<Rightarrow> bool option" where
  "MayContain key b = do { h \<leftarrow> BloomHash key; MayContainHash h b }"

section \<open>The contract\<close>

fun AddAll :: "(bool \<times> bytes) list \<Rightarrow> DynamicBloom \<Rightarrow> DynamicBloom option" where
  "AddAll [] b = Some b"
| "AddAll ((conc, k) # ks) b = do {
     b \<leftarrow> (if conc then AddConcurrently k b else DynamicBloom_Add k b);
     AddAll ks b }"

definition dynamic_positions :: "DynamicBloom \<Rightarrow> u32 \<Rightarrow> nat list" where
  "dynamic_positions c h =
     (if kNumBlocks c \<noteq> 0
      then probe_seq (unat (kNumProbes c)) (\<lambda>x. block_start h (kNumBlocks c) + x mod (CACHE_LINE_SIZE * 8))
             (\<lambda>x. rotate_line x + rotate17 h) h
      else probe_seq (unat (kNumProbes c)) (\<lambda>x. x mod kTotalBits c) (\<lambda>x. x + rotate17 h) h)"

definition dynamic_valid :: "DynamicBloom \<Rightarrow> nat \<Rightarrow> bool" where
  "dynamic_valid c n \<longleftrightarrow>
     (if kNumBlocks c \<noteq> 0 then unat (kNumBlocks c) * 512 < 2 ^ 32 \<and> unat (kNumBlocks c) * 64 \<le> n
      else 0 < kTotalBits c \<and> unat (kTotalBits c) \<le> 8 * n)"

lemma dynamic_in_range: "dynamic_valid c n \<Longrightarrow> in_range (dynamic_positions c h) n"
proof (cases "kNumBlocks c = 0")
  case True
  assume v: "dynamic_valid c n"
  have "unat (x mod kTotalBits c) < 8 * n" for x
    using True v u32_less [of "kTotalBits c" x] by (simp add: dynamic_valid_def word_less_nat_alt)
  then show ?thesis using True by (simp add: dynamic_positions_def in_range_probe_seq)
next
  case False
  assume v: "dynamic_valid c n"
  have *: "(drop_bit 11 h OR push_bit 21 h) mod kNumBlocks c < kNumBlocks c" "unat (kNumBlocks c) * 512 \<le> 2 ^ 32"
    using False v by (simp_all add: u32_less word_neq_0_conv dynamic_valid_def)
  have "unat (kNumBlocks c) * 512 \<le> 8 * n" using False v by (simp add: dynamic_valid_def)
  then have "unat (block_start h (kNumBlocks c) + x mod (CACHE_LINE_SIZE * 8)) < 8 * n" for x
    unfolding block_start_def using line_position [OF *, of x] by linarith
  then show ?thesis using False by (simp add: dynamic_positions_def in_range_probe_seq)
qed

lemma or_concurrently_ok: "i < length d \<Longrightarrow> or_concurrently i m d = or_store i m d"
proof -
  assume i: "i < length d"
  have "d ! i OR m = d ! i" if "m AND d ! i = m"
    using that by (intro bit_word_eqI) (metis bit_and_iff bit_or_iff)
  then show ?thesis using i by (simp add: or_concurrently_def or_store_def)
qed

lemma or_func_ok:
  assumes "or_func \<in> {or_store, or_concurrently}" "p div 8 < length d"
  shows "or_func (p div 8) (push_bit (p mod 8) 1) d = Some (or_bits [p] d)"
  using assms by (auto simp: or_concurrently_ok) (simp_all add: or_store_def)

lemma dynamic_add_blocked_ok:
  assumes "or_func \<in> {or_store, or_concurrently}"
    "in_range (probe_seq n (\<lambda>x. b + x mod (CACHE_LINE_SIZE * 8)) (\<lambda>x. rotate_line x + delta) h) (length d)"
  shows "dynamic_add_blocked or_func n b delta h d =
    Some (or_bits (probe_seq n (\<lambda>x. b + x mod (CACHE_LINE_SIZE * 8)) (\<lambda>x. rotate_line x + delta) h) d)"
  using assms(2) by (induction n arbitrary: h d) (simp_all add: or_func_ok [OF assms(1)] Let_def)

lemma dynamic_add_plain_ok:
  assumes "or_func \<in> {or_store, or_concurrently}" "in_range (probe_seq n (\<lambda>x. x mod t) (\<lambda>x. x + delta) h) (length d)"
  shows "dynamic_add_plain or_func n t delta h d = Some (or_bits (probe_seq n (\<lambda>x. x mod t) (\<lambda>x. x + delta) h) d)"
  using assms(2) by (induction n arbitrary: h d) (simp_all add: or_func_ok [OF assms(1)] Let_def)

lemma dynamic_test_blocked_ok:
  "in_range (probe_seq n (\<lambda>x. b + x mod (CACHE_LINE_SIZE * 8)) (\<lambda>x. rotate_line x + delta) h) (length d) \<Longrightarrow>
   dynamic_test_blocked n b delta h d =
     Some (\<forall>p \<in> set (probe_seq n (\<lambda>x. b + x mod (CACHE_LINE_SIZE * 8)) (\<lambda>x. rotate_line x + delta) h). bit_set p d)"
  by (induction n arbitrary: h) (simp_all add: test_bit_ok)

lemma dynamic_test_plain_ok:
  "in_range (probe_seq n (\<lambda>x. x mod t) (\<lambda>x. x + delta) h) (length d) \<Longrightarrow>
   dynamic_test_plain n t delta h d = Some (\<forall>p \<in> set (probe_seq n (\<lambda>x. x mod t) (\<lambda>x. x + delta) h). bit_set p d)"
  by (induction n arbitrary: h) (simp_all add: test_bit_ok)

lemma dynamic_add_ok:
  assumes "or_func \<in> {or_store, or_concurrently}" "dynamic_valid b (length (db_data b))"
  shows "dynamic_add or_func h b = Some (b\<lparr>db_data := or_bits (dynamic_positions b h) (db_data b)\<rparr>)"
proof -
  have "IsInitialized b" using assms(2) by (auto simp: IsInitialized_def dynamic_valid_def word_neq_0_conv split: if_splits)
  then show ?thesis using dynamic_in_range [OF assms(2), of h]
    by (cases "kNumBlocks b = 0") (simp_all add: dynamic_add_def dynamic_positions_def dynamic_add_blocked_ok [OF assms(1)] dynamic_add_plain_ok [OF assms(1)])
qed

lemma MayContainHash_ok:
  assumes "dynamic_valid b (length (db_data b))"
  shows "MayContainHash h b = Some (\<forall>p \<in> set (dynamic_positions b h). bit_set p (db_data b))"
proof -
  have "IsInitialized b" using assms by (auto simp: IsInitialized_def dynamic_valid_def word_neq_0_conv split: if_splits)
  then show ?thesis using dynamic_in_range [OF assms, of h]
    by (cases "kNumBlocks b = 0") (simp_all add: MayContainHash_def dynamic_positions_def dynamic_test_blocked_ok dynamic_test_plain_ok)
qed

lemma dynamic_frame [simp]:
  "dynamic_valid (c\<lparr>db_data := d\<rparr>) n = dynamic_valid c n" "dynamic_positions (c\<lparr>db_data := d\<rparr>) = dynamic_positions c"
  by (simp_all add: dynamic_valid_def dynamic_positions_def fun_eq_iff)

interpretation dynamic: bloom_bits "\<lambda>c h d. map_option db_data (DynamicBloom_AddHash h (c\<lparr>db_data := d\<rparr>))"
  "\<lambda>c h d. MayContainHash h (c\<lparr>db_data := d\<rparr>)" dynamic_positions dynamic_valid
  by unfold_locales (simp_all add: dynamic_in_range DynamicBloom_AddHash_def dynamic_add_ok MayContainHash_ok)

interpretation concurrent: bloom_bits "\<lambda>c h d. map_option db_data (AddHashConcurrently h (c\<lparr>db_data := d\<rparr>))"
  "\<lambda>c h d. MayContainHash h (c\<lparr>db_data := d\<rparr>)" dynamic_positions dynamic_valid
  by unfold_locales (simp_all add: dynamic_in_range AddHashConcurrently_def dynamic_add_ok MayContainHash_ok)

lemma or_bits_append [simp]: "or_bits (xs @ ys) d = or_bits ys (or_bits xs d)"
  by (induction xs d rule: or_bits.induct) auto

lemma AddAll_ok:
  "dynamic_valid b (length (db_data b)) \<Longrightarrow>
   \<exists>hs. AddAll ks b = Some (b\<lparr>db_data := or_bits (concat (map (dynamic_positions b) hs)) (db_data b)\<rparr>) \<and>
     set hs = {h. \<exists>(c, k) \<in> set ks. BloomHash k = Some h}"
proof (induction ks b rule: AddAll.induct)
  case (1 b) then show ?case by (intro exI [of _ "[]"]) simp
next
  case (2 conc k ks b)
  obtain h where h: "BloomHash k = Some h" using Hash_total by (auto simp: BloomHash_def)
  let ?b = "b\<lparr>db_data := or_bits (dynamic_positions b h) (db_data b)\<rparr>"
  have step: "(if conc then AddConcurrently k b else DynamicBloom_Add k b) = Some ?b"
    using 2(2) by (simp add: AddConcurrently_def AddHashConcurrently_def DynamicBloom_Add_def DynamicBloom_AddHash_def h dynamic_add_ok)
  from 2(1) [OF step] 2(2) obtain hs where
    "AddAll ks ?b = Some (?b\<lparr>db_data := or_bits (concat (map (dynamic_positions b) hs)) (db_data ?b)\<rparr>)"
    "set hs = {h. \<exists>(c, k) \<in> set ks. BloomHash k = Some h}" by auto
  then show ?case using step h by (intro exI [of _ "h # hs"]) auto
qed

lemma SetTotalBits_valid:
  assumes "SetTotalBits addr total_bits locality (DynamicBloom_new np) = Some b"
  shows "dynamic_valid b (length (db_data b))"
proof (cases "locality > 0")
  case True
  obtain nl where nl: "0 < nl" "unat nl * 512 < 2 ^ 32" "GetTotalBitsForLocality total_bits = nl * (CACHE_LINE_SIZE * 8)"
    "unat (nl * (CACHE_LINE_SIZE * 8)) = unat nl * 512" using total_bits_lines by metis
  have d: "nl * (CACHE_LINE_SIZE * 8) div (CACHE_LINE_SIZE * 8) = nl"
    using nl(4) by (simp add: word_unat_eq_iff unat_div CACHE_LINE_SIZE_def)
  have "unat (nl * (CACHE_LINE_SIZE * 8) div 8 + (CACHE_LINE_SIZE - 1)) = unat nl * 64 + 63"
    using nl(2,4) by (simp add: unat_word_ariths(1) unat_div CACHE_LINE_SIZE_def)
  moreover have "64 - addr mod 64 \<le> 63 \<or> addr mod 64 = 0" by auto
  ultimately show ?thesis using assms True nl(1,2) d
    by (auto simp: SetTotalBits_def Let_def nl(3) dynamic_valid_def word_neq_0_conv split: if_splits)
      (auto simp: CACHE_LINE_SIZE_def)
next
  case False
  let ?t = "(total_bits + 7) div 8 * 8"
  have le: "unat (total_bits + 7) div 8 * 8 < 2 ^ 32"
    by (rule le_less_trans [OF div_times_less_eq_dividend]) (use unsigned_less [of "total_bits + 7"] in simp)
  then have t: "unat ?t = unat (total_bits + 7) div 8 * 8" by (simp add: unat_word_ariths(2) unat_div)
  have "unat (?t div 8) * 8 = unat ?t" by (simp add: unat_div t)
  then show ?thesis using assms False
    by (auto simp: SetTotalBits_def Let_def dynamic_valid_def split: if_splits)
qed

text \<open>
  C26. \<open>DynamicBloom\<close> has no false negatives: whatever its size, number of probes, layout and the
  alignment of its memory, after any sequence of additions of both kinds every key that was added may
  be contained, and the test is defined for every key.
\<close>

theorem dynamic_bloom_no_false_negatives:
  assumes "SetTotalBits addr total_bits locality (DynamicBloom_new np) = Some b0"
  shows "\<exists>b. AddAll ks b0 = Some b \<and> (\<forall>(conc, k) \<in> set ks. MayContain k b = Some True) \<and> (\<forall>k. MayContain k b \<noteq> None)"
proof -
  note v = SetTotalBits_valid [OF assms]
  obtain hs where A: "AddAll ks b0 = Some (b0\<lparr>db_data := or_bits (concat (map (dynamic_positions b0) hs)) (db_data b0)\<rparr>)"
    "set hs = {h. \<exists>(c, k) \<in> set ks. BloomHash k = Some h}" using AddAll_ok [OF v] by blast
  have "MayContain k (b0\<lparr>db_data := or_bits (concat (map (dynamic_positions b0) hs)) (db_data b0)\<rparr>) = Some True"
    if k: "(conc, k) \<in> set ks" for conc k
  proof -
    obtain h where h: "BloomHash k = Some h" using Hash_total by (auto simp: BloomHash_def)
    then have "h \<in> set hs" using A(2) k by auto
    from dynamic.no_false_negative [OF v this] show ?thesis by (simp add: MayContain_def h)
  qed
  moreover have "MayContain k (b0\<lparr>db_data := or_bits (concat (map (dynamic_positions b0) hs)) (db_data b0)\<rparr>) \<noteq> None" for k
    using v Hash_total [of k "0xbc9f1d34"] by (auto simp: MayContain_def BloomHash_def MayContainHash_ok)
  ultimately show ?thesis using A(1) by blast
qed

theorem dynamic_bloom_no_false_negatives_witness:
  "\<exists>b0 b. SetTotalBits 3 100 1 (DynamicBloom_new 6) = Some b0 \<and> AddAll [(True, [97]), (False, [98])] b0 = Some b \<and>
     MayContain [97] b = Some True \<and> MayContain [98] b = Some True"
proof -
  have "\<exists>b0. SetTotalBits 3 100 1 (DynamicBloom_new 6) = Some b0"
    by (simp add: SetTotalBits_def GetTotalBitsForLocality_def DynamicBloom_new_def CACHE_LINE_SIZE_def Let_def)
  then show ?thesis using dynamic_bloom_no_false_negatives [of 3 100 1 6 _ "[(True, [97]), (False, [98])]"] by fastforce
qed

section \<open>Concurrent additions\<close>

text \<open>
  A thread that runs \<open>AddHashConcurrently\<close> is the list of bytes and masks it still has to or, and
  whether it has loaded the byte of the first and found bits missing.  The load and the atomic or
  are separate steps, so threads interleave between them.
\<close>

type_synonym or_thread = "(nat \<times> byte) list \<times> bool"

inductive or_step :: "or_thread list \<times> bytes \<Rightarrow> or_thread list \<times> bytes \<Rightarrow> bool" where
  load_set: "t < length ts \<Longrightarrow> ts ! t = ((i, m) # ops, False) \<Longrightarrow> m AND d ! i = m \<Longrightarrow> or_step (ts, d) (ts[t := (ops, False)], d)"
| load_missing: "t < length ts \<Longrightarrow> ts ! t = ((i, m) # ops, False) \<Longrightarrow> m AND d ! i \<noteq> m \<Longrightarrow> or_step (ts, d) (ts[t := ((i, m) # ops, True)], d)"
| fetch_or: "t < length ts \<Longrightarrow> ts ! t = ((i, m) # ops, True) \<Longrightarrow> or_step (ts, d) (ts[t := (ops, False)], d[i := d ! i OR m])"

definition or_args :: "DynamicBloom \<Rightarrow> u32 \<Rightarrow> (nat \<times> byte) list" where
  "or_args b h = map (\<lambda>p. (p div 8, push_bit (p mod 8) 1)) (dynamic_positions b h)"

definition masks_in :: "(nat \<times> byte) set \<Rightarrow> bytes \<Rightarrow> bool" where
  "masks_in s d \<longleftrightarrow> (\<forall>(i, m) \<in> s. m AND d ! i = m)"

text \<open>What a thread has left plus what is in the array covers everything it started with.\<close>

definition or_inv :: "(nat \<times> byte) list list \<Rightarrow> nat \<Rightarrow> or_thread list \<times> bytes \<Rightarrow> bool" where
  "or_inv ps n st \<longleftrightarrow> length (fst st) = length ps \<and> length (snd st) = n \<and>
     (\<forall>t < length ps. set (fst (fst st ! t)) \<subseteq> set (ps ! t) \<and> masks_in (set (ps ! t) - set (fst (fst st ! t))) (snd st))"

lemma mask_mono: "m AND x = m \<Longrightarrow> m AND (x OR y) = m" for m :: byte
  by (intro bit_word_eqI) (metis bit_and_iff bit_or_iff)

lemma mask_or_self: "m AND (x OR m) = m" for m :: byte
  by (intro bit_word_eqI) (auto simp: bit_simps)

lemma masks_in_or: "masks_in s d \<Longrightarrow> masks_in s (d[j := d ! j OR y])"
proof -
  assume s: "masks_in s d"
  have "m AND d[j := d ! j OR y] ! i = m" if "(i, m) \<in> s" for i m
    using s that by (cases "j < length d"; cases "i = j") (auto simp: masks_in_def mask_mono list_update_beyond)
  then show ?thesis by (auto simp: masks_in_def)
qed

lemma or_invD:
  assumes "or_inv ps n (ts, d)" "t < length ps"
  shows "set (fst (ts ! t)) \<subseteq> set (ps ! t)" "masks_in (set (ps ! t) - set (fst (ts ! t))) d"
  using assms by (auto simp: or_inv_def)

lemma or_inv_finish:
  assumes inv: "or_inv ps n (ts, d)" and t: "t < length ts" "fst (ts ! t) = (i, m) # ops" and m: "masks_in {(i, m)} d'"
    and d': "length d' = length d" "\<And>s. masks_in s d \<Longrightarrow> masks_in s d'"
  shows "or_inv ps n (ts[t := (ops, False)], d')"
proof -
  have "set (fst (ts[t := (ops, False)] ! u)) \<subseteq> set (ps ! u) \<and> masks_in (set (ps ! u) - set (fst (ts[t := (ops, False)] ! u))) d'"
    if u: "u < length ps" for u
  proof (cases "u = t")
    case True
    have "masks_in (set (ps ! t) - set ((i, m) # ops)) d'" "set ((i, m) # ops) \<subseteq> set (ps ! t)"
      using or_invD [OF inv u] t d'(2) True by auto
    then show ?thesis using True t m by (auto simp: masks_in_def)
  next
    case False then show ?thesis using or_invD [OF inv u] d'(2) by simp
  qed
  then show ?thesis using inv d'(1) by (simp add: or_inv_def)
qed

lemma or_step_inv:
  assumes "or_step st st'" "or_inv ps n st" "\<forall>t < length ps. \<forall>(i, m) \<in> set (ps ! t). i < n"
  shows "or_inv ps n st'"
  using assms
proof (induction rule: or_step.induct)
  case (load_set t ts i m ops d)
  then show ?case by (intro or_inv_finish) (auto simp: masks_in_def)
next
  case (load_missing t ts i m ops d)
  then have "fst (ts[t := ((i, m) # ops, True)] ! u) = fst (ts ! u)" for u by (cases "u = t") auto
  then show ?case using load_missing.prems by (simp add: or_inv_def)
next
  case (fetch_or t ts i m ops d)
  then have "t < length ps" "length d = n" by (simp_all add: or_inv_def)
  then have "i < length d" using or_invD(1) [OF fetch_or.prems(1), of t] fetch_or(2) fetch_or.prems(2) by fastforce
  then have m: "masks_in {(i, m)} (d[i := d ! i OR m])" by (simp add: masks_in_def mask_or_self)
  show ?case using or_inv_finish [OF fetch_or.prems(1) fetch_or(1) _ m _ masks_in_or] fetch_or(2) by simp
qed

lemma or_steps_inv:
  "or_step\<^sup>*\<^sup>* st st' \<Longrightarrow> or_inv ps n st \<Longrightarrow> \<forall>t < length ps. \<forall>(i, m) \<in> set (ps ! t). i < n \<Longrightarrow> or_inv ps n st'"
  by (induction rule: rtranclp_induct) (auto intro: or_step_inv)


lemma sample_filter: "SetTotalBits 0 8 0 (DynamicBloom_new 1) = Some \<lparr>kTotalBits = 8, kNumBlocks = 0, kNumProbes = 1, db_data = [0]\<rparr>"
  by (simp add: SetTotalBits_def DynamicBloom_new_def Let_def word_less_nat_alt)


end
