(* ===== verification/Crc32c.thy ===== *)
theory Crc32c
  imports Crc_Tables Coding
begin

text \<open>
  Checksums (util/crc32c.h and crc32c.cc).  \<open>ExtendImpl\<close> is the function template of the source: it
  takes the routine for eight bytes as an argument and the address of the buffer, which decides how
  many bytes are taken one at a time.  Every instance computes the bit-by-bit CRC-32C, whatever the
  alignment, and so do the hardware instructions where they do what they are documented to do.
\<close>

section \<open>The code\<close>

definition LE_LOAD32 :: "bytes \<Rightarrow> u32 option" where
  "LE_LOAD32 p = DecodeFixed32 p"

definition LE_LOAD64 :: "bytes \<Rightarrow> u64 option" where
  "LE_LOAD64 p = DecodeFixed64 p"

text \<open>One half of \<open>Slow_CRC32\<close>, which does the same twice.\<close>

definition Slow_CRC32_half :: "u64 \<Rightarrow> bytes \<Rightarrow> (u64 \<times> bytes) option" where
  "Slow_CRC32_half l p = do {
     w \<leftarrow> LE_LOAD32 p;
     let c = (ucast (l XOR ucast w) :: u32);
     t3 \<leftarrow> nth_opt table3 (unat (c AND 255));
     t2 \<leftarrow> nth_opt table2 (unat (drop_bit 8 c AND 255));
     t1 \<leftarrow> nth_opt table1 (unat (drop_bit 16 c AND 255));
     t0 \<leftarrow> nth_opt table0 (unat (drop_bit 24 c));
     Some (ucast (t3 XOR t2 XOR t1 XOR t0), drop 4 p) }"

definition Slow_CRC32 :: "u64 \<Rightarrow> bytes \<Rightarrow> (u64 \<times> bytes) option" where
  "Slow_CRC32 l p = do { (l, p) \<leftarrow> Slow_CRC32_half l p; Slow_CRC32_half l p }"

text \<open>With SSE 4.2 on a 64 bit machine; the instruction is an argument.\<close>

definition Fast_CRC32 :: "(u64 \<Rightarrow> u64 \<Rightarrow> u64) \<Rightarrow> u64 \<Rightarrow> bytes \<Rightarrow> (u64 \<times> bytes) option" where
  "Fast_CRC32 mm_crc32_u64 l p = do { w \<leftarrow> LE_LOAD64 p; Some (mm_crc32_u64 l w, drop 8 p) }"

definition STEP1 :: "u64 \<Rightarrow> byte \<Rightarrow> u64 option" where
  "STEP1 l b = do {
     t \<leftarrow> nth_opt table0 (unat ((l AND 255) XOR ucast b));
     Some (ucast t XOR drop_bit 8 l) }"

fun step_bytes :: "u64 \<Rightarrow> bytes \<Rightarrow> u64 option" where
  "step_bytes l [] = Some l"
| "step_bytes l (b # bs) = do { l' \<leftarrow> STEP1 l b; step_bytes l' bs }"

text \<open>The loops over sixteen and over eight bytes; the pointer moves by eight in each call.\<close>

partial_function (option) loop16 :: "(u64 \<Rightarrow> bytes \<Rightarrow> (u64 \<times> bytes) option) \<Rightarrow> u64 \<Rightarrow> bytes \<Rightarrow> (u64 \<times> bytes) option" where
  "loop16 CRC32 l p =
     (if length p \<ge> 16 then do {
        (l, p) \<leftarrow> CRC32 l p;
        (l, p) \<leftarrow> CRC32 l p;
        loop16 CRC32 l p
      } else Some (l, p))"

partial_function (option) loop8 :: "(u64 \<Rightarrow> bytes \<Rightarrow> (u64 \<times> bytes) option) \<Rightarrow> u64 \<Rightarrow> bytes \<Rightarrow> (u64 \<times> bytes) option" where
  "loop8 CRC32 l p =
     (if length p \<ge> 8 then do {
        (l, p) \<leftarrow> CRC32 l p;
        loop8 CRC32 l p
      } else Some (l, p))"

text \<open>Bytes to the next address that is a multiple of sixteen.\<close>

definition align_skip :: "nat \<Rightarrow> nat" where
  "align_skip addr = (16 - addr mod 16) mod 16"

definition ExtendImpl :: "(u64 \<Rightarrow> bytes \<Rightarrow> (u64 \<times> bytes) option) \<Rightarrow> nat \<Rightarrow> u32 \<Rightarrow> bytes \<Rightarrow> u32 option" where
  "ExtendImpl CRC32 addr crc buf = do {
     let l = ucast (crc XOR 0xffffffff);
     let n = (if align_skip addr \<le> length buf then align_skip addr else 0);
     l \<leftarrow> step_bytes l (take n buf);
     (l, p) \<leftarrow> loop16 CRC32 l (drop n buf);
     (l, p) \<leftarrow> loop8 CRC32 l p;
     l \<leftarrow> step_bytes l p;
     Some (ucast (l XOR 0xffffffff)) }"

text \<open>\<open>Extend\<close> calls the instance chosen at start-up from what the processor reports.\<close>

definition Extend :: "bool \<Rightarrow> (u64 \<Rightarrow> u64 \<Rightarrow> u64) \<Rightarrow> nat \<Rightarrow> u32 \<Rightarrow> bytes \<Rightarrow> u32 option" where
  "Extend isSSE42 mm_crc32_u64 addr crc buf =
     (if isSSE42 then ExtendImpl (Fast_CRC32 mm_crc32_u64) addr crc buf else ExtendImpl Slow_CRC32 addr crc buf)"

text \<open>What other components call: the portable instance on an aligned buffer.  Neither choice matters.\<close>

definition crc_Extend :: "u32 \<Rightarrow> bytes \<Rightarrow> u32 option" where
  "crc_Extend crc buf = Extend False (\<lambda>_ _. 0) 0 crc buf"

definition crc_Value :: "bytes \<Rightarrow> u32 option" where
  "crc_Value buf = crc_Extend 0 buf"

definition kMaskDelta :: u32 where
  "kMaskDelta = 0xa282ead8"

definition Mask :: "u32 \<Rightarrow> u32" where
  "Mask crc = (drop_bit 15 crc OR push_bit 17 crc) + kMaskDelta"

definition Unmask :: "u32 \<Rightarrow> u32" where
  "Unmask masked_crc = (let rot = masked_crc - kMaskDelta in drop_bit 17 rot OR push_bit 15 rot)"

section \<open>The reference: division bit by bit\<close>

definition crc_fold :: "u32 \<Rightarrow> bytes \<Rightarrow> u32" where
  "crc_fold l bs = fold (\<lambda>b l. crc_byte (l XOR ucast b)) bs l"

definition crc_ref :: "u32 \<Rightarrow> bytes \<Rightarrow> u32" where
  "crc_ref crc bs = crc_fold (crc XOR 0xffffffff) bs XOR 0xffffffff"

lemma crc_fold_simps [simp]: "crc_fold l [] = l" "crc_fold l (b # bs) = crc_fold (crc_byte (l XOR ucast b)) bs"
  "crc_fold l (as @ bs) = crc_fold (crc_fold l as) bs"
  by (simp_all add: crc_fold_def)

lemma crc_ref_append: "crc_ref crc (as @ bs) = crc_ref (crc_ref crc as) bs"
  by (simp add: crc_ref_def xor.assoc)

section \<open>The table-driven code computes it\<close>

lemma and_255: "c AND 255 = take_bit 8 c" for c :: u32
  by (simp add: take_bit_eq_mask mask_eq_decr_exp)

lemma low_byte_less: "(c :: u32) AND 255 < 256"
proof -
  have "unat (c AND 255) = unat c mod 256" unfolding and_255 by (simp add: take_bit_eq_mod unat_mod)
  then show ?thesis by (simp add: word_less_nat_alt)
qed

lemma byte_split: "(c AND 255) XOR push_bit 8 (drop_bit 8 c) = c" for c :: u32
  by (rule bit_word_eqI) (auto simp: bit_simps bit_255_int)

lemma crc_byte_push [simp]: "n \<ge> 8 \<Longrightarrow> crc_byte (push_bit n x) = drop_bit 8 (push_bit n x)"
  by (rule crc_byte_shift) (auto simp: bit_simps)

lemma drop_push_8: "drop_bit 8 (push_bit 8 (drop_bit 8 c)) = drop_bit 8 (c :: u32)"
  by (rule bit_word_eqI) (auto simp: bit_simps dest: bit_imp_le_length)

lemma crc_byte_split: "crc_byte c = crc_byte (c AND 255) XOR drop_bit 8 c" for c :: u32
proof -
  have "crc_byte ((c AND 255) XOR push_bit 8 (drop_bit 8 c)) = crc_byte (c AND 255) XOR drop_bit 8 (push_bit 8 (drop_bit 8 c))"
    by (simp only: crc_byte_xor crc_byte_push order_refl)
  then show ?thesis by (simp only: byte_split drop_push_8)
qed

lemma STEP1_ok: "STEP1 (ucast l) b = Some (ucast (crc_byte (l XOR ucast b)))" for l :: u32
proof -
  let ?c = "(l XOR ucast b) AND 255 :: u32"
  have "(ucast l AND 255) XOR ucast b = (ucast ?c :: u64)"
    by (rule bit_word_eqI) (auto simp: bit_simps bit_255_int dest: bit_imp_le_length)
  then have idx: "unat ((ucast l AND 255 :: u64) XOR ucast b) = unat ?c" by (simp only: unat_ucast_up) (simp add: unat_ucast_up)
  have lt: "?c < 256" by (rule low_byte_less)
  then have "unat ?c < 256" by (simp add: word_less_nat_alt)
  moreover have "crc_byte (l XOR ucast b) = crc_byte ?c XOR drop_bit 8 l"
  proof -
    have "drop_bit 8 (l XOR ucast b) = drop_bit 8 l"
      by (rule bit_word_eqI) (auto simp: bit_simps dest: bit_imp_le_length)
    then show ?thesis using crc_byte_split [of "l XOR ucast b"] by (simp only:)
  qed
  moreover have "ucast (x XOR drop_bit 8 l) = (ucast x XOR drop_bit 8 (ucast l) :: u64)" for x :: u32
    by (rule bit_word_eqI) (auto simp: bit_simps dest: bit_imp_le_length)
  ultimately show ?thesis using table_nth(1) [OF lt] by (simp add: STEP1_def idx length_tables)
qed

lemma step_bytes_ok: "step_bytes (ucast l) bs = Some (ucast (crc_fold l bs))"
  by (induction bs arbitrary: l) (simp_all add: STEP1_ok)

text \<open>A byte above the lowest one moves down by one place.\<close>

lemma crc_byte_places:
  fixes x :: u32
  assumes "x < 256"
  shows "crc_byte (push_bit 8 x) = x" "crc_byte (push_bit 16 x) = push_bit 8 x" "crc_byte (push_bit 24 x) = push_bit 16 x"
proof -
  have "x AND mask 8 = x" using assms by (intro less_mask_eq) simp
  then have *: "bit x n \<Longrightarrow> n < 8" for n by (metis bit_and_iff Bit_Operations.semiring_bit_operations_class.bit_mask_iff)
  show "crc_byte (push_bit 8 x) = x" "crc_byte (push_bit 16 x) = push_bit 8 x" "crc_byte (push_bit 24 x) = push_bit 16 x"
    by (simp_all, (rule bit_word_eqI, auto simp: bit_simps dest: *)+)
qed

lemma ucast_byte_less: "(ucast (b :: byte) :: u32) < 256"
  using unsigned_less [of b, where ?'a = nat] by (simp add: word_less_nat_alt unat_ucast_up)

lemmas crc_places = crc_byte_places [OF ucast_byte_less] crc_byte_places [OF low_byte_less]

lemma load_xor: "(ucast a OR push_bit 8 (ucast b) OR push_bit 16 (ucast c) OR push_bit 24 (ucast d) :: u32) =
    ucast a XOR push_bit 8 (ucast b) XOR push_bit 16 (ucast c) XOR push_bit 24 (ucast d)" for a b c d :: byte
  by (rule bit_word_eqI) (auto simp: bit_simps dest: bit_imp_le_length)

lemma word_bytes: "c = (c AND 255) XOR push_bit 8 (drop_bit 8 c AND 255) XOR push_bit 16 (drop_bit 16 c AND 255) XOR
    push_bit 24 (drop_bit 24 c AND 255)" for c :: u32
  unfolding and_255 by (rule bit_word_eqI) (auto simp: bit_simps add_diff_if dest: bit_imp_le_length)

lemma high_byte: "drop_bit 24 c AND 255 = drop_bit 24 c" for c :: u32
  by (rule bit_word_eqI) (auto simp: bit_simps bit_255_int dest: bit_imp_le_length)

lemma crc_fold_word: "crc_fold l [a, b, c, d] =
    crc_byte (crc_byte (crc_byte (crc_byte (l XOR (ucast a XOR push_bit 8 (ucast b) XOR push_bit 16 (ucast c) XOR push_bit 24 (ucast d))))))"
  by (simp add: crc_byte_xor crc_places xor.assoc xor.left_commute)

lemma crc_word_tables: "crc_byte (crc_byte (crc_byte (crc_byte c))) =
    table3 ! unat (c AND 255) XOR table2 ! unat (drop_bit 8 c AND 255) XOR table1 ! unat (drop_bit 16 c AND 255) XOR table0 ! unat (drop_bit 24 c)"
proof -
  have "crc_byte (crc_byte (crc_byte (crc_byte c))) =
      crc_byte (crc_byte (crc_byte (crc_byte (c AND 255)))) XOR crc_byte (crc_byte (crc_byte (drop_bit 8 c AND 255))) XOR
      crc_byte (crc_byte (drop_bit 16 c AND 255)) XOR crc_byte (drop_bit 24 c AND 255)"
    by (subst word_bytes [of c]) (simp only: crc_byte_xor crc_places)
  then show ?thesis using low_byte_less [of "drop_bit 24 c"] by (simp only: table_nth [OF low_byte_less] high_byte table_nth)
qed

lemma Slow_half_ok: "Slow_CRC32_half (ucast l) (a # b # c # d # r) = Some (ucast (crc_fold l [a, b, c, d]), r)"
proof -
  let ?w = "ucast a OR push_bit 8 (ucast b) OR push_bit 16 (ucast c) OR push_bit 24 (ucast d) :: u32"
  have c: "(ucast ((ucast l :: u64) XOR ucast ?w) :: u32) = l XOR ?w"
    by (rule bit_word_eqI) (auto simp: bit_simps dest: bit_imp_le_length)
  have lt: "unat ((x :: u32) AND 255) < 256" for x using low_byte_less [of x] by (simp add: word_less_nat_alt)
  have lt24: "unat (drop_bit 24 (x :: u32)) < 256" for x using lt [of "drop_bit 24 x"] by (simp only: high_byte)
  have "crc_fold l [a, b, c, d] = crc_byte (crc_byte (crc_byte (crc_byte (l XOR ?w))))"
    by (simp only: crc_fold_word load_xor)
  then show ?thesis
    by (simp only: Slow_CRC32_half_def LE_LOAD32_def DecodeFixed32.simps c crc_word_tables)
      (simp add: length_tables lt lt24 c Let_def del: drop_bit_xor)
qed

lemma eight_bytes:
  assumes "length p \<ge> 8"
  obtains a b c d e f g h r where "p = a # b # c # d # e # f # g # h # r"
proof -
  have "\<exists>a b c d e f g h r. p = a # b # c # d # e # f # g # h # r"
    using assms by (auto simp: numeral_eq_Suc Suc_le_length_iff)
  then show ?thesis using that by blast
qed

text \<open>What \<open>ExtendImpl\<close> needs of the routine it is given: eight bytes are eight steps.\<close>

locale crc_unit =
  fixes CRC32 :: "u64 \<Rightarrow> bytes \<Rightarrow> (u64 \<times> bytes) option"
  assumes unit: "length p \<ge> 8 \<Longrightarrow> CRC32 (ucast (l :: u32)) p = Some (ucast (crc_fold l (take 8 p)), drop 8 p)"
begin

lemma crc_fold_take_drop: "crc_fold (crc_fold l (take n p)) (drop n p) = crc_fold l p"
  by (metis append_take_drop_id crc_fold_simps(3))

lemma loop8_ok: "\<exists>m q. loop8 CRC32 (ucast l) p = Some (ucast m, q) \<and> crc_fold m q = crc_fold l p"
proof (induction "length p" arbitrary: l p rule: less_induct)
  case less
  show ?case
  proof (cases "length p \<ge> 8")
    case True
    then show ?thesis using less.hyps [of "drop 8 p" "crc_fold l (take 8 p)"]
      by (simp add: loop8.simps [of _ _ p] unit crc_fold_take_drop)
  next
    case False
    then show ?thesis by (auto simp: loop8.simps [of _ _ p])
  qed
qed

lemma loop16_ok: "\<exists>m q. loop16 CRC32 (ucast l) p = Some (ucast m, q) \<and> crc_fold m q = crc_fold l p"
proof (induction "length p" arbitrary: l p rule: less_induct)
  case less
  show ?case
  proof (cases "length p \<ge> 16")
    case True
    then show ?thesis
      using less.hyps [of "drop 8 (drop 8 p)" "crc_fold (crc_fold l (take 8 p)) (take 8 (drop 8 p))"]
      by (simp add: loop16.simps [of _ _ p] unit crc_fold_take_drop del: drop_drop)
  next
    case False
    then show ?thesis by (auto simp: loop16.simps [of _ _ p])
  qed
qed

lemma ExtendImpl_ok: "ExtendImpl CRC32 addr crc buf = Some (crc_ref crc buf)"
proof -
  define n where "n = (if align_skip addr \<le> length buf then align_skip addr else 0)"
  let ?l = "crc XOR 0xffffffff"
  obtain m q where m: "loop16 CRC32 (ucast (crc_fold ?l (take n buf))) (drop n buf) = Some (ucast m, q)"
    "crc_fold m q = crc_fold ?l buf" using loop16_ok [of "crc_fold ?l (take n buf)" "drop n buf"] crc_fold_take_drop by auto
  obtain m' q' where m': "loop8 CRC32 (ucast m) q = Some (ucast m', q')" "crc_fold m' q' = crc_fold m q"
    using loop8_ok by blast
  have "(ucast (ucast x XOR 0xffffffff :: u64) :: u32) = x XOR 0xffffffff" for x :: u32
    by (rule bit_word_eqI) (auto simp: bit_simps)
  then show ?thesis using m m' by (simp add: ExtendImpl_def step_bytes_ok crc_ref_def flip: n_def)
qed

end

interpretation slow: crc_unit Slow_CRC32
proof
  fix p :: bytes and l :: u32
  assume "length p \<ge> 8"
  then obtain a b c d e f g h r where p: "p = a # b # c # d # e # f # g # h # r" by (rule eight_bytes)
  show "Slow_CRC32 (ucast l) p = Some (ucast (crc_fold l (take 8 p)), drop 8 p)"
    by (simp add: p Slow_CRC32_def Slow_half_ok del: crc_fold_simps(2)) (simp add: numeral_eq_Suc)
qed

text \<open>The documented meaning of the instruction: CRC-32C of the eight bytes of its second operand.\<close>

definition mm_crc32_ok :: "(u64 \<Rightarrow> u64 \<Rightarrow> u64) \<Rightarrow> bool" where
  "mm_crc32_ok mm \<longleftrightarrow> (\<forall>l w. mm (ucast (l :: u32)) w = ucast (crc_fold l (EncodeFixed64 w)))"

lemma byte_high: "bit (a :: byte) (8 + n) \<longleftrightarrow> False" "bit a (16 + n) \<longleftrightarrow> False" "bit a (24 + n) \<longleftrightarrow> False"
  by (auto dest!: bit_imp_le_length)

lemma Encode_DecodeFixed64: "DecodeFixed64 (a # b # c # d # e # f # g # h # r) = Some w \<Longrightarrow>
    EncodeFixed64 w = [a, b, c, d, e, f, g, h]"
  by (auto simp: DecodeFixed64_def EncodeFixed64_def byte_high intro!: bit_word_eqI simp: bit_simps)

lemma fast_unit: "mm_crc32_ok mm \<Longrightarrow> crc_unit (Fast_CRC32 mm)"
proof
  fix p :: bytes and l :: u32
  assume mm: "mm_crc32_ok mm" and "length p \<ge> 8"
  then obtain a b c d e f g h r where p: "p = a # b # c # d # e # f # g # h # r" by (meson eight_bytes)
  obtain w where w: "DecodeFixed64 p = Some w" by (simp add: p DecodeFixed64_def)
  then have "EncodeFixed64 w = take 8 p" using Encode_DecodeFixed64 p by simp
  then show "Fast_CRC32 mm (ucast l) p = Some (ucast (crc_fold l (take 8 p)), drop 8 p)"
    using mm w by (simp add: Fast_CRC32_def LE_LOAD64_def mm_crc32_ok_def)
qed

lemma Extend_ok: "sse \<longrightarrow> mm_crc32_ok mm \<Longrightarrow> Extend sse mm addr crc buf = Some (crc_ref crc buf)"
  by (simp add: Extend_def slow.ExtendImpl_ok crc_unit.ExtendImpl_ok [OF fast_unit])

lemma crc_Extend_ok [simp]: "crc_Extend crc buf = Some (crc_ref crc buf)"
  by (simp add: crc_Extend_def Extend_ok)

lemma crc_Value_ok [simp]: "crc_Value buf = Some (crc_ref 0 buf)"
  by (simp add: crc_Value_def)

lemma Unmask_Mask [simp]: "Unmask (Mask crc) = crc"
  by (rule bit_word_eqI) (auto simp: Mask_def Unmask_def bit_simps add_diff_if dest: bit_imp_le_length)



end
