(* ===== verification/Log_Writer.thy ===== *)
theory Log_Writer
  imports Crc32c Statuses
begin

text \<open>
  The write-ahead log, writing side (db/log_format.h, log_writer.h and log_writer.cc).  Records are
  cut into fragments that do not cross blocks of 32768 bytes.  The destination file is an argument:
  its \<open>Append\<close> and \<open>Flush\<close> return a status and the new file.  The locale \<open>log_dest\<close> has the
  contract of a destination; over it, \<open>AddRecord\<close> appends exactly the bytes of the record format.
\<close>

section \<open>The format\<close>

definition kZeroType :: nat where "kZeroType = 0"
definition kFullType :: nat where "kFullType = 1"
definition kFirstType :: nat where "kFirstType = 2"
definition kMiddleType :: nat where "kMiddleType = 3"
definition kLastType :: nat where "kLastType = 4"
definition kRecyclableFullType :: nat where "kRecyclableFullType = 5"
definition kRecyclableFirstType :: nat where "kRecyclableFirstType = 6"
definition kRecyclableMiddleType :: nat where "kRecyclableMiddleType = 7"
definition kRecyclableLastType :: nat where "kRecyclableLastType = 8"
definition kMaxRecordType :: nat where "kMaxRecordType = kRecyclableLastType"
definition kBlockSize :: nat where "kBlockSize = 32768"
definition kHeaderSize :: nat where "kHeaderSize = 4 + 1 + 2"
definition kRecyclableHeaderSize :: nat where "kRecyclableHeaderSize = 4 + 1 + 4 + 2"

lemmas record_types = kZeroType_def kFullType_def kFirstType_def kMiddleType_def kLastType_def kRecyclableFullType_def
  kRecyclableFirstType_def kRecyclableMiddleType_def kRecyclableLastType_def kMaxRecordType_def

lemmas log_sizes = kBlockSize_def kHeaderSize_def kRecyclableHeaderSize_def

section \<open>The writer\<close>

record 'd Writer =
  dest :: 'd
  block_offset :: nat
  w_log_number :: u64
  recycle_log_files :: bool
  type_crc :: "u32 list"

definition Writer_new :: "'d \<Rightarrow> u64 \<Rightarrow> bool \<Rightarrow> 'd Writer option" where
  "Writer_new d log_number recycle = do {
     crcs \<leftarrow> those (map (\<lambda>i. crc_Value [of_nat i]) [0..<kMaxRecordType + 1]);
     Some \<lparr>dest = d, block_offset = 0, w_log_number = log_number, recycle_log_files = recycle, type_crc = crcs\<rparr> }"

definition EmitPhysicalRecord ::
    "(bytes \<Rightarrow> 'd \<Rightarrow> (Status \<times> 'd) option) \<Rightarrow> ('d \<Rightarrow> (Status \<times> 'd) option) \<Rightarrow> nat \<Rightarrow> bytes \<Rightarrow> 'd Writer \<Rightarrow> (Status \<times> 'd Writer) option" where
  "EmitPhysicalRecord Append Flush t p w =
     (let n = length p;
          header_size = (if t < kRecyclableFullType then kHeaderSize else kRecyclableHeaderSize);
          log_num = (if t < kRecyclableFullType then [] else EncodeFixed32 (ucast (w_log_number w))) in
      if n \<le> 0xffff \<and> block_offset w + header_size + n \<le> kBlockSize then do {
        crc \<leftarrow> nth_opt (type_crc w) t;
        crc \<leftarrow> (if t < kRecyclableFullType then Some crc else crc_Extend crc log_num);
        crc \<leftarrow> crc_Extend crc p;
        let buf = EncodeFixed32 (Mask crc) @ [of_nat (n mod 256), of_nat (n div 256), of_nat t] @ log_num;
        (s, d) \<leftarrow> Append buf (dest w);
        (s, d) \<leftarrow> (if ok s then do { (s, d) \<leftarrow> Append p d; if ok s then Flush d else Some (s, d) } else Some (s, d));
        Some (s, w\<lparr>dest := d, block_offset := block_offset w + header_size + n\<rparr>)
      } else None)"

text \<open>The body of the loop before the fragment is emitted: a new block, its trailer filled.\<close>

definition switch_block :: "(bytes \<Rightarrow> 'd \<Rightarrow> (Status \<times> 'd) option) \<Rightarrow> nat \<Rightarrow> 'd Writer \<Rightarrow> 'd Writer option" where
  "switch_block Append header_size w =
     (if block_offset w \<le> kBlockSize then
        (let leftover = kBlockSize - block_offset w in
         if leftover < header_size then
           (if leftover > 0 then
              (if header_size \<le> 11 then do {
                 (s, d) \<leftarrow> Append (replicate leftover 0) (dest w);
                 Some (w\<lparr>dest := d, block_offset := 0\<rparr>) }
               else None)
            else Some (w\<lparr>block_offset := 0\<rparr>))
         else Some w)
      else None)"

definition fragment_type :: "bool \<Rightarrow> bool \<Rightarrow> bool \<Rightarrow> nat" where
  "fragment_type recycle begin end' =
     (if begin \<and> end' then (if recycle then kRecyclableFullType else kFullType)
      else if begin then (if recycle then kRecyclableFirstType else kFirstType)
      else if end' then (if recycle then kRecyclableLastType else kLastType)
      else (if recycle then kRecyclableMiddleType else kMiddleType))"

partial_function (option) AddRecord_loop ::
    "(bytes \<Rightarrow> 'd \<Rightarrow> (Status \<times> 'd) option) \<Rightarrow> ('d \<Rightarrow> (Status \<times> 'd) option) \<Rightarrow> nat \<Rightarrow> bool \<Rightarrow> bytes \<Rightarrow> 'd Writer \<Rightarrow> (Status \<times> 'd Writer) option" where
  "AddRecord_loop Append Flush header_size begin ptr w = do {
     w1 \<leftarrow> switch_block Append header_size w;
     if kBlockSize - block_offset w1 \<ge> header_size then do {
       let avail = kBlockSize - block_offset w1 - header_size;
       let fragment_length = (if length ptr < avail then length ptr else avail);
       (s, w2) \<leftarrow> EmitPhysicalRecord Append Flush
          (fragment_type (recycle_log_files w) begin (length ptr = fragment_length)) (take fragment_length ptr) w1;
       let ptr = drop fragment_length ptr;
       if ok s \<and> length ptr > 0 then AddRecord_loop Append Flush header_size False ptr w2 else Some (s, w2)
     } else None }"

definition AddRecord :: "(bytes \<Rightarrow> 'd \<Rightarrow> (Status \<times> 'd) option) \<Rightarrow> ('d \<Rightarrow> (Status \<times> 'd) option) \<Rightarrow> bytes \<Rightarrow> 'd Writer \<Rightarrow> (Status \<times> 'd Writer) option" where
  "AddRecord Append Flush r w =
     AddRecord_loop Append Flush (if recycle_log_files w then kRecyclableHeaderSize else kHeaderSize) True r w"

fun AddRecords :: "(bytes \<Rightarrow> 'd \<Rightarrow> (Status \<times> 'd) option) \<Rightarrow> ('d \<Rightarrow> (Status \<times> 'd) option) \<Rightarrow> bytes list \<Rightarrow> 'd Writer \<Rightarrow> 'd Writer option" where
  "AddRecords Append Flush [] w = Some w"
| "AddRecords Append Flush (r # rs) w = do {
     (s, w) \<leftarrow> AddRecord Append Flush r w;
     if ok s then AddRecords Append Flush rs w else None }"

section \<open>The bytes of a record\<close>

definition header_len :: "bool \<Rightarrow> nat" where
  "header_len recycle = (if recycle then kRecyclableHeaderSize else kHeaderSize)"

definition log_num_bytes :: "bool \<Rightarrow> u64 \<Rightarrow> bytes" where
  "log_num_bytes recycle ln = (if recycle then EncodeFixed32 (ucast ln) else [])"

definition physical :: "bool \<Rightarrow> u64 \<Rightarrow> nat \<Rightarrow> bytes \<Rightarrow> bytes" where
  "physical recycle ln t p =
     EncodeFixed32 (Mask (crc_ref 0 (of_nat t # log_num_bytes recycle ln @ p))) @
     [of_nat (length p mod 256), of_nat (length p div 256), of_nat t] @ log_num_bytes recycle ln @ p"

text \<open>Where the first fragment goes, and the trailer before it.\<close>

definition start_off :: "bool \<Rightarrow> nat \<Rightarrow> nat" where
  "start_off recycle off = (if kBlockSize - off < header_len recycle then 0 else off)"

definition padding :: "bool \<Rightarrow> nat \<Rightarrow> bytes" where
  "padding recycle off = (if kBlockSize - off < header_len recycle then replicate (kBlockSize - off) 0 else [])"

text \<open>The fragments of a record whose first one starts at offset \<open>off\<close> of a block, and the offset after it.\<close>

function fragments :: "bool \<Rightarrow> u64 \<Rightarrow> bool \<Rightarrow> nat \<Rightarrow> bytes \<Rightarrow> bytes \<times> nat" where
  "fragments recycle ln begin off r =
     (let avail = kBlockSize - off - header_len recycle in
      if length r \<le> avail
      then (physical recycle ln (fragment_type recycle begin True) r, off + header_len recycle + length r)
      else (let (x, off') = fragments recycle ln False 0 (drop avail r) in
            (physical recycle ln (fragment_type recycle begin False) (take avail r) @ x, off')))"
  by auto
termination
  by (relation "measures [\<lambda>(_, _, _, _, r). length r, \<lambda>(_, _, _, off, _). off]") (auto simp: log_sizes header_len_def)

declare fragments.simps [simp del]

lemma fragments_last: "length r \<le> kBlockSize - off - header_len rec \<Longrightarrow>
    fragments rec ln b off r = (physical rec ln (fragment_type rec b True) r, off + header_len rec + length r)"
  by (simp add: fragments.simps)

lemma fragments_more: "\<not> length r \<le> kBlockSize - off - header_len rec \<Longrightarrow>
    fragments rec ln b off r =
      (physical rec ln (fragment_type rec b False) (take (kBlockSize - off - header_len rec) r) @
         fst (fragments rec ln False 0 (drop (kBlockSize - off - header_len rec) r)),
       snd (fragments rec ln False 0 (drop (kBlockSize - off - header_len rec) r)))"
  by (subst fragments.simps) (simp add: Let_def split_beta)

definition record_bytes :: "bool \<Rightarrow> u64 \<Rightarrow> nat \<Rightarrow> bytes \<Rightarrow> bytes \<times> nat" where
  "record_bytes recycle ln off r =
     (let (x, off') = fragments recycle ln True (start_off recycle off) r in (padding recycle off @ x, off'))"

fun log_bytes :: "bool \<Rightarrow> u64 \<Rightarrow> nat \<Rightarrow> bytes list \<Rightarrow> bytes" where
  "log_bytes recycle ln off [] = []"
| "log_bytes recycle ln off (r # rs) = fst (record_bytes recycle ln off r) @ log_bytes recycle ln (snd (record_bytes recycle ln off r)) rs"

section \<open>The writer produces the format\<close>

definition writer_ok :: "('d \<Rightarrow> bool) \<Rightarrow> 'd Writer \<Rightarrow> bool" where
  "writer_ok good w \<longleftrightarrow> good (dest w) \<and> block_offset w \<le> kBlockSize \<and> type_crc w = map (\<lambda>i. crc_ref 0 [of_nat i]) [0..<kMaxRecordType + 1]"

definition same_log :: "'d Writer \<Rightarrow> 'd Writer \<Rightarrow> bool" where
  "same_log w w' \<longleftrightarrow> w_log_number w' = w_log_number w \<and> recycle_log_files w' = recycle_log_files w"

lemma those_map_total: "those (map (\<lambda>x. Some (f x)) xs) = Some (map f xs)"
  by (induction xs) auto

lemma Writer_new_ok:
  assumes "good d"
  shows "\<exists>w. Writer_new d ln rec = Some w \<and> writer_ok good w \<and> dest w = d \<and> block_offset w = 0 \<and> w_log_number w = ln \<and> recycle_log_files w = rec"
  using assms by (simp add: Writer_new_def those_map_total writer_ok_def del: upt_Suc)

locale log_dest =
  fixes Append :: "bytes \<Rightarrow> 'd \<Rightarrow> (Status \<times> 'd) option" and Flush :: "'d \<Rightarrow> (Status \<times> 'd) option"
    and written :: "'d \<Rightarrow> bytes" and good :: "'d \<Rightarrow> bool"
  assumes Append_written: "good d \<Longrightarrow> \<exists>d'. Append x d = Some (Status_OK, d') \<and> good d' \<and> written d' = written d @ x"
    and Flush_written: "good d \<Longrightarrow> \<exists>d'. Flush d = Some (Status_OK, d') \<and> good d' \<and> written d' = written d"
begin

lemma EmitPhysicalRecord_ok:
  assumes "writer_ok good w" "t = fragment_type (recycle_log_files w) b e" "length p \<le> kBlockSize"
    "block_offset w + header_len (recycle_log_files w) + length p \<le> kBlockSize"
  shows "\<exists>w'. EmitPhysicalRecord Append Flush t p w = Some (Status_OK, w') \<and> writer_ok good w' \<and> same_log w w' \<and>
    written (dest w') = written (dest w) @ physical (recycle_log_files w) (w_log_number w) t p \<and>
    block_offset w' = block_offset w + header_len (recycle_log_files w) + length p"
proof -
  let ?rec = "recycle_log_files w" and ?ln = "w_log_number w"
  have t: "t < kMaxRecordType + 1" "t < kRecyclableFullType \<longleftrightarrow> \<not> ?rec"
    by (auto simp: assms(2) fragment_type_def record_types)
  have crc: "nth_opt (type_crc w) t = Some (crc_ref 0 [of_nat t])"
    using assms(1) t(1) by (simp add: writer_ok_def nth_opt_def del: upt_Suc)
  define buf where "buf = EncodeFixed32 (Mask (crc_ref 0 (of_nat t # log_num_bytes ?rec ?ln @ p))) @
    [of_nat (length p mod 256), of_nat (length p div 256), of_nat t] @ log_num_bytes ?rec ?ln"
  obtain d1 where d1: "Append buf (dest w) = Some (Status_OK, d1)" "good d1" "written d1 = written (dest w) @ buf"
    using Append_written assms(1) by (auto simp: writer_ok_def)
  obtain d2 where d2: "Append p d1 = Some (Status_OK, d2)" "good d2" "written d2 = written d1 @ p"
    using Append_written [OF d1(2)] by blast
  obtain d3 where d3: "Flush d2 = Some (Status_OK, d3)" "good d3" "written d3 = written d2" using Flush_written [OF d2(2)] by blast
  have ref: "crc_ref (crc_ref 0 [x]) y = crc_ref 0 (x # y)" for x y using crc_ref_append [of 0 "[x]" y] by simp
  have "EmitPhysicalRecord Append Flush t p w =
    Some (Status_OK, w\<lparr>dest := d3, block_offset := block_offset w + header_len ?rec + length p\<rparr>)"
    using assms(3,4) d1(1) d2(1) d3(1) crc t(2)
    by (cases ?rec) (simp_all add: EmitPhysicalRecord_def Let_def header_len_def buf_def log_num_bytes_def ref
      crc_ref_append [symmetric] log_sizes)
  then show ?thesis using assms(1) assms(4) d1(3) d2(3) d3(2,3)
    by (auto simp: writer_ok_def same_log_def physical_def buf_def)
qed

lemma switch_block_ok:
  assumes "writer_ok good w"
  shows "\<exists>w'. switch_block Append (header_len (recycle_log_files w)) w = Some w' \<and> writer_ok good w' \<and> same_log w w' \<and>
    written (dest w') = written (dest w) @ padding (recycle_log_files w) (block_offset w) \<and>
    block_offset w' = start_off (recycle_log_files w) (block_offset w)"
proof -
  let ?l = "kBlockSize - block_offset w"
  obtain d where d: "Append (replicate ?l 0) (dest w) = Some (Status_OK, d)" "good d" "written d = written (dest w) @ replicate ?l 0"
    using Append_written assms by (auto simp: writer_ok_def)
  have "header_len (recycle_log_files w) \<le> 11" by (simp add: header_len_def log_sizes)
  then show ?thesis using assms d
    by (cases "?l < header_len (recycle_log_files w)"; cases "?l > 0")
      (auto simp: switch_block_def Let_def writer_ok_def same_log_def padding_def start_off_def)
qed

lemma AddRecord_loop_step:
  assumes "switch_block Append hs w = Some w1" "hs \<le> kBlockSize - block_offset w1"
    "fl = (if length p < kBlockSize - block_offset w1 - hs then length p else kBlockSize - block_offset w1 - hs)"
    "EmitPhysicalRecord Append Flush (fragment_type (recycle_log_files w) b (length p = fl)) (take fl p) w1 = Some (s, w2)"
  shows "AddRecord_loop Append Flush hs b p w =
    (if ok s \<and> length (drop fl p) > 0 then AddRecord_loop Append Flush hs False (drop fl p) w2 else Some (s, w2))"
  using assms(1,2,4) unfolding assms(3) by (subst AddRecord_loop.simps) (simp only: Let_def bind.bind_lunit if_True prod.case)

text \<open>The loop emits the fragments of the record, in a new block where the header does not fit.\<close>

lemma AddRecord_loop_ok:
  assumes "writer_ok good w" "recycle_log_files w = rec" "w_log_number w = ln" "start_off rec (block_offset w) = off"
  shows "\<exists>w'. AddRecord_loop Append Flush (header_len rec) bg r w = Some (Status_OK, w') \<and> writer_ok good w' \<and> same_log w w' \<and>
    written (dest w') = written (dest w) @ padding rec (block_offset w) @ fst (fragments rec ln bg off r) \<and>
    block_offset w' = snd (fragments rec ln bg off r)"
  using assms
proof (induction rec ln bg off r arbitrary: w rule: fragments.induct)
  case (1 rec ln bg off r)
  let ?hl = "header_len rec" and ?av = "kBlockSize - off - header_len rec"
  obtain w1 where w1: "switch_block Append ?hl w = Some w1" "writer_ok good w1" "same_log w w1"
    "written (dest w1) = written (dest w) @ padding rec (block_offset w)" "block_offset w1 = off"
    using switch_block_ok [OF 1(2)] 1(3,5) by auto
  have room: "off + ?hl \<le> kBlockSize" using 1(2,5) by (auto simp: start_off_def writer_ok_def header_len_def log_sizes)
  have log1: "recycle_log_files w1 = rec" "w_log_number w1 = ln" using w1(3) 1(3,4) by (auto simp: same_log_def)
  show ?case
  proof (cases "length r \<le> ?av")
    case True
    then have fl: "(if length r < ?av then length r else ?av) = length r" by auto
    have sz: "length r \<le> kBlockSize" "off + ?hl + length r \<le> kBlockSize" using True room by linarith+
    obtain w2 where w2: "EmitPhysicalRecord Append Flush (fragment_type rec bg True) r w1 = Some (Status_OK, w2)"
      "writer_ok good w2" "same_log w1 w2" "written (dest w2) = written (dest w1) @ physical rec ln (fragment_type rec bg True) r"
      "block_offset w2 = off + ?hl + length r"
      using EmitPhysicalRecord_ok [OF w1(2), of "fragment_type rec bg True" bg True r] sz unfolding log1 w1(5) by blast
    have "AddRecord_loop Append Flush ?hl bg r w = Some (Status_OK, w2)"
      using AddRecord_loop_step [OF w1(1) _ fl [folded w1(5), symmetric], of bg Status_OK w2] w2(1) w1(5) room 1(3) by simp
    then show ?thesis using w1(3,4) w2 by (auto simp: fragments_last [OF True] same_log_def)
  next
    case False
    then have fl: "(if length r < ?av then length r else ?av) = ?av" "length r \<noteq> ?av" by auto
    have sz: "length (take ?av r) \<le> kBlockSize" "off + ?hl + length (take ?av r) \<le> kBlockSize"
      "off + ?hl + length (take ?av r) = kBlockSize" using False room by auto
    obtain w2 where w2: "EmitPhysicalRecord Append Flush (fragment_type rec bg False) (take ?av r) w1 = Some (Status_OK, w2)"
      "writer_ok good w2" "same_log w1 w2" "written (dest w2) = written (dest w1) @ physical rec ln (fragment_type rec bg False) (take ?av r)"
      "block_offset w2 = kBlockSize"
      using EmitPhysicalRecord_ok [OF w1(2), of "fragment_type rec bg False" bg False "take ?av r"] sz unfolding log1 w1(5) by force
    have "start_off rec (block_offset w2) = 0" by (simp add: w2(5) start_off_def header_len_def log_sizes)
    with 1(1) [OF refl False w2(2)] w2(3) log1 obtain w3 where w3:
      "AddRecord_loop Append Flush ?hl False (drop ?av r) w2 = Some (Status_OK, w3)" "writer_ok good w3" "same_log w2 w3"
      "written (dest w3) = written (dest w2) @ padding rec (block_offset w2) @ fst (fragments rec ln False 0 (drop ?av r))"
      "block_offset w3 = snd (fragments rec ln False 0 (drop ?av r))" by (auto simp: same_log_def)
    have "padding rec (block_offset w2) = []" by (simp add: w2(5) padding_def)
    moreover have "AddRecord_loop Append Flush ?hl bg r w = Some (Status_OK, w3)"
      using AddRecord_loop_step [OF w1(1) _ fl(1) [folded w1(5), symmetric], of bg Status_OK w2] w2(1) w3(1) w1(5) room False fl(2) 1(3)
      by simp
    ultimately show ?thesis using w1(3,4) w2(3,4) w3 by (auto simp: fragments_more [OF False] same_log_def)
  qed
qed

lemma AddRecord_ok:
  assumes "writer_ok good w"
  shows "\<exists>w'. AddRecord Append Flush r w = Some (Status_OK, w') \<and> writer_ok good w' \<and> same_log w w' \<and>
    written (dest w') = written (dest w) @ fst (record_bytes (recycle_log_files w) (w_log_number w) (block_offset w) r) \<and>
    block_offset w' = snd (record_bytes (recycle_log_files w) (w_log_number w) (block_offset w) r)"
  using AddRecord_loop_ok [OF assms refl refl refl, of True r]
  by (simp add: AddRecord_def header_len_def [symmetric] record_bytes_def split_beta)

lemma AddRecords_ok:
  "writer_ok good w \<Longrightarrow>
   \<exists>w'. AddRecords Append Flush rs w = Some w' \<and> writer_ok good w' \<and> same_log w w' \<and>
     written (dest w') = written (dest w) @ log_bytes (recycle_log_files w) (w_log_number w) (block_offset w) rs"
proof (induction rs arbitrary: w)
  case (Cons r rs)
  from AddRecord_ok [OF Cons(2), of r] obtain w1 where w1: "AddRecord Append Flush r w = Some (Status_OK, w1)" "writer_ok good w1"
    "same_log w w1" "written (dest w1) = written (dest w) @ fst (record_bytes (recycle_log_files w) (w_log_number w) (block_offset w) r)"
    "block_offset w1 = snd (record_bytes (recycle_log_files w) (w_log_number w) (block_offset w) r)" by blast
  from Cons(1) [OF w1(2)] show ?case using w1 by (auto simp: same_log_def)
qed (auto simp: same_log_def)

end

end
