(* ===== verification/Log_Reader.thy ===== *)
theory Log_Reader
  imports Log_Writer
begin

text \<open>
  The write-ahead log, reading side (db/log_reader.h and log_reader.cc).  The file is an argument: its
  \<open>Read\<close> and \<open>Skip\<close> return a status, the bytes and the file after them.  The calls to the reporter are
  collected in \<open>drops\<close>.  The locale \<open>log_source\<close> has the contract of a file, and over it a reader
  returns exactly the complete records of a log that was cut off anywhere.
\<close>

datatype WALRecoveryMode = kTolerateCorruptedTailRecords | kAbsoluteConsistency | kPointInTimeRecovery | kSkipAnyCorruptedRecords

definition kEof :: nat where "kEof = kMaxRecordType + 1"
definition kBadRecord :: nat where "kBadRecord = kMaxRecordType + 2"
definition kBadHeader :: nat where "kBadHeader = kMaxRecordType + 3"
definition kOldRecord :: nat where "kOldRecord = kMaxRecordType + 4"

lemmas special_types = kEof_def kBadRecord_def kBadHeader_def kOldRecord_def

record 'f Reader =
  rd_file :: 'f
  has_reporter :: bool
  checksum :: bool
  buffer :: bytes
  eof :: bool
  read_error :: bool
  eof_offset :: nat
  last_record_offset :: u64
  end_of_buffer_offset :: u64
  initial_offset :: u64
  log_number :: u64
  drops :: "(nat \<times> Status) list"

definition Reader_new :: "'f \<Rightarrow> bool \<Rightarrow> bool \<Rightarrow> u64 \<Rightarrow> u64 \<Rightarrow> 'f Reader" where
  "Reader_new file reporter check initial log_num =
     \<lparr>rd_file = file, has_reporter = reporter, checksum = check, buffer = [], eof = False, read_error = False, eof_offset = 0,
      last_record_offset = 0, end_of_buffer_offset = 0, initial_offset = initial, log_number = log_num, drops = []\<rparr>"

definition ReportDrop :: "nat \<Rightarrow> Status \<Rightarrow> 'f Reader \<Rightarrow> 'f Reader" where
  "ReportDrop n reason r =
     (if has_reporter r \<and> end_of_buffer_offset r - of_nat (length (buffer r)) - of_nat n \<ge> initial_offset r
      then r\<lparr>drops := drops r @ [(n, reason)]\<rparr> else r)"

definition ReportCorruption :: "nat \<Rightarrow> bytes \<Rightarrow> 'f Reader \<Rightarrow> 'f Reader option" where
  "ReportCorruption n reason r = do { s \<leftarrow> Corruption_msg reason []; Some (ReportDrop n s r) }"

definition SkipToInitialBlock :: "(nat \<Rightarrow> 'f \<Rightarrow> (Status \<times> 'f) option) \<Rightarrow> 'f Reader \<Rightarrow> (bool \<times> 'f Reader) option" where
  "SkipToInitialBlock Skip r = do {
     let initial_offset_in_block = initial_offset r mod of_nat kBlockSize;
     let block_start_location = initial_offset r - initial_offset_in_block;
     let block_start_location =
       (if initial_offset_in_block > of_nat kBlockSize - 6 then block_start_location + of_nat kBlockSize else block_start_location);
     let r = r\<lparr>end_of_buffer_offset := block_start_location\<rparr>;
     if block_start_location > 0 then do {
       (s, f) \<leftarrow> Skip (unat block_start_location) (rd_file r);
       let r = r\<lparr>rd_file := f\<rparr>;
       Some (if \<not> ok s then (False, ReportDrop (unat block_start_location) s r) else (True, r)) }
     else Some (True, r) }"

text \<open>\<open>Inl\<close>: false, with the error and the number of bytes dropped if it was set.\<close>

definition ReadMore ::
    "(nat \<Rightarrow> 'f \<Rightarrow> (Status \<times> bytes \<times> 'f) option) \<Rightarrow> 'f Reader \<Rightarrow> ((nat \<times> nat option \<times> 'f Reader) + 'f Reader) option" where
  "ReadMore Read r =
     (if \<not> eof r \<and> \<not> read_error r then do {
        (s, x, f) \<leftarrow> Read kBlockSize (rd_file r);
        let r = r\<lparr>rd_file := f, buffer := x, end_of_buffer_offset := end_of_buffer_offset r + of_nat (length x)\<rparr>;
        if \<not> ok s then (let r = ReportDrop kBlockSize s (r\<lparr>buffer := []\<rparr>) in Some (Inl (kEof, None, r\<lparr>read_error := True\<rparr>)))
        else if length (buffer r) < kBlockSize then Some (Inr (r\<lparr>eof := True, eof_offset := length (buffer r)\<rparr>))
        else Some (Inr r) }
      else if length (buffer r) \<noteq> 0 then Some (Inl (kBadHeader, Some (length (buffer r)), r\<lparr>buffer := []\<rparr>))
      else Some (Inl (kEof, None, r\<lparr>buffer := []\<rparr>)))"

text \<open>The type or special value, the fragment, the bytes dropped if set, and the reader.\<close>

type_synonym 'f physical_result = "nat \<times> bytes \<times> nat option \<times> 'f Reader"

text \<open>The type is a (signed) character converted to an unsigned integer.\<close>

definition header_type :: "bytes \<Rightarrow> nat" where
  "header_type header = unat (scast (header ! 6) :: u32)"

definition header_length :: "bytes \<Rightarrow> nat" where
  "header_length header = unat (ucast (header ! 4) OR push_bit 8 (ucast (header ! 5)) :: u32)"

text \<open>The rest of the body once the whole header is in the buffer.\<close>

definition take_physical :: "nat \<Rightarrow> 'f Reader \<Rightarrow> 'f physical_result option" where
  "take_physical header_size r =
     (let header = buffer r; n = header_length header; t = header_type header in
      if header_size + n > length (buffer r) then
        (let drop_size = length (buffer r); r = r\<lparr>buffer := []\<rparr> in
         if \<not> eof r then do { r \<leftarrow> ReportCorruption drop_size (lit ''bad record length'') r; Some (kBadRecord, [], Some drop_size, r) }
         else if drop_size \<noteq> 0 then Some (kBadHeader, [], Some drop_size, r)
         else Some (kEof, [], Some drop_size, r))
      else if t = kZeroType \<and> n = 0 then Some (kBadRecord, [], None, r\<lparr>buffer := []\<rparr>)
      else do {
        good \<leftarrow> (if checksum r then do {
            crc \<leftarrow> DecodeFixed32 header;
            actual \<leftarrow> crc_Value (take (n + header_size - 6) (drop 6 header));
            Some (actual = Unmask crc) }
          else Some True);
        if \<not> good then do {
          let drop_size = length (buffer r);
          r \<leftarrow> ReportCorruption drop_size (lit ''checksum mismatch'') (r\<lparr>buffer := []\<rparr>);
          Some (kBadRecord, [], Some drop_size, r) }
        else
          (let r = r\<lparr>buffer := drop (header_size + n) (buffer r)\<rparr> in
           if end_of_buffer_offset r - of_nat (length (buffer r)) - of_nat header_size - of_nat n < initial_offset r
           then Some (kBadRecord, [], None, r)
           else Some (t, take n (drop header_size header), None, r)) })"

partial_function (option) ReadPhysicalRecord :: "(nat \<Rightarrow> 'f \<Rightarrow> (Status \<times> bytes \<times> 'f) option) \<Rightarrow> 'f Reader \<Rightarrow> 'f physical_result option" where
  "ReadPhysicalRecord Read r =
     (if length (buffer r) < kHeaderSize then do {
        m \<leftarrow> ReadMore Read r;
        (case m of Inl (err, d, r) \<Rightarrow> Some (err, [], d, r) | Inr r \<Rightarrow> ReadPhysicalRecord Read r) }
      else if kRecyclableFullType \<le> header_type (buffer r) \<and> header_type (buffer r) \<le> kRecyclableLastType then
        (if length (buffer r) < kRecyclableHeaderSize then do {
           m \<leftarrow> ReadMore Read r;
           (case m of Inl (err, d, r) \<Rightarrow> Some (err, [], d, r) | Inr r \<Rightarrow> ReadPhysicalRecord Read r) }
         else do {
           log_num \<leftarrow> DecodeFixed32 (drop 7 (buffer r));
           if ucast log_num \<noteq> log_number r then Some (kOldRecord, [], None, r) else take_physical kRecyclableHeaderSize r })
      else take_physical kHeaderSize r)"

text \<open>What \<open>snprintf\<close> prints for an unsigned integer.\<close>

fun decimal :: "nat \<Rightarrow> bytes" where
  "decimal n = (if n < 10 then [of_nat (48 + n)] else decimal (n div 10) @ [of_nat (48 + n mod 10)])"

declare decimal.simps [simp del]

text \<open>The record (\<open>None\<close> for false), the scratch string and the reader.\<close>

type_synonym 'f record_result = "bytes option \<times> bytes \<times> 'f Reader"

text \<open>
  The loop of \<open>ReadRecord\<close>: whether a fragmented record is being read, the fragments so far, and the
  offset of the record.
\<close>

partial_function (option) ReadRecord_loop ::
    "(nat \<Rightarrow> 'f \<Rightarrow> (Status \<times> bytes \<times> 'f) option) \<Rightarrow> WALRecoveryMode \<Rightarrow> bool \<Rightarrow> bytes \<Rightarrow> u64 \<Rightarrow> 'f Reader \<Rightarrow> 'f record_result option" where
  "ReadRecord_loop Read mode in_fragmented scratch prospective r = do {
     let physical_record_offset = end_of_buffer_offset r - of_nat (length (buffer r));
     (t, fragment, drop_size, r) \<leftarrow> ReadPhysicalRecord Read r;
     if t = kFullType \<or> t = kRecyclableFullType then do {
       r \<leftarrow> (if in_fragmented \<and> scratch \<noteq> [] then ReportCorruption (length scratch) (lit ''partial record without end(1)'') r else Some r);
       Some (Some fragment, [], r\<lparr>last_record_offset := physical_record_offset\<rparr>) }
     else if t = kFirstType \<or> t = kRecyclableFirstType then do {
       r \<leftarrow> (if in_fragmented \<and> scratch \<noteq> [] then ReportCorruption (length scratch) (lit ''partial record without end(2)'') r else Some r);
       ReadRecord_loop Read mode True fragment physical_record_offset r }
     else if t = kMiddleType \<or> t = kRecyclableMiddleType then
       (if \<not> in_fragmented then do {
          r \<leftarrow> ReportCorruption (length fragment) (lit ''missing start of fragmented record(1)'') r;
          ReadRecord_loop Read mode in_fragmented scratch prospective r }
        else ReadRecord_loop Read mode in_fragmented (scratch @ fragment) prospective r)
     else if t = kLastType \<or> t = kRecyclableLastType then
       (if \<not> in_fragmented then do {
          r \<leftarrow> ReportCorruption (length fragment) (lit ''missing start of fragmented record(2)'') r;
          ReadRecord_loop Read mode in_fragmented scratch prospective r }
        else Some (Some (scratch @ fragment), scratch @ fragment, r\<lparr>last_record_offset := prospective\<rparr>))
     else if t = kBadHeader \<or> t = kEof then do {
       r \<leftarrow> (if t = kBadHeader \<and> mode = kAbsoluteConsistency
             then do { n \<leftarrow> drop_size; ReportCorruption n (lit ''truncated header'') r } else Some r);
       if in_fragmented then do {
         r \<leftarrow> (if mode = kAbsoluteConsistency then ReportCorruption (length scratch) (lit ''error reading trailing data'') r else Some r);
         Some (None, [], r) }
       else Some (None, scratch, r) }
     else if t = kOldRecord \<and> mode \<noteq> kSkipAnyCorruptedRecords then
       (if in_fragmented then do {
          r \<leftarrow> (if mode = kAbsoluteConsistency then ReportCorruption (length scratch) (lit ''error reading trailing data'') r else Some r);
          Some (None, [], r) }
        else Some (None, scratch, r))
     else if t = kOldRecord \<or> t = kBadRecord then
       (if in_fragmented then do {
          r \<leftarrow> ReportCorruption (length scratch) (lit ''error in middle of record'') r;
          ReadRecord_loop Read mode False [] prospective r }
        else ReadRecord_loop Read mode in_fragmented scratch prospective r)
     else do {
       r \<leftarrow> ReportCorruption (length fragment + (if in_fragmented then length scratch else 0)) (lit ''unknown record type '' @ decimal t) r;
       ReadRecord_loop Read mode False [] prospective r } }"

definition ReadRecord ::
    "(nat \<Rightarrow> 'f \<Rightarrow> (Status \<times> bytes \<times> 'f) option) \<Rightarrow> (nat \<Rightarrow> 'f \<Rightarrow> (Status \<times> 'f) option) \<Rightarrow> WALRecoveryMode \<Rightarrow> 'f Reader \<Rightarrow> 'f record_result option" where
  "ReadRecord Read Skip mode r =
     (if last_record_offset r < initial_offset r then do {
        (b, r) \<leftarrow> SkipToInitialBlock Skip r;
        if \<not> b then Some (None, [], r) else ReadRecord_loop Read mode False [] 0 r }
      else ReadRecord_loop Read mode False [] 0 r)"

definition UnmarkEOF :: "(nat \<Rightarrow> 'f \<Rightarrow> (Status \<times> bytes \<times> 'f) option) \<Rightarrow> 'f Reader \<Rightarrow> 'f Reader option" where
  "UnmarkEOF Read r =
     (if read_error r then Some r
      else
        (let r = r\<lparr>eof := False\<rparr> in
         if eof_offset r = 0 then Some r
         else if length (buffer r) > eof_offset r \<or> eof_offset r > kBlockSize then None
         else do {
           let remaining = kBlockSize - eof_offset r;
           (s, x, f) \<leftarrow> Read remaining (rd_file r);
           let added = length x;
           let r = r\<lparr>rd_file := f, end_of_buffer_offset := end_of_buffer_offset r + of_nat added\<rparr>;
           if \<not> ok s then
             (let r = (if added > 0 then ReportDrop added s r else r) in Some (r\<lparr>read_error := True\<rparr>))
           else if added > remaining then None
           else
             (let r = r\<lparr>buffer := buffer r @ x\<rparr> in
              Some (if added < remaining then r\<lparr>eof := True, eof_offset := eof_offset r + added\<rparr> else r\<lparr>eof_offset := 0\<rparr>)) }))"

text \<open>How recovery uses a reader: until \<open>ReadRecord\<close> returns false.\<close>

partial_function (option) ReadRecords ::
    "(nat \<Rightarrow> 'f \<Rightarrow> (Status \<times> bytes \<times> 'f) option) \<Rightarrow> (nat \<Rightarrow> 'f \<Rightarrow> (Status \<times> 'f) option) \<Rightarrow> WALRecoveryMode \<Rightarrow> 'f Reader \<Rightarrow> (bytes list \<times> 'f Reader) option" where
  "ReadRecords Read Skip mode r = do {
     (x, scratch, r) \<leftarrow> ReadRecord Read Skip mode r;
     (case x of None \<Rightarrow> Some ([], r)
      | Some rec \<Rightarrow> do { (xs, r) \<leftarrow> ReadRecords Read Skip mode r; Some (rec # xs, r) }) }"

section \<open>Parsing headers\<close>

lemma or_shift8: "a < 256 \<Longrightarrow> b < 256 \<Longrightarrow> unat (of_nat a OR push_bit 8 (of_nat b) :: u32) = a + 256 * b"
proof -
  assume a: "a < 256" and b: "b < 256"
  have "(of_nat a :: u32) AND push_bit 8 (of_nat b) = 0"
  proof (rule bit_word_eqI)
    fix n assume "n < LENGTH(32)"
    have "\<not> bit a n" if "8 \<le> n"
    proof -
      have "a < 2 ^ 8" using a by simp
      also have "(2 :: nat) ^ 8 \<le> 2 ^ n" using that by (intro power_increasing) simp_all
      finally show ?thesis by (simp add: bit_iff_odd)
    qed
    then show "bit (of_nat a AND push_bit 8 (of_nat b) :: u32) n = bit 0 n" by (auto simp: bit_simps)
  qed
  then have "(of_nat a :: u32) OR push_bit 8 (of_nat b) = of_nat a + push_bit 8 (of_nat b)" by (simp add: disjunctive_add_eq_or)
  also have "\<dots> = of_nat (a + 256 * b)" by (simp add: push_bit_eq_mult)
  finally have eq: "(of_nat a :: u32) OR push_bit 8 (of_nat b) = of_nat (a + 256 * b)" .
  have "a + 256 * b < 2 ^ 32" using a b by simp
  then show ?thesis unfolding eq by (rule unat_small)
qed

lemma byte_u32: "n < 256 \<Longrightarrow> (ucast (of_nat n :: byte) :: u32) = of_nat n"
  by (simp add: unsigned_of_nat take_bit_nat_eq_self)

lemma header_length_eq:
  assumes "length p < 65536"
  shows "header_length (a # b # c # d # of_nat (length p mod 256) # of_nat (length p div 256) # x) = length p"
proof -
  have "length p div 256 < 256" "length p mod 256 < 256" using assms by (simp_all add: less_mult_imp_div_less)
  then have "header_length (a # b # c # d # of_nat (length p mod 256) # of_nat (length p div 256) # x) =
    length p mod 256 + 256 * (length p div 256)"
    by (simp add: header_length_def byte_u32 or_shift8)
  then show ?thesis by simp
qed

lemma header_type_eq: "t \<le> kMaxRecordType \<Longrightarrow> header_type (a # b # c # d # e # f # of_nat t # x) = t"
proof -
  assume "t \<le> kMaxRecordType"
  then have "t \<in> {0, 1, 2, 3, 4, 5, 6, 7, 8}" by (auto simp: record_types)
  then show ?thesis by (elim insertE) (simp_all add: header_type_def)
qed

lemma physical_header:
  "physical rec ln t p =
     (let m = Mask (crc_ref 0 (of_nat t # log_num_bytes rec ln @ p)) in
      ucast m # ucast (drop_bit 8 m) # ucast (drop_bit 16 m) # ucast (drop_bit 24 m) #
      of_nat (length p mod 256) # of_nat (length p div 256) # of_nat t # log_num_bytes rec ln @ p)"
  by (simp add: physical_def EncodeFixed32_def Let_def)

lemma header_len_log_num: "header_len rec = 7 + length (log_num_bytes rec ln)"
  by (simp add: log_num_bytes_def header_len_def log_sizes)

lemma length_physical [simp]: "length (physical rec ln t p) = header_len rec + length p"
  using header_len_log_num [of rec ln] by (simp add: physical_header Let_def)

lemma take_7: "7 \<le> n \<Longrightarrow> take n (a # b # c # d # e # f # g # x) = a # b # c # d # e # f # g # take (n - 7) x"
  by (simp add: take_Cons' numeral_eq_Suc)

text \<open>Seven bytes of a physical record tell its length and type, eleven of a recyclable one its log.\<close>

lemma physical_parse:
  assumes "length p < 65536" "t \<le> kMaxRecordType" "7 \<le> n"
  shows "header_length (take n (physical rec ln t p) @ y) = length p" "header_type (take n (physical rec ln t p) @ y) = t"
  using assms by (simp_all add: physical_header Let_def take_7 header_length_eq header_type_eq)

lemma physical_log_num:
  assumes "11 \<le> n"
  shows "DecodeFixed32 (drop 7 (take n (physical True ln t p) @ y)) = Some (ucast ln)"
proof -
  have "drop 7 (take n (physical True ln t p) @ y) = EncodeFixed32 (ucast ln) @ take (n - 11) p @ y"
    using assms by (simp add: physical_header Let_def take_7 log_num_bytes_def)
  then show ?thesis by simp
qed

lemma physical_crc:
  "DecodeFixed32 (physical rec ln t p @ y) = Some (Mask (crc_ref 0 (of_nat t # log_num_bytes rec ln @ p)))"
  "take (length p + header_len rec - 6) (drop 6 (physical rec ln t p @ y)) = of_nat t # log_num_bytes rec ln @ p"
  "take (length p) (drop (header_len rec) (physical rec ln t p @ y)) = p"
proof -
  show "DecodeFixed32 (physical rec ln t p @ y) = Some (Mask (crc_ref 0 (of_nat t # log_num_bytes rec ln @ p)))"
    by (simp add: physical_def)
  have l: "length p + header_len rec - 6 = Suc (length (log_num_bytes rec ln) + length p)" using header_len_log_num [of rec ln] by simp
  show "take (length p + header_len rec - 6) (drop 6 (physical rec ln t p @ y)) = of_nat t # log_num_bytes rec ln @ p"
    unfolding l by (simp add: physical_header Let_def)
  define h where "h = EncodeFixed32 (Mask (crc_ref 0 (of_nat t # log_num_bytes rec ln @ p))) @
    [of_nat (length p mod 256), of_nat (length p div 256), of_nat t] @ log_num_bytes rec ln"
  have "length h = header_len rec" "physical rec ln t p = h @ p"
    by (simp_all add: h_def physical_def header_len_log_num [of rec ln])
  then have "drop (header_len rec) (physical rec ln t p @ y) = p @ y" by simp
  then show "take (length p) (drop (header_len rec) (physical rec ln t p @ y)) = p" by simp
qed

section \<open>The position of a reader\<close>

text \<open>
  A reader at offset \<open>off\<close> of a block with \<open>data\<close> before it: its buffer holds what is left of the
  block, the file the rest, and it has seen the end of the file if that lies in this block.
\<close>

definition at_pos :: "('f \<Rightarrow> bytes) \<Rightarrow> ('f \<Rightarrow> bool) \<Rightarrow> nat \<Rightarrow> bytes \<Rightarrow> 'f Reader \<Rightarrow> bool" where
  "at_pos rest live off data r \<longleftrightarrow> live (rd_file r) \<and> off \<le> kBlockSize \<and> buffer r = take (kBlockSize - off) data \<and>
     rest (rd_file r) = drop (kBlockSize - off) data \<and> (eof r \<longleftrightarrow> off + length data < kBlockSize) \<and> \<not> read_error r \<and> initial_offset r = 0"

text \<open>Ready to read a record at \<open>off\<close>: there, or in a trailer that is too short for a header.\<close>

definition ready :: "('f \<Rightarrow> bytes) \<Rightarrow> ('f \<Rightarrow> bool) \<Rightarrow> nat \<Rightarrow> bytes \<Rightarrow> 'f Reader \<Rightarrow> bool" where
  "ready rest live off data r \<longleftrightarrow> at_pos rest live off data r \<or>
     (off = 0 \<and> (\<exists>o1 d. at_pos rest live o1 d r \<and> kBlockSize - o1 < kHeaderSize \<and> \<not> eof r \<and> drop (kBlockSize - o1) d = data))"

lemma ready_next_block: "at_pos rest live kBlockSize data r \<Longrightarrow> ready rest live 0 data r"
  unfolding ready_def by (intro disjI2 conjI exI [of _ kBlockSize] exI [of _ data]) (simp_all add: at_pos_def kHeaderSize_def)

definition keeps :: "'f Reader \<Rightarrow> 'f Reader \<Rightarrow> bool" where
  "keeps r r' \<longleftrightarrow> drops r' = drops r \<and> log_number r' = log_number r \<and> checksum r' = checksum r \<and> initial_offset r' = initial_offset r"

lemma keeps_refl [simp]: "keeps r r"
  by (simp add: keeps_def)

lemma keeps_trans [trans]: "keeps r r' \<Longrightarrow> keeps r' r'' \<Longrightarrow> keeps r r''"
  by (simp add: keeps_def)

lemma keeps_upd [simp]: "keeps r (r'\<lparr>last_record_offset := x\<rparr>) = keeps r r'" "keeps r (r'\<lparr>buffer := y\<rparr>) = keeps r r'"
  by (simp_all add: keeps_def)

lemma at_pos_upd [simp]: "at_pos rest live off data (r\<lparr>last_record_offset := x\<rparr>) = at_pos rest live off data r"
  by (simp add: at_pos_def)

text \<open>The reader belongs to the log that is read; records of recycled logs carry 32 bits of its number.\<close>

definition log_ok :: "bool \<Rightarrow> u64 \<Rightarrow> 'f Reader \<Rightarrow> bool" where
  "log_ok rec ln r \<longleftrightarrow> rec \<longrightarrow> log_number r = ln \<and> ln < 2 ^ 32"

lemma log_ok_keeps: "keeps r r' \<Longrightarrow> log_ok rec ln r \<Longrightarrow> log_ok rec ln r'"
  by (simp add: keeps_def log_ok_def)

lemma low_log_num: "ln < 2 ^ 32 \<Longrightarrow> ucast (ucast ln :: u32) = (ln :: u64)"
  by (simp add: word_unat_eq_iff unsigned_ucast_eq unsigned_take_bit_eq take_bit_nat_eq_self word_less_nat_alt)

lemma take_physical_ok:
  assumes "header_length (buffer r) = n" "header_type (buffer r) = t" "hs + n \<le> length (buffer r)" "t \<noteq> kZeroType"
    "DecodeFixed32 (buffer r) = Some (Mask c)" "crc_ref 0 (take (n + hs - 6) (drop 6 (buffer r))) = c" "initial_offset r = 0"
  shows "take_physical hs r = Some (t, take n (drop hs (buffer r)), None, r\<lparr>buffer := drop (hs + n) (buffer r)\<rparr>)"
  using assms by (simp add: take_physical_def Let_def)

lemma take_physical_physical:
  assumes "buffer r = physical rec ln t p @ z" "length p < 65536" "t \<le> kMaxRecordType" "t \<noteq> kZeroType" "initial_offset r = 0"
  shows "header_length (buffer r) = length p" "header_type (buffer r) = t"
    "take_physical (header_len rec) r = Some (t, p, None, r\<lparr>buffer := z\<rparr>)"
proof -
  have "7 \<le> header_len rec" by (simp add: header_len_def log_sizes)
  then show parse: "header_length (buffer r) = length p" "header_type (buffer r) = t"
    unfolding assms(1) using physical_parse [OF assms(2,3), where n = "header_len rec + length p" and rec = rec and ln = ln and y = z] by simp_all
  have len: "length (buffer r) \<ge> header_len rec + length p" by (simp add: assms(1))
  note crc = physical_crc [where rec = rec and ln = ln and t = t and p = p and y = z, folded assms(1)]
  have rem: "drop (header_len rec + length p) (buffer r) = z" by (simp add: assms(1))
  have c2: "crc_ref 0 (take (length p + header_len rec - 6) (drop 6 (buffer r))) = crc_ref 0 (of_nat t # log_num_bytes rec ln @ p)"
    by (simp only: crc(2))
  show "take_physical (header_len rec) r = Some (t, p, None, r\<lparr>buffer := z\<rparr>)"
    by (simp only: take_physical_ok [OF parse len assms(4) crc(1) c2 assms(5)] crc(3) rem)
qed

text \<open>The results that end the log without a complaint.\<close>

definition ended :: "'f Reader \<Rightarrow> 'f physical_result option \<Rightarrow> bool" where
  "ended r res \<longleftrightarrow> (\<exists>c d r'. res = Some (c, [], d, r') \<and> (c = kEof \<or> c = kBadHeader \<and> d \<noteq> None) \<and> keeps r r')"

locale log_source =
  fixes Read :: "nat \<Rightarrow> 'f \<Rightarrow> (Status \<times> bytes \<times> 'f) option" and rest :: "'f \<Rightarrow> bytes" and live :: "'f \<Rightarrow> bool"
  assumes Read_rest: "live f \<Longrightarrow> \<exists>f'. Read n f = Some (Status_OK, take n (rest f), f') \<and> live f' \<and> rest f' = drop n (rest f)"
begin

lemma ReadMore_next:
  assumes "at_pos rest live off data r" "\<not> eof r"
  shows "\<exists>r'. ReadMore Read r = Some (Inr r') \<and> at_pos rest live 0 (drop (kBlockSize - off) data) r' \<and> keeps r r'"
proof -
  obtain f' where f': "Read kBlockSize (rd_file r) = Some (Status_OK, take kBlockSize (rest (rd_file r)), f')" "live f'"
    "rest f' = drop kBlockSize (rest (rd_file r))" using Read_rest [of "rd_file r" kBlockSize] assms(1) by (auto simp: at_pos_def)
  show ?thesis using assms f' by (auto simp: ReadMore_def at_pos_def keeps_def Let_def)
qed

lemma ReadMore_end:
  assumes "at_pos rest live off data r" "eof r"
  shows "ReadMore Read r = Some (Inl (if buffer r \<noteq> [] then (kBadHeader, Some (length (buffer r)), r\<lparr>buffer := []\<rparr>) else (kEof, None, r\<lparr>buffer := []\<rparr>)))"
  using assms by (simp add: ReadMore_def)

text \<open>From a short trailer the reader goes to the next block.\<close>

lemma ReadPhysicalRecord_ready:
  assumes "ready rest live off data r"
  obtains r' where "ReadPhysicalRecord Read r = ReadPhysicalRecord Read r'" "at_pos rest live off data r'" "keeps r r'"
proof (cases "at_pos rest live off data r")
  case True then show ?thesis using that [of r] by simp
next
  case False
  then obtain o1 d where o1: "off = 0" "at_pos rest live o1 d r" "kBlockSize - o1 < kHeaderSize" "\<not> eof r" "drop (kBlockSize - o1) d = data"
    using assms by (auto simp: ready_def)
  obtain r' where r': "ReadMore Read r = Some (Inr r')" "at_pos rest live 0 data r'" "keeps r r'"
    using ReadMore_next [OF o1(2,4)] o1(5) by blast
  have "length (buffer r) < kHeaderSize" using o1(2,3) by (simp add: at_pos_def)
  then have "ReadPhysicalRecord Read r = ReadPhysicalRecord Read r'" using r'(1) by (subst ReadPhysicalRecord.simps) simp
  then show ?thesis using that r'(2,3) o1(1) by simp
qed

text \<open>A complete physical record.\<close>

lemma read_complete:
  assumes "ready rest live off (physical rec ln t p @ y) r" "off + header_len rec + length p \<le> kBlockSize"
    "t = fragment_type rec b e" "log_ok rec ln r"
  obtains r' where "ReadPhysicalRecord Read r = Some (t, p, None, r')" "at_pos rest live (off + header_len rec + length p) y r'" "keeps r r'"
proof -
  obtain r1 where r1: "ReadPhysicalRecord Read r = ReadPhysicalRecord Read r1"
    "at_pos rest live off (physical rec ln t p @ y) r1" "keeps r r1" by (rule ReadPhysicalRecord_ready [OF assms(1)])
  let ?z = "take (kBlockSize - off - (header_len rec + length p)) y"
  have t: "t \<le> kMaxRecordType" "t \<noteq> kZeroType" "(kRecyclableFullType \<le> t \<and> t \<le> kRecyclableLastType) = rec"
    by (auto simp: assms(3) fragment_type_def record_types)
  have p: "length p < 65536" using assms(2) by (simp add: log_sizes)
  have buf: "buffer r1 = physical rec ln t p @ ?z" using r1(2) assms(2) by (simp add: at_pos_def)
  have hl: "7 \<le> header_len rec" "header_len rec = (if rec then kRecyclableHeaderSize else kHeaderSize)" by (auto simp: header_len_def log_sizes)
  have len: "length (buffer r1) \<ge> header_len rec + length p" by (simp add: buf)
  let ?r2 = "r1\<lparr>buffer := ?z\<rparr>"
  have i0: "initial_offset r1 = 0" using r1(2) by (simp add: at_pos_def)
  note parse = take_physical_physical(1,2) [OF buf p t(1,2) i0] and take = take_physical_physical(3) [OF buf p t(1,2) i0]
  have "ReadPhysicalRecord Read r1 = Some (t, p, None, ?r2)"
  proof (cases rec)
    case True
    have "DecodeFixed32 (drop 7 (buffer r1)) = Some (ucast ln)"
      using physical_log_num [of "length (physical True ln t p)" ln t p ?z] True buf by (simp add: header_len_def log_sizes)
    moreover have "ucast (ucast ln :: u32) = log_number r1"
      using True log_ok_keeps [OF r1(3) assms(4)] low_log_num [of ln] by (simp add: log_ok_def)
    ultimately show ?thesis using True take t(3) parse hl len by (subst ReadPhysicalRecord.simps) (simp add: log_sizes)
  next
    case False
    then show ?thesis using take t(3) parse hl len by (subst ReadPhysicalRecord.simps) (auto simp: log_sizes)
  qed
  moreover have "at_pos rest live (off + header_len rec + length p) y ?r2"
    using r1(2) assms(2) by (auto simp: at_pos_def add.assoc)
  ultimately show ?thesis using that r1 by simp
qed

lemma take_physical_cut:
  "hs + header_length (buffer r) > length (buffer r) \<Longrightarrow> eof r \<Longrightarrow> buffer r \<noteq> [] \<Longrightarrow>
   take_physical hs r = Some (kBadHeader, [], Some (length (buffer r)), r\<lparr>buffer := []\<rparr>)"
  by (simp add: take_physical_def Let_def)

lemma short_buffer_ended:
  assumes "at_pos rest live off data r" "eof r" "length (buffer r) < kHeaderSize"
  shows "ended r (ReadPhysicalRecord Read r)"
  using ReadMore_end [OF assms(1,2)] assms(3) by (subst ReadPhysicalRecord.simps) (auto simp: ended_def)

text \<open>A physical record that was cut off.\<close>

lemma read_cut:
  assumes "ready rest live off (take n (physical rec ln t p)) r" "n < header_len rec + length p" "off + header_len rec + length p \<le> kBlockSize"
    "t = fragment_type rec b e" "log_ok rec ln r"
  shows "ended r (ReadPhysicalRecord Read r)"
proof -
  obtain r1 where r1: "ReadPhysicalRecord Read r = ReadPhysicalRecord Read r1"
    "at_pos rest live off (take n (physical rec ln t p)) r1" "keeps r r1" by (rule ReadPhysicalRecord_ready [OF assms(1)])
  have t: "t \<le> kMaxRecordType" "(kRecyclableFullType \<le> t \<and> t \<le> kRecyclableLastType) = rec"
    by (auto simp: assms(4) fragment_type_def record_types)
  have p: "length p < 65536" using assms(3) by (simp add: log_sizes)
  have buf: "buffer r1 = take n (physical rec ln t p)" "length (buffer r1) = n" and eof: "eof r1"
    using r1(2) assms(2,3) by (auto simp: at_pos_def)
  have "ended r1 (ReadPhysicalRecord Read r1)"
  proof (cases "n < kHeaderSize")
    case True then show ?thesis using short_buffer_ended [OF r1(2) eof] buf by simp
  next
    case False
    then have n7: "7 \<le> n" by (simp add: log_sizes)
    have parse: "header_length (buffer r1) = length p" "header_type (buffer r1) = t"
      using physical_parse [OF p t(1) n7, where rec = rec and ln = ln and y = "[]"] buf(1) by simp_all
    have ne: "buffer r1 \<noteq> []" using buf(2) n7 by auto
    show ?thesis
    proof (cases rec)
      case R: True
      show ?thesis
      proof (cases "n < kRecyclableHeaderSize")
        case True
        then show ?thesis using ReadMore_end [OF r1(2) eof] ne buf(2) False parse(2) t(2) R
          by (subst ReadPhysicalRecord.simps) (auto simp: ended_def)
      next
        case n11: False
        then have "DecodeFixed32 (drop 7 (buffer r1)) = Some (ucast ln)"
          using physical_log_num [of n ln t p "[]"] R buf(1) by (simp add: log_sizes)
        moreover have "ucast (ucast ln :: u32) = log_number r1"
          using R log_ok_keeps [OF r1(3) assms(5)] low_log_num [of ln] by (simp add: log_ok_def)
        moreover have "take_physical kRecyclableHeaderSize r1 = Some (kBadHeader, [], Some (length (buffer r1)), r1\<lparr>buffer := []\<rparr>)"
          using take_physical_cut [of r1 kRecyclableHeaderSize] eof ne parse(1) buf(2) assms(2) R by (simp add: header_len_def)
        ultimately show ?thesis using n11 False parse(2) t(2) R buf(2)
          by (subst ReadPhysicalRecord.simps) (auto simp: ended_def)
      qed
    next
      case R: False
      have "take_physical kHeaderSize r1 = Some (kBadHeader, [], Some (length (buffer r1)), r1\<lparr>buffer := []\<rparr>)"
        using take_physical_cut [of r1 kHeaderSize] eof ne parse(1) buf(2) assms(2) R by (simp add: header_len_def)
      then show ?thesis using False parse(2) t(2) R buf(2) by (subst ReadPhysicalRecord.simps) (auto simp: ended_def)
    qed
  qed
  then show ?thesis using r1(1,3) by (auto simp: ended_def intro: keeps_trans)
qed

lemma loop_ended:
  assumes "ended r (ReadPhysicalRecord Read r)" "mode \<noteq> kAbsoluteConsistency"
  shows "\<exists>sc' r'. ReadRecord_loop Read mode fr sc pr r = Some (None, sc', r') \<and> keeps r r'"
  using assms by (subst ReadRecord_loop.simps) (auto simp: ended_def Let_def record_types special_types)

lemma loop_whole:
  "ReadPhysicalRecord Read r = Some (fragment_type rec True True, p, d, r') \<Longrightarrow>
   \<exists>x. ReadRecord_loop Read mode False sc pr r = Some (Some p, [], r'\<lparr>last_record_offset := x\<rparr>)"
  by (subst ReadRecord_loop.simps) (auto simp: Let_def fragment_type_def record_types)

lemma loop_first:
  "ReadPhysicalRecord Read r = Some (fragment_type rec True False, p, d, r') \<Longrightarrow>
   \<exists>x. ReadRecord_loop Read mode False sc pr r = ReadRecord_loop Read mode True p x r'"
  by (subst ReadRecord_loop.simps) (auto simp: Let_def fragment_type_def record_types)

lemma loop_middle:
  "ReadPhysicalRecord Read r = Some (fragment_type rec False False, p, d, r') \<Longrightarrow>
   ReadRecord_loop Read mode True sc pr r = ReadRecord_loop Read mode True (sc @ p) pr r'"
  by (subst ReadRecord_loop.simps) (auto simp: Let_def fragment_type_def record_types)

lemma loop_last:
  "ReadPhysicalRecord Read r = Some (fragment_type rec False True, p, d, r') \<Longrightarrow>
   ReadRecord_loop Read mode True sc pr r = Some (Some (sc @ p), sc @ p, r'\<lparr>last_record_offset := pr\<rparr>)"
  by (subst ReadRecord_loop.simps) (auto simp: Let_def fragment_type_def record_types)

text \<open>Reading the fragments of a record, or what is left of them.\<close>

lemma read_fragments:
  assumes "ready rest live off (take n (fst (fragments rec ln bg off x) @ nxt)) r" "off + header_len rec \<le> kBlockSize"
    "log_ok rec ln r" "mode \<noteq> kAbsoluteConsistency" "bg \<longrightarrow> sc = []"
  shows "\<exists>sc' r'. keeps r r' \<and>
    (if length (fst (fragments rec ln bg off x)) \<le> n
     then ReadRecord_loop Read mode (\<not> bg) sc pr r = Some (Some (sc @ x), sc', r') \<and>
       at_pos rest live (snd (fragments rec ln bg off x)) (take (n - length (fst (fragments rec ln bg off x))) nxt) r'
     else ReadRecord_loop Read mode (\<not> bg) sc pr r = Some (None, sc', r'))"
  using assms
proof (induction rec ln bg off x arbitrary: n r sc pr rule: fragments.induct)
  case (1 rec ln bg off x)
  let ?av = "kBlockSize - off - header_len rec" and ?hl = "header_len rec"
  show ?case
  proof (cases "length x \<le> ?av")
    case True
    let ?t = "fragment_type rec bg True"
    note F = fragments_last [OF True, of ln bg]
    have room: "off + ?hl + length x \<le> kBlockSize" using True 1(3) by linarith
    show ?thesis
    proof (cases "?hl + length x \<le> n")
      case n: True
      have "ready rest live off (physical rec ln ?t x @ take (n - (?hl + length x)) nxt) r" using 1(2) n by (simp add: F)
      then obtain r' where r': "ReadPhysicalRecord Read r = Some (?t, x, None, r')"
        "at_pos rest live (off + ?hl + length x) (take (n - (?hl + length x)) nxt) r'" "keeps r r'"
        by (rule read_complete [OF _ room refl 1(4)])
      show ?thesis
      proof (cases bg)
        case True
        with loop_whole [of r rec x None r' mode sc pr] r'(1) obtain z
          where "ReadRecord_loop Read mode False sc pr r = Some (Some x, [], r'\<lparr>last_record_offset := z\<rparr>)" by auto
        with True r'(2,3) n 1(6) show ?thesis unfolding F by (intro exI [of _ "[]"] exI [of _ "r'\<lparr>last_record_offset := z\<rparr>"]) (simp add: add.assoc)
      next
        case False
        with loop_last [of r rec x None r' mode sc pr] r'(1)
        have "ReadRecord_loop Read mode True sc pr r = Some (Some (sc @ x), sc @ x, r'\<lparr>last_record_offset := pr\<rparr>)" by simp
        with False r'(2,3) n show ?thesis unfolding F by (intro exI [of _ "sc @ x"] exI [of _ "r'\<lparr>last_record_offset := pr\<rparr>"]) (simp add: add.assoc)
      qed
    next
      case n: False
      have "ready rest live off (take n (physical rec ln ?t x)) r" using 1(2) n by (simp add: F)
      from read_cut [OF this _ room refl 1(4)] n have "ended r (ReadPhysicalRecord Read r)" by simp
      from loop_ended [OF this 1(5)] show ?thesis using n by (fastforce simp: F)
    qed
  next
    case False
    let ?t = "fragment_type rec bg False" and ?p = "take ?av x" and ?g = "fragments rec ln False 0 (drop ?av x)"
    note F = fragments_more [OF False, of ln bg]
    have lp: "length ?p = ?av" using False by simp
    have full: "off + ?hl + length ?p = kBlockSize" using lp 1(3) by linarith
    show ?thesis
    proof (cases "?hl + length ?p \<le> n")
      case n: True
      have "ready rest live off (physical rec ln ?t ?p @ take (n - (?hl + length ?p)) (fst ?g @ nxt)) r" using 1(2) n by (simp add: F)
      then obtain r' where r': "ReadPhysicalRecord Read r = Some (?t, ?p, None, r')"
        "at_pos rest live (off + ?hl + length ?p) (take (n - (?hl + length ?p)) (fst ?g @ nxt)) r'" "keeps r r'"
        by (rule read_complete [OF _ eq_refl [OF full] refl 1(4)])
      have rd: "ready rest live 0 (take (n - (?hl + length ?p)) (fst ?g @ nxt)) r'"
        by (rule ready_next_block [OF r'(2) [unfolded full]])
      have h0: "0 + ?hl \<le> kBlockSize" by (simp add: header_len_def log_sizes)
      obtain x1 where L: "ReadRecord_loop Read mode (\<not> bg) sc pr r = ReadRecord_loop Read mode True (sc @ ?p) x1 r'"
        using loop_first [of r rec ?p None r' mode sc pr] loop_middle [of r rec ?p None r' mode sc pr] r'(1) 1(6) by (cases bg) auto
      have "False \<longrightarrow> sc @ ?p = []" by simp
      from 1(1) [OF refl False rd h0 log_ok_keeps [OF r'(3) 1(4)] 1(5) this, of x1, unfolded not_False_eq_True] obtain sc' r'' where r'': "keeps r' r''"
        "if length (fst ?g) \<le> n - (?hl + length ?p)
         then ReadRecord_loop Read mode True (sc @ ?p) x1 r' = Some (Some ((sc @ ?p) @ drop ?av x), sc', r'') \<and>
           at_pos rest live (snd ?g) (take (n - (?hl + length ?p) - length (fst ?g)) nxt) r''
         else ReadRecord_loop Read mode True (sc @ ?p) x1 r' = Some (None, sc', r'')" by blast
      have "keeps r r''" by (rule keeps_trans [OF r'(3) r''(1)])
      with r''(2) n show ?thesis unfolding L F
        by (intro exI [of _ sc'] exI [of _ r'']) (auto split: if_splits)
    next
      case n: False
      have "ready rest live off (take n (physical rec ln ?t ?p)) r" using 1(2) n by (simp add: F)
      from read_cut [OF this _ _ refl 1(4)] n full have "ended r (ReadPhysicalRecord Read r)" by simp
      from loop_ended [OF this 1(5)] show ?thesis using n by (fastforce simp: F)
    qed
  qed
qed

text \<open>The trailer of a block. When it has room for a small header, its zeros read as a bad record.\<close>

lemma read_zeros:
  assumes "buffer r = replicate g 0" "7 \<le> g"
  shows "ReadPhysicalRecord Read r = Some (kBadRecord, [], None, r\<lparr>buffer := []\<rparr>)"
proof -
  have "header_type (buffer r) = 0" "header_length (buffer r) = 0" using assms by (simp_all add: header_type_def header_length_def)
  then show ?thesis using assms by (subst ReadPhysicalRecord.simps) (simp add: take_physical_def record_types kHeaderSize_def)
qed

lemma loop_bad_record:
  "ReadPhysicalRecord Read r = Some (kBadRecord, p, d, r') \<Longrightarrow> ReadRecord_loop Read mode False sc pr r = ReadRecord_loop Read mode False sc pr r'"
  by (subst ReadRecord_loop.simps) (simp add: Let_def record_types special_types)

lemma loop_padding:
  assumes "at_pos rest live off (replicate (kBlockSize - off) 0 @ y) r"
  shows "\<exists>r'. ReadRecord_loop Read mode False sc pr r = ReadRecord_loop Read mode False sc pr r' \<and> ready rest live 0 y r' \<and> keeps r r'"
proof (cases "kBlockSize - off < kHeaderSize")
  case True
  have "\<not> eof r" using assms by (simp add: at_pos_def)
  with True assms have "ready rest live 0 y r" unfolding ready_def by (intro disjI2 conjI exI [of _ off] exI [of _ "replicate (kBlockSize - off) 0 @ y"]) simp_all
  then show ?thesis using keeps_refl by blast
next
  case False
  then have "ReadPhysicalRecord Read r = Some (kBadRecord, [], None, r\<lparr>buffer := []\<rparr>)"
    using assms by (intro read_zeros) (simp_all add: at_pos_def kHeaderSize_def not_less)
  moreover have "at_pos rest live kBlockSize y (r\<lparr>buffer := []\<rparr>)" using assms by (simp add: at_pos_def)
  ultimately show ?thesis using loop_bad_record ready_next_block keeps_upd(2) keeps_refl by blast
qed

lemma loop_padding_cut:
  assumes "at_pos rest live off (replicate n 0) r" "n < kBlockSize - off" "mode \<noteq> kAbsoluteConsistency"
  shows "\<exists>sc' r'. ReadRecord_loop Read mode False sc pr r = Some (None, sc', r') \<and> keeps r r'"
proof -
  have eof: "eof r" and buf: "buffer r = replicate n 0" using assms(1,2) by (auto simp: at_pos_def)
  show ?thesis
  proof (cases "n < kHeaderSize")
    case True
    then show ?thesis using loop_ended [OF short_buffer_ended [OF assms(1) eof] assms(3)] buf by simp
  next
    case False
    let ?r = "r\<lparr>buffer := []\<rparr>"
    have "at_pos rest live (off + n) [] ?r" using assms(1,2) by (simp add: at_pos_def)
    then have "ended ?r (ReadPhysicalRecord Read ?r)" by (rule short_buffer_ended) (simp_all add: eof kHeaderSize_def)
    from loop_ended [OF this assms(3), of False sc pr] obtain sc' r' where
      "ReadRecord_loop Read mode False sc pr ?r = Some (None, sc', r')" "keeps ?r r'" by blast
    moreover have "ReadPhysicalRecord Read r = Some (kBadRecord, [], None, ?r)" using False buf by (intro read_zeros) (simp_all add: kHeaderSize_def not_less)
    ultimately show ?thesis using loop_bad_record [of r "[]" None ?r] by (auto simp: keeps_def)
  qed
qed

lemma ReadRecord_loop_ok:
  assumes "at_pos rest live off (take n (fst (record_bytes rec ln off x) @ nxt)) r" "log_ok rec ln r" "mode \<noteq> kAbsoluteConsistency"
  shows "\<exists>sc' r'. keeps r r' \<and>
    (if length (fst (record_bytes rec ln off x)) \<le> n
     then ReadRecord_loop Read mode False [] pr r = Some (Some x, sc', r') \<and>
       at_pos rest live (snd (record_bytes rec ln off x)) (take (n - length (fst (record_bytes rec ln off x))) nxt) r'
     else ReadRecord_loop Read mode False [] pr r = Some (None, sc', r'))"
proof -
  let ?s = "start_off rec off" and ?g = "length (padding rec off)"
  let ?f = "fragments rec ln True ?s x"
  have rb: "record_bytes rec ln off x = (padding rec off @ fst ?f, snd ?f)" by (simp add: record_bytes_def split_beta)
  show ?thesis
  proof (cases "?g \<le> n")
    case n: True
    have pos: "at_pos rest live off (padding rec off @ take (n - ?g) (fst ?f @ nxt)) r" using assms(1) n by (simp add: rb)
    obtain r1 where r1: "ReadRecord_loop Read mode False [] pr r = ReadRecord_loop Read mode False [] pr r1"
      "ready rest live ?s (take (n - ?g) (fst ?f @ nxt)) r1" "keeps r r1"
    proof (cases "kBlockSize - off < header_len rec")
      case True
      then show ?thesis using that loop_padding [of off _ r mode "[]" pr] pos by (fastforce simp: padding_def start_off_def)
    next
      case False
      then show ?thesis using that [of r] pos by (simp add: padding_def start_off_def ready_def)
    qed
    have "?s + header_len rec \<le> kBlockSize" by (auto simp: start_off_def header_len_def log_sizes)
    from read_fragments [OF r1(2) this log_ok_keeps [OF r1(3) assms(2)] assms(3), of "[]" pr, unfolded not_True_eq_False append_Nil] obtain sc' r' where r': "keeps r1 r'"
      "if length (fst ?f) \<le> n - ?g
       then ReadRecord_loop Read mode False [] pr r1 = Some (Some x, sc', r') \<and> at_pos rest live (snd ?f) (take (n - ?g - length (fst ?f)) nxt) r'
       else ReadRecord_loop Read mode False [] pr r1 = Some (None, sc', r')" by blast
    have "keeps r r'" by (rule keeps_trans [OF r1(3) r'(1)])
    with r'(2) n show ?thesis unfolding r1(1) rb by (intro exI [of _ sc'] exI [of _ r']) (auto split: if_splits)
  next
    case n: False
    then have g: "?g = kBlockSize - off" "padding rec off = replicate (kBlockSize - off) 0" by (auto simp: padding_def split: if_splits)
    with n assms(1) have "at_pos rest live off (replicate n 0) r" by (simp add: rb)
    from loop_padding_cut [OF this _ assms(3), of "[]" pr] g n obtain sc' r' where
      "ReadRecord_loop Read mode False [] pr r = Some (None, sc', r')" "keeps r r'" by auto
    moreover have "\<not> length (fst (record_bytes rec ln off x)) \<le> n" using n by (simp add: rb)
    ultimately show ?thesis by auto
  qed
qed

lemma ReadRecord_start: "at_pos rest live off data r \<Longrightarrow> ReadRecord Read Skip mode r = ReadRecord_loop Read mode False [] 0 r"
  by (simp add: ReadRecord_def at_pos_def)

lemma ReadRecord_end:
  assumes "at_pos rest live off [] r" "mode \<noteq> kAbsoluteConsistency"
  shows "\<exists>sc' r'. ReadRecord Read Skip mode r = Some (None, sc', r') \<and> keeps r r'"
proof -
  have "ready rest live off [] r \<or> off = kBlockSize \<and> ready rest live 0 [] r" using assms(1) ready_next_block by (auto simp: ready_def)
  then obtain o' where o': "ready rest live o' [] r" "o' < kBlockSize"
    using assms(1) ready_next_block [of rest live "[]" r] by (cases "off = kBlockSize") (auto simp: ready_def at_pos_def kBlockSize_def)
  obtain r1 where r1: "ReadPhysicalRecord Read r = ReadPhysicalRecord Read r1" "at_pos rest live o' [] r1" "keeps r r1"
    by (rule ReadPhysicalRecord_ready [OF o'(1)])
  have "ended r1 (ReadPhysicalRecord Read r1)"
    using r1(2) o'(2) by (intro short_buffer_ended [OF r1(2)]) (auto simp: at_pos_def kHeaderSize_def)
  then have "ended r (ReadPhysicalRecord Read r)" using r1(1,3) by (auto simp: ended_def intro: keeps_trans)
  from loop_ended [OF this assms(2)] show ?thesis by (simp add: ReadRecord_start [OF assms(1)])
qed

lemma ReadRecords_ok:
  assumes "at_pos rest live off (take n (log_bytes rec ln off rs)) r" "log_ok rec ln r" "mode \<noteq> kAbsoluteConsistency"
  shows "\<exists>k r'. ReadRecords Read Skip mode r = Some (take k rs, r') \<and> k \<le> length rs \<and> drops r' = drops r \<and>
    length (log_bytes rec ln off (take k rs)) \<le> n \<and> (k < length rs \<longrightarrow> n < length (log_bytes rec ln off (take (Suc k) rs)))"
  using assms
proof (induction rs arbitrary: off n r)
  case Nil
  then have "at_pos rest live off [] r" by simp
  from ReadRecord_end [OF this assms(3), of Skip] show ?case by (subst ReadRecords.simps) (auto simp: keeps_def)
next
  case (Cons x rs)
  let ?b = "record_bytes rec ln off x"
  from Cons.prems(1) have "at_pos rest live off (take n (fst ?b @ log_bytes rec ln (snd ?b) rs)) r" by simp
  from ReadRecord_loop_ok [OF this Cons.prems(2) assms(3), of 0] obtain sc' r' where r': "keeps r r'"
    "if length (fst ?b) \<le> n
     then ReadRecord Read Skip mode r = Some (Some x, sc', r') \<and> at_pos rest live (snd ?b) (take (n - length (fst ?b)) (log_bytes rec ln (snd ?b) rs)) r'
     else ReadRecord Read Skip mode r = Some (None, sc', r')" unfolding ReadRecord_start [OF Cons.prems(1), of Skip mode] by blast
  show ?case
  proof (cases "length (fst ?b) \<le> n")
    case True
    with r' have R: "ReadRecord Read Skip mode r = Some (Some x, sc', r')"
      and p: "at_pos rest live (snd ?b) (take (n - length (fst ?b)) (log_bytes rec ln (snd ?b) rs)) r'" by auto
    from Cons.IH [OF p log_ok_keeps [OF r'(1) Cons.prems(2)] assms(3)] obtain k r'' where k: "ReadRecords Read Skip mode r' = Some (take k rs, r'')"
      "k \<le> length rs" "drops r'' = drops r'" "length (log_bytes rec ln (snd ?b) (take k rs)) \<le> n - length (fst ?b)"
      "k < length rs \<longrightarrow> n - length (fst ?b) < length (log_bytes rec ln (snd ?b) (take (Suc k) rs))" by blast
    show ?thesis using k True R r'(1) by (intro exI [of _ "Suc k"] exI [of _ r'']) (subst ReadRecords.simps, auto simp: keeps_def)
  next
    case False
    then show ?thesis using r' by (intro exI [of _ 0] exI [of _ r']) (subst ReadRecords.simps, auto simp: keeps_def)
  qed
qed

end

section \<open>Corruption\<close>

text \<open>
  C35. With checksums on, a record is only returned if the checksum in its header is that of its type,
  log number and payload as they stand in the buffer: in every other case the result is one of the values
  beyond the record types.
\<close>

theorem returned_record_has_checksum:
  assumes "take_physical hs r = Some (t, p, d, r')" "checksum r" "t \<le> kMaxRecordType"
  shows "\<exists>crc. DecodeFixed32 (buffer r) = Some crc \<and> hs + header_length (buffer r) \<le> length (buffer r) \<and>
    Unmask crc = crc_ref 0 (take (header_length (buffer r) + hs - 6) (drop 6 (buffer r))) \<and>
    t = header_type (buffer r) \<and> p = take (header_length (buffer r)) (drop hs (buffer r)) \<and> buffer r' = drop (hs + header_length (buffer r)) (buffer r)"
  using assms by (auto simp: take_physical_def Let_def special_types record_types split: bind_splits if_splits)

definition one_record :: "unit Reader" where
  "one_record = (Reader_new () True True 0 0)\<lparr>buffer := physical False 0 kFullType [7]\<rparr>"

theorem returned_record_has_checksum_witness:
  "\<exists>crc. DecodeFixed32 (buffer one_record) = Some crc \<and> kHeaderSize + header_length (buffer one_record) \<le> length (buffer one_record) \<and>
     Unmask crc = crc_ref 0 (take (header_length (buffer one_record) + kHeaderSize - 6) (drop 6 (buffer one_record))) \<and>
     kFullType = header_type (buffer one_record) \<and> [7] = take (header_length (buffer one_record)) (drop kHeaderSize (buffer one_record)) \<and>
     buffer (one_record\<lparr>buffer := []\<rparr>) = drop (kHeaderSize + header_length (buffer one_record)) (buffer one_record)"
proof -
  have "take_physical kHeaderSize one_record = Some (kFullType, [7], None, one_record\<lparr>buffer := []\<rparr>)"
    using take_physical_physical(3) [of one_record False 0 kFullType "[7]" "[]"] by (simp add: one_record_def record_types header_len_def Reader_new_def)
  then show ?thesis by (rule returned_record_has_checksum) (simp_all add: one_record_def Reader_new_def record_types)
qed

text \<open>A record of another log is not consumed.\<close>

lemma read_old_record:
  assumes "buffer r = physical True ln (fragment_type True b e) p @ y" "length p < 65536" "ucast (ucast ln :: u32) \<noteq> log_number r"
  shows "ReadPhysicalRecord Read r = Some (kOldRecord, [], None, r)"
proof -
  let ?t = "fragment_type True b e"
  have t: "?t \<le> kMaxRecordType" "kRecyclableFullType \<le> ?t" "?t \<le> kRecyclableLastType" by (auto simp: fragment_type_def record_types)
  have len: "11 \<le> length (physical True ln ?t p)" by (simp add: length_physical header_len_def log_sizes)
  then have "header_type (buffer r) = ?t" "DecodeFixed32 (drop 7 (buffer r)) = Some (ucast ln)"
    using physical_parse(2) [OF assms(2) t(1), of "length (physical True ln ?t p)" True ln y]
      physical_log_num [of "length (physical True ln ?t p)" ln ?t p y] assms(1) by simp_all
  moreover have "kRecyclableHeaderSize \<le> length (buffer r)" using len assms(1) by (simp add: log_sizes)
  ultimately show ?thesis using t assms(3) by (subst ReadPhysicalRecord.simps) (simp add: log_sizes)
qed

lemma old_record_loop:
  assumes "ReadRecord_loop Read mode fr sc pr r = Some res"
  shows "\<not> (mode = kSkipAnyCorruptedRecords \<and> \<not> fr \<and> ReadPhysicalRecord Read r = Some (kOldRecord, [], None, r))"
proof (rule ReadRecord_loop.raw_induct [OF _ assms], goal_cases)
  case (1 f Read mode fr sc pr r res)
  show ?case
  proof
    assume *: "mode = kSkipAnyCorruptedRecords \<and> \<not> fr \<and> ReadPhysicalRecord Read r = Some (kOldRecord, [], None, r)"
    with 1(2) have "f Read mode fr sc pr r = Some res" by (simp add: Let_def special_types record_types)
    from 1(1) [OF this] * show False by blast
  qed
qed

text \<open>
  C36. A reader that meets a record of the log file's earlier life, with another log number: every
  recovery mode ends the log there and keeps the record in the buffer, but in the mode that skips
  corrupted records, which goes on with the same record, \<open>ReadRecord\<close> never returns.
\<close>

theorem old_record_diverges:
  assumes "buffer r = physical True ln (fragment_type True b e) p @ y" "length p < 65536" "ucast (ucast ln :: u32) \<noteq> log_number r"
    "initial_offset r \<le> last_record_offset r"
  shows "ReadRecord Read Skip mode r = (if mode = kSkipAnyCorruptedRecords then None else Some (None, [], r))"
proof -
  note old = read_old_record [OF assms(1-3), of Read]
  have start: "ReadRecord Read Skip mode r = ReadRecord_loop Read mode False [] 0 r" using assms(4) by (simp add: ReadRecord_def leD)
  show ?thesis
  proof (cases "mode = kSkipAnyCorruptedRecords")
    case True
    then show ?thesis using old_record_loop [of Read mode False "[]" 0 r] old start by (cases "ReadRecord_loop Read mode False [] 0 r") auto
  next
    case False
    then show ?thesis unfolding start using old by (subst ReadRecord_loop.simps) (simp add: Let_def special_types record_types)
  qed
qed

theorem old_record_diverges_witness:
  "\<forall>mode. ReadRecord (\<lambda>n f. None) (\<lambda>n f. None) mode ((Reader_new () True True 0 2)\<lparr>buffer := physical True 1 kRecyclableFullType []\<rparr>) =
     (if mode = kSkipAnyCorruptedRecords then None else Some (None, [], (Reader_new () True True 0 2)\<lparr>buffer := physical True 1 kRecyclableFullType []\<rparr>))"
  by (rule allI, rule old_record_diverges [where ln = 1 and b = True and e = True and p = "[]" and y = "[]"]) (simp_all add: fragment_type_def Reader_new_def)

end
