(* ===== verification/File_Writer.thy ===== *)
theory File_Writer
  imports Slices Statuses
begin

text \<open>
  Buffered access to files: \<open>AlignedBuffer\<close> (util/aligned_buffer.h), \<open>WritableFileWriter\<close> and
  \<open>SequentialFileReader\<close> (util/file_reader_writer.h and file_reader_writer.cc), and the base class
  \<open>WritableFile\<close> (include/rocksdb/env.h).

  The virtual functions of the file are a record of operations on the state of the file object, so that
  every subclass is a value of this type. A result is \<open>None\<close> when an assertion fails, when a null file
  is used, or when the code does not return. The locale \<open>written_file\<close> is what the writer relies on
  when the operating system buffers; the lemmas in it show that nothing is lost, duplicated or reordered
  between the buffer and the file. The last section is about unbuffered files, written by whole pages.
\<close>

section \<open>The aligned buffer\<close>

definition TruncateToPageBoundary :: "nat \<Rightarrow> nat \<Rightarrow> nat option" where
  "TruncateToPageBoundary page_size s = (let s = s - (s AND (page_size - 1)) in if s mod page_size = 0 then Some s else None)"

definition Roundup :: "nat \<Rightarrow> nat \<Rightarrow> nat" where
  "Roundup x y = (x + y - 1) div y * y"

text \<open>The bytes up to \<open>cursize_\<close>; what lies beyond is never read.\<close>

record AlignedBuffer =
  ab_alignment :: nat
  ab_capacity :: nat
  ab_bytes :: bytes

definition AlignedBuffer_new :: AlignedBuffer where
  "AlignedBuffer_new = \<lparr>ab_alignment = 0, ab_capacity = 0, ab_bytes = []\<rparr>"

definition CurrentSize :: "AlignedBuffer \<Rightarrow> nat" where
  "CurrentSize b = length (ab_bytes b)"

definition AlignedBuffer_Clear :: "AlignedBuffer \<Rightarrow> AlignedBuffer" where
  "AlignedBuffer_Clear b = b\<lparr>ab_bytes := []\<rparr>"

definition set_Alignment :: "nat \<Rightarrow> AlignedBuffer \<Rightarrow> AlignedBuffer option" where
  "set_Alignment a b = (if a > 0 \<and> a AND (a - 1) = 0 then Some (b\<lparr>ab_alignment := a\<rparr>) else None)"

definition AllocateNewBuffer :: "nat \<Rightarrow> AlignedBuffer \<Rightarrow> AlignedBuffer option" where
  "AllocateNewBuffer requestedCapacity b =
     (if ab_alignment b > 0 \<and> ab_alignment b AND (ab_alignment b - 1) = 0
      then Some (b\<lparr>ab_capacity := Roundup requestedCapacity (ab_alignment b), ab_bytes := []\<rparr>) else None)"

definition AlignedBuffer_Append :: "bytes \<Rightarrow> AlignedBuffer \<Rightarrow> nat \<times> AlignedBuffer" where
  "AlignedBuffer_Append src b =
     (let to_copy = min (length src) (ab_capacity b - CurrentSize b) in (to_copy, b\<lparr>ab_bytes := ab_bytes b @ take to_copy src\<rparr>))"

definition AlignedBuffer_Read :: "nat \<Rightarrow> nat \<Rightarrow> AlignedBuffer \<Rightarrow> bytes option" where
  "AlignedBuffer_Read offset read_size b =
     (if offset < CurrentSize b then Some (take (min (CurrentSize b - offset) read_size) (drop offset (ab_bytes b))) else None)"

definition PadToAlignmentWith :: "byte \<Rightarrow> AlignedBuffer \<Rightarrow> AlignedBuffer option" where
  "PadToAlignmentWith padding b =
     (let pad_size = Roundup (CurrentSize b) (ab_alignment b) - CurrentSize b in
      if pad_size > 0 then
        (if pad_size + CurrentSize b \<le> ab_capacity b then Some (b\<lparr>ab_bytes := ab_bytes b @ replicate pad_size padding\<rparr>) else None)
      else Some b)"

text \<open>The tail lies among the bytes in use.\<close>

definition RefitTail :: "nat \<Rightarrow> nat \<Rightarrow> AlignedBuffer \<Rightarrow> AlignedBuffer option" where
  "RefitTail tail_offset tail_size b =
     (if tail_size = 0 then Some (b\<lparr>ab_bytes := []\<rparr>)
      else if tail_offset + tail_size \<le> CurrentSize b then Some (b\<lparr>ab_bytes := take tail_size (drop tail_offset (ab_bytes b))\<rparr>)
      else None)"

definition AlignedBuffer_Size :: "nat \<Rightarrow> AlignedBuffer \<Rightarrow> AlignedBuffer option" where
  "AlignedBuffer_Size n b = (if n \<le> CurrentSize b then Some (b\<lparr>ab_bytes := take n (ab_bytes b)\<rparr>) else None)"

section \<open>Files\<close>

text \<open>The virtual functions, on the state of the subclass.\<close>

record 'd WritableFile_ops =
  op_Append :: "bytes \<Rightarrow> 'd \<Rightarrow> (Status \<times> 'd) option"
  op_PositionedAppend :: "bytes \<Rightarrow> nat \<Rightarrow> 'd \<Rightarrow> (Status \<times> 'd) option"
  op_Truncate :: "nat \<Rightarrow> 'd \<Rightarrow> (Status \<times> 'd) option"
  op_Close :: "'d \<Rightarrow> (Status \<times> 'd) option"
  op_Flush :: "'d \<Rightarrow> (Status \<times> 'd) option"
  op_Sync :: "'d \<Rightarrow> (Status \<times> 'd) option"
  op_Fsync :: "'d \<Rightarrow> (Status \<times> 'd) option"
  op_RangeSync :: "nat \<Rightarrow> nat \<Rightarrow> 'd \<Rightarrow> (Status \<times> 'd) option"
  op_Allocate :: "nat \<Rightarrow> nat \<Rightarrow> 'd \<Rightarrow> (Status \<times> 'd) option"
  op_InvalidateCache :: "nat \<Rightarrow> nat \<Rightarrow> 'd \<Rightarrow> (Status \<times> 'd) option"
  op_UseOSBuffer :: bool
  op_UseDirectIO :: bool
  op_GetRequiredBufferAlignment :: nat
  op_IsSyncThreadSafe :: bool

text \<open>A subclass that overrides only the pure virtual functions.\<close>

definition WritableFile_defaults ::
    "(bytes \<Rightarrow> 'd \<Rightarrow> (Status \<times> 'd) option) \<Rightarrow> ('d \<Rightarrow> (Status \<times> 'd) option) \<Rightarrow> ('d \<Rightarrow> (Status \<times> 'd) option) \<Rightarrow>
     ('d \<Rightarrow> (Status \<times> 'd) option) \<Rightarrow> 'd WritableFile_ops" where
  "WritableFile_defaults Append Close Flush Sync =
     \<lparr>op_Append = Append,
      op_PositionedAppend = (\<lambda>x off d. Some (NotSupported, d)),
      op_Truncate = (\<lambda>n d. Some (Status_OK, d)),
      op_Close = Close, op_Flush = Flush, op_Sync = Sync, op_Fsync = Sync,
      op_RangeSync = (\<lambda>off n d. Some (Status_OK, d)),
      op_Allocate = (\<lambda>off n d. Some (Status_OK, d)),
      op_InvalidateCache = (\<lambda>off n d. do { s \<leftarrow> NotSupported_msg (lit ''InvalidateCache not supported.'') []; Some (s, d) }),
      op_UseOSBuffer = True, op_UseDirectIO = False, op_GetRequiredBufferAlignment = 4 * 1024, op_IsSyncThreadSafe = False\<rparr>"

text \<open>The fields of the base class and the state of the subclass; the priority is known by whether it is below \<open>IO_TOTAL\<close>.\<close>

record 'd WritableFile =
  wf_state :: 'd
  last_preallocated_block :: nat
  preallocation_block_size :: nat
  low_priority :: bool

definition WritableFile_new :: "'d \<Rightarrow> 'd WritableFile" where
  "WritableFile_new d = \<lparr>wf_state = d, last_preallocated_block = 0, preallocation_block_size = 0, low_priority = False\<rparr>"

definition SetIOPriority :: "bool \<Rightarrow> 'd WritableFile \<Rightarrow> 'd WritableFile" where
  "SetIOPriority low f = f\<lparr>low_priority := low\<rparr>"

definition SetPreallocationBlockSize :: "nat \<Rightarrow> 'd WritableFile \<Rightarrow> 'd WritableFile" where
  "SetPreallocationBlockSize n f = f\<lparr>preallocation_block_size := n\<rparr>"

definition PrepareWrite :: "'d WritableFile_ops \<Rightarrow> nat \<Rightarrow> nat \<Rightarrow> 'd WritableFile \<Rightarrow> 'd WritableFile option" where
  "PrepareWrite V offset len f =
     (if preallocation_block_size f = 0 then Some f
      else
        (let block_size = preallocation_block_size f;
             new_last_preallocated_block = (offset + len + block_size - 1) div block_size in
         if new_last_preallocated_block > last_preallocated_block f then do {
           let num_spanned_blocks = new_last_preallocated_block - last_preallocated_block f;
           (s, d) \<leftarrow> op_Allocate V (block_size * last_preallocated_block f) (block_size * num_spanned_blocks) (wf_state f);
           Some (f\<lparr>wf_state := d, last_preallocated_block := new_last_preallocated_block\<rparr>) }
         else Some f))"

section \<open>The writer\<close>

text \<open>\<open>burst\<close>: what \<open>GetSingleBurstBytes\<close> of the rate limiter returns, if there is one.\<close>

record 'd WritableFileWriter =
  writable_file :: "'d WritableFile option"
  fw_buf :: AlignedBuffer
  max_buffer_size :: nat
  filesize :: nat
  next_write_offset :: nat
  pending_sync :: bool
  pending_fsync :: bool
  direct_io :: bool
  use_os_buffer :: bool
  last_sync_size :: nat
  bytes_per_sync :: nat
  burst :: "nat option"

definition WritableFileWriter_new ::
    "'d WritableFile_ops \<Rightarrow> 'd WritableFile \<Rightarrow> nat \<Rightarrow> nat \<Rightarrow> nat option \<Rightarrow> 'd WritableFileWriter option" where
  "WritableFileWriter_new V f writable_file_max_buffer_size sync_bytes limiter = do {
     b \<leftarrow> set_Alignment (op_GetRequiredBufferAlignment V) AlignedBuffer_new;
     b \<leftarrow> AllocateNewBuffer 65536 b;
     Some \<lparr>writable_file = Some f, fw_buf = b, max_buffer_size = writable_file_max_buffer_size, filesize = 0, next_write_offset = 0,
       pending_sync = False, pending_fsync = False, direct_io = op_UseDirectIO V, use_os_buffer = op_UseOSBuffer V,
       last_sync_size = 0, bytes_per_sync = sync_bytes, burst = limiter\<rparr> }"

text \<open>A call of a virtual function through \<open>writable_file_\<close>.\<close>

definition on_file :: "('d \<Rightarrow> (Status \<times> 'd) option) \<Rightarrow> 'd WritableFileWriter \<Rightarrow> (Status \<times> 'd WritableFileWriter) option" where
  "on_file g w = do {
     f \<leftarrow> writable_file w;
     (s, d) \<leftarrow> g (wf_state f);
     Some (s, w\<lparr>writable_file := Some (f\<lparr>wf_state := d\<rparr>)\<rparr>) }"

definition RequestToken :: "nat \<Rightarrow> bool \<Rightarrow> 'd WritableFileWriter \<Rightarrow> nat option" where
  "RequestToken n align w =
     (case burst w of None \<Rightarrow> Some n
      | Some b \<Rightarrow> do {
          f \<leftarrow> writable_file w;
          if low_priority f then
            (let n = min n b in
             if align then do { t \<leftarrow> TruncateToPageBoundary (ab_alignment (fw_buf w)) n; Some (max (ab_alignment (fw_buf w)) t) }
             else Some n)
          else Some n })"

partial_function (option) WriteBuffered_loop ::
    "'d WritableFile_ops \<Rightarrow> bytes \<Rightarrow> 'd WritableFileWriter \<Rightarrow> (Status \<times> 'd WritableFileWriter) option" where
  "WriteBuffered_loop V src w =
     (if src = [] then Some (Status_OK, w)
      else do {
        allowed \<leftarrow> RequestToken (length src) False w;
        (s, w) \<leftarrow> on_file (op_Append V (take allowed src)) w;
        if \<not> ok s then Some (s, w) else WriteBuffered_loop V (drop allowed src) w })"

definition WriteBuffered :: "'d WritableFile_ops \<Rightarrow> bytes \<Rightarrow> 'd WritableFileWriter \<Rightarrow> (Status \<times> 'd WritableFileWriter) option" where
  "WriteBuffered V x w =
     (if use_os_buffer w then do {
        (s, w) \<leftarrow> WriteBuffered_loop V x w;
        if ok s then do { b \<leftarrow> AlignedBuffer_Size 0 (fw_buf w); Some (s, w\<lparr>fw_buf := b\<rparr>) } else Some (s, w) }
      else None)"

text \<open>The requests never ask for more than what is left.\<close>

partial_function (option) WriteUnbuffered_loop ::
    "'d WritableFile_ops \<Rightarrow> bytes \<Rightarrow> nat \<Rightarrow> 'd WritableFileWriter \<Rightarrow> (Status \<times> 'd WritableFileWriter) option" where
  "WriteUnbuffered_loop V src write_offset w =
     (if src = [] then Some (Status_OK, w)
      else do {
        n \<leftarrow> RequestToken (length src) True w;
        if n > length src then None
        else do {
          (s, w) \<leftarrow> on_file (op_PositionedAppend V (take n src) write_offset) w;
          if \<not> ok s then Some (s, w)
          else if next_write_offset w mod ab_alignment (fw_buf w) = 0 then WriteUnbuffered_loop V (drop n src) (write_offset + n) w
          else None } })"

definition WriteUnbuffered :: "'d WritableFile_ops \<Rightarrow> 'd WritableFileWriter \<Rightarrow> (Status \<times> 'd WritableFileWriter) option" where
  "WriteUnbuffered V w =
     (if \<not> use_os_buffer w \<and> next_write_offset w mod ab_alignment (fw_buf w) = 0 then do {
        let cur = CurrentSize (fw_buf w);
        file_advance \<leftarrow> TruncateToPageBoundary (ab_alignment (fw_buf w)) cur;
        let leftover_tail = cur - file_advance;
        b \<leftarrow> PadToAlignmentWith 0 (fw_buf w);
        (s, w) \<leftarrow> WriteUnbuffered_loop V (ab_bytes b) (next_write_offset w) (w\<lparr>fw_buf := b\<rparr>);
        if \<not> ok s then do { b \<leftarrow> AlignedBuffer_Size (file_advance + leftover_tail) (fw_buf w); Some (s, w\<lparr>fw_buf := b\<rparr>) }
        else do {
          b \<leftarrow> RefitTail file_advance leftover_tail (fw_buf w);
          Some (s, w\<lparr>fw_buf := b, next_write_offset := next_write_offset w + file_advance\<rparr>) } }
      else None)"

definition FileWriter_RangeSync :: "'d WritableFile_ops \<Rightarrow> nat \<Rightarrow> nat \<Rightarrow> 'd WritableFileWriter \<Rightarrow> (Status \<times> 'd WritableFileWriter) option" where
  "FileWriter_RangeSync V offset nbytes w = on_file (op_RangeSync V offset nbytes) w"

text \<open>The last megabyte is not synced, and ranges end at multiples of four kilobytes.\<close>

definition sync_to :: "nat \<Rightarrow> nat" where
  "sync_to n = (let offset_sync_to = n - 1024 * 1024 in offset_sync_to - offset_sync_to mod (4 * 1024))"

definition periodic_sync :: "'d WritableFile_ops \<Rightarrow> Status \<Rightarrow> 'd WritableFileWriter \<Rightarrow> (Status \<times> 'd WritableFileWriter) option" where
  "periodic_sync V s w =
     (if \<not> direct_io w \<and> bytes_per_sync w \<noteq> 0 \<and> filesize w > 1024 * 1024 then
        (let offset_sync_to = sync_to (filesize w) in
         if offset_sync_to < last_sync_size w then None
         else if offset_sync_to > 0 \<and> offset_sync_to - last_sync_size w \<ge> bytes_per_sync w then do {
           (s, w) \<leftarrow> FileWriter_RangeSync V (last_sync_size w) (offset_sync_to - last_sync_size w) w;
           Some (s, w\<lparr>last_sync_size := offset_sync_to\<rparr>) }
         else Some (s, w))
      else Some (s, w))"

definition FileWriter_Flush :: "'d WritableFile_ops \<Rightarrow> 'd WritableFileWriter \<Rightarrow> (Status \<times> 'd WritableFileWriter) option" where
  "FileWriter_Flush V w = do {
     (s, w) \<leftarrow> (if CurrentSize (fw_buf w) > 0 then (if use_os_buffer w then WriteBuffered V (ab_bytes (fw_buf w)) w else WriteUnbuffered V w)
                 else Some (Status_OK, w));
     if \<not> ok s then Some (s, w)
     else do {
       (s, w) \<leftarrow> on_file (op_Flush V) w;
       if \<not> ok s then Some (s, w) else periodic_sync V s w } }"

text \<open>The buffer is doubled, up to the limit.\<close>

definition grow_buffer :: "'d WritableFileWriter \<Rightarrow> 'd WritableFileWriter option" where
  "grow_buffer w =
     (if ab_capacity (fw_buf w) < max_buffer_size w
      then do { b \<leftarrow> AllocateNewBuffer (min (ab_capacity (fw_buf w) * 2) (max_buffer_size w)) (fw_buf w); Some (w\<lparr>fw_buf := b\<rparr>) }
      else Some w)"

partial_function (option) FileWriter_Append_loop ::
    "'d WritableFile_ops \<Rightarrow> bytes \<Rightarrow> 'd WritableFileWriter \<Rightarrow> (Status \<times> 'd WritableFileWriter) option" where
  "FileWriter_Append_loop V src w =
     (if src = [] then Some (Status_OK, w)
      else do {
        let (appended, b) = AlignedBuffer_Append src (fw_buf w);
        let src = drop appended src;
        let w = w\<lparr>fw_buf := b\<rparr>;
        if src \<noteq> [] then do {
          (s, w) \<leftarrow> FileWriter_Flush V w;
          if \<not> ok s then Some (s, w) else do { w \<leftarrow> grow_buffer w; FileWriter_Append_loop V src w } }
        else Some (Status_OK, w) })"

text \<open>The buffer is emptied first if the data does not fit and the operating system buffers.\<close>

definition make_room :: "'d WritableFile_ops \<Rightarrow> nat \<Rightarrow> 'd WritableFileWriter \<Rightarrow> (Status \<times> 'd WritableFileWriter) option" where
  "make_room V left w =
     (if use_os_buffer w \<and> ab_capacity (fw_buf w) - CurrentSize (fw_buf w) < left then do {
        (s, w) \<leftarrow> (if CurrentSize (fw_buf w) > 0 then FileWriter_Flush V w else Some (Status_OK, w));
        if \<not> ok s then Some (s, w)
        else do { w \<leftarrow> grow_buffer w; if CurrentSize (fw_buf w) = 0 then Some (s, w) else None } }
      else Some (Status_OK, w))"

definition FileWriter_Append :: "'d WritableFile_ops \<Rightarrow> bytes \<Rightarrow> 'd WritableFileWriter \<Rightarrow> (Status \<times> 'd WritableFileWriter) option" where
  "FileWriter_Append V x w = do {
     f \<leftarrow> writable_file w;
     f \<leftarrow> PrepareWrite V (filesize w) (length x) f;
     let w = w\<lparr>writable_file := Some f, pending_sync := True, pending_fsync := True\<rparr>;
     (s, w) \<leftarrow> make_room V (length x) w;
     if \<not> ok s then Some (s, w)
     else do {
       (s, w) \<leftarrow> (if \<not> use_os_buffer w \<or> ab_capacity (fw_buf w) \<ge> length x then FileWriter_Append_loop V x w
                   else if CurrentSize (fw_buf w) = 0 then WriteBuffered V x w else None);
       Some (s, if ok s then w\<lparr>filesize := filesize w + length x\<rparr> else w) } }"

text \<open>The first error is the result.\<close>

definition first_error :: "Status \<Rightarrow> Status \<Rightarrow> Status" where
  "first_error s interim = (if \<not> ok interim \<and> ok s then interim else s)"

text \<open>The state of the file that \<open>reset\<close> deletes is returned, for the destructor of the subclass.\<close>

definition FileWriter_Close :: "'d WritableFile_ops \<Rightarrow> 'd WritableFileWriter \<Rightarrow> (Status \<times> 'd option \<times> 'd WritableFileWriter) option" where
  "FileWriter_Close V w =
     (if writable_file w = None then Some (Status_OK, None, w)
      else do {
        (s, w) \<leftarrow> FileWriter_Flush V w;
        (interim, w) \<leftarrow> on_file (op_Truncate V (filesize w)) w;
        let s = first_error s interim;
        (interim, w) \<leftarrow> on_file (op_Close V) w;
        let s = first_error s interim;
        Some (s, map_option wf_state (writable_file w), w\<lparr>writable_file := None\<rparr>) })"

definition SyncInternal :: "'d WritableFile_ops \<Rightarrow> bool \<Rightarrow> 'd WritableFileWriter \<Rightarrow> (Status \<times> 'd WritableFileWriter) option" where
  "SyncInternal V use_fsync w = on_file (if use_fsync then op_Fsync V else op_Sync V) w"

definition FileWriter_Sync :: "'d WritableFile_ops \<Rightarrow> bool \<Rightarrow> 'd WritableFileWriter \<Rightarrow> (Status \<times> 'd WritableFileWriter) option" where
  "FileWriter_Sync V use_fsync w = do {
     (s, w) \<leftarrow> FileWriter_Flush V w;
     if \<not> ok s then Some (s, w)
     else do {
       (s, w) \<leftarrow> (if \<not> direct_io w \<and> pending_sync w then SyncInternal V use_fsync w else Some (s, w));
       if \<not> ok s then Some (s, w)
       else Some (Status_OK, w\<lparr>pending_sync := False, pending_fsync := pending_fsync w \<and> \<not> use_fsync\<rparr>) } }"

definition SyncWithoutFlush :: "'d WritableFile_ops \<Rightarrow> bool \<Rightarrow> 'd WritableFileWriter \<Rightarrow> (Status \<times> 'd WritableFileWriter) option" where
  "SyncWithoutFlush V use_fsync w = do {
     f \<leftarrow> writable_file w;
     if \<not> op_IsSyncThreadSafe V then do {
       s \<leftarrow> NotSupported_msg (lit ''Can't WritableFileWriter::SyncWithoutFlush() because WritableFile::IsSyncThreadSafe() is false'') [];
       Some (s, w) }
     else SyncInternal V use_fsync w }"

definition FileWriter_InvalidateCache :: "'d WritableFile_ops \<Rightarrow> nat \<Rightarrow> nat \<Rightarrow> 'd WritableFileWriter \<Rightarrow> (Status \<times> 'd WritableFileWriter) option" where
  "FileWriter_InvalidateCache V offset n w = on_file (op_InvalidateCache V offset n) w"

section \<open>The sequential reader\<close>

text \<open>Its state is that of its file.\<close>

definition SequentialFileReader_Read :: "(nat \<Rightarrow> 'f \<Rightarrow> (Status \<times> bytes \<times> 'f) option) \<Rightarrow> nat \<Rightarrow> 'f \<Rightarrow> (Status \<times> bytes \<times> 'f) option" where
  "SequentialFileReader_Read Read n f = do { (s, result, f) \<leftarrow> Read n f; Some (s, result, f) }"

definition SequentialFileReader_Skip :: "(nat \<Rightarrow> 'f \<Rightarrow> (Status \<times> 'f) option) \<Rightarrow> nat \<Rightarrow> 'f \<Rightarrow> (Status \<times> 'f) option" where
  "SequentialFileReader_Skip Skip n f = Skip n f"

section \<open>What reaches the file\<close>

definition harmless :: "('d \<Rightarrow> bytes) \<Rightarrow> ('d \<Rightarrow> bool) \<Rightarrow> ('d \<Rightarrow> (Status \<times> 'd) option) \<Rightarrow> bool" where
  "harmless contents good g \<longleftrightarrow> (\<forall>d. good d \<longrightarrow> (\<exists>d'. g d = Some (Status_OK, d') \<and> good d' \<and> contents d' = contents d))"

text \<open>What is in the file, and with it what is still in the buffer.\<close>

definition in_file :: "('d \<Rightarrow> bytes) \<Rightarrow> 'd WritableFileWriter \<Rightarrow> bytes" where
  "in_file contents w = (case writable_file w of None \<Rightarrow> [] | Some f \<Rightarrow> contents (wf_state f))"

definition file_data :: "('d \<Rightarrow> bytes) \<Rightarrow> 'd WritableFileWriter \<Rightarrow> bytes" where
  "file_data contents w = in_file contents w @ ab_bytes (fw_buf w)"

definition fw_inv :: "('d \<Rightarrow> bool) \<Rightarrow> 'd WritableFileWriter \<Rightarrow> bool" where
  "fw_inv good w \<longleftrightarrow> use_os_buffer w \<and> (\<exists>f. writable_file w = Some f \<and> good (wf_state f)) \<and>
     ab_alignment (fw_buf w) > 0 \<and> ab_alignment (fw_buf w) AND (ab_alignment (fw_buf w) - 1) = 0 \<and>
     last_sync_size w \<le> sync_to (filesize w) \<and> burst w \<noteq> Some 0"

definition fw_ok :: "('d \<Rightarrow> bytes) \<Rightarrow> ('d \<Rightarrow> bool) \<Rightarrow> 'd WritableFileWriter \<Rightarrow> bool" where
  "fw_ok contents good w \<longleftrightarrow> fw_inv good w \<and> filesize w = length (file_data contents w)"

lemma sync_to_mono: "m \<le> n \<Longrightarrow> sync_to m \<le> sync_to n"
proof -
  assume "m \<le> n"
  then have "(m - 1024 * 1024) div 4096 * 4096 \<le> (n - 1024 * 1024) div 4096 * 4096" by (intro mult_right_mono div_le_mono diff_le_mono) auto
  then show ?thesis by (simp add: sync_to_def Let_def minus_mod_eq_div_mult)
qed

lemma fw_inv_buf: "fw_inv good w \<Longrightarrow> ab_alignment b = ab_alignment (fw_buf w) \<Longrightarrow> fw_inv good (w\<lparr>fw_buf := b\<rparr>)"
  by (simp add: fw_inv_def)

lemma in_file_buf [simp]: "in_file contents (w\<lparr>fw_buf := b\<rparr>) = in_file contents w"
  by (simp add: in_file_def)

lemma RequestToken_positive:
  assumes "writable_file w = Some f" "burst w \<noteq> Some 0" "src \<noteq> []"
  shows "\<exists>n. RequestToken (length src) False w = Some n \<and> n > 0"
  using assms by (cases "burst w") (auto simp: RequestToken_def Let_def)

lemma grow_buffer_ok:
  assumes "fw_inv good w" "ab_bytes (fw_buf w) = []"
  shows "\<exists>w'. grow_buffer w = Some w' \<and> fw_inv good w' \<and> ab_bytes (fw_buf w') = [] \<and> in_file contents w' = in_file contents w \<and> filesize w' = filesize w"
  using assms by (auto simp: grow_buffer_def AllocateNewBuffer_def fw_inv_def in_file_def)

locale written_file =
  fixes V :: "'d WritableFile_ops" and contents :: "'d \<Rightarrow> bytes" and good :: "'d \<Rightarrow> bool"
  assumes Append_contents: "good d \<Longrightarrow> \<exists>d'. op_Append V x d = Some (Status_OK, d') \<and> good d' \<and> contents d' = contents d @ x"
    and Truncate_contents: "good d \<Longrightarrow> \<exists>d'. op_Truncate V (length (contents d)) d = Some (Status_OK, d') \<and> good d' \<and> contents d' = contents d"
    and harmless_ops: "harmless contents good (op_Flush V)" "harmless contents good (op_Sync V)" "harmless contents good (op_Fsync V)"
      "harmless contents good (op_Close V)" "harmless contents good (op_RangeSync V off n)" "harmless contents good (op_Allocate V off n)"
    and os_buffer: "op_UseOSBuffer V"
    and alignment: "op_GetRequiredBufferAlignment V > 0" "op_GetRequiredBufferAlignment V AND (op_GetRequiredBufferAlignment V - 1) = 0"
begin

lemma WritableFileWriter_new_ok:
  assumes "good (wf_state f)" "contents (wf_state f) = []" "lim \<noteq> Some 0"
  shows "\<exists>w. WritableFileWriter_new V f mx bps lim = Some w \<and> fw_ok contents good w \<and> file_data contents w = []"
  using assms alignment os_buffer
  by (simp add: WritableFileWriter_new_def set_Alignment_def AllocateNewBuffer_def AlignedBuffer_new_def fw_ok_def fw_inv_def file_data_def in_file_def)

lemma on_file_harmless:
  assumes "fw_inv good w" "harmless contents good g"
  shows "\<exists>f. on_file g w = Some (Status_OK, w\<lparr>writable_file := Some f\<rparr>) \<and> good (wf_state f) \<and> contents (wf_state f) = in_file contents w"
proof -
  obtain f where f: "writable_file w = Some f" "good (wf_state f)" using assms(1) by (auto simp: fw_inv_def)
  obtain d where "g (wf_state f) = Some (Status_OK, d)" "good d" "contents d = contents (wf_state f)"
    using assms(2) f(2) unfolding harmless_def by blast
  then show ?thesis using f(1) by (intro exI [of _ "f\<lparr>wf_state := d\<rparr>"]) (simp add: on_file_def in_file_def)
qed

lemma fw_inv_file: "fw_inv good w \<Longrightarrow> good (wf_state f) \<Longrightarrow> fw_inv good (w\<lparr>writable_file := Some f\<rparr>)"
  by (simp add: fw_inv_def)

lemma in_file_file [simp]: "in_file contents (w\<lparr>writable_file := Some f\<rparr>) = contents (wf_state f)"
  by (simp add: in_file_def)

lemma WriteBuffered_loop_ok:
  "fw_inv good w \<Longrightarrow> \<exists>f. WriteBuffered_loop V src w = Some (Status_OK, w\<lparr>writable_file := Some f\<rparr>) \<and>
     good (wf_state f) \<and> contents (wf_state f) = in_file contents w @ src"
proof (induction src arbitrary: w rule: length_induct)
  case (1 src)
  obtain f where f: "writable_file w = Some f" "good (wf_state f)" using "1.prems" by (auto simp: fw_inv_def)
  show ?case
  proof (cases "src = []")
    case True
    then show ?thesis using f by (subst WriteBuffered_loop.simps) (auto simp: in_file_def intro!: exI [of _ f])
  next
    case False
    obtain n where n: "RequestToken (length src) False w = Some n" "n > 0"
      using RequestToken_positive [of w f src] False "1.prems" f(1) by (auto simp: fw_inv_def)
    obtain d where d: "op_Append V (take n src) (wf_state f) = Some (Status_OK, d)" "good d" "contents d = contents (wf_state f) @ take n src"
      using Append_contents [OF f(2)] by blast
    let ?w = "w\<lparr>writable_file := Some (f\<lparr>wf_state := d\<rparr>)\<rparr>"
    have st: "WriteBuffered_loop V src w = WriteBuffered_loop V (drop n src) ?w"
      using False n(1) d(1) f(1) by (subst WriteBuffered_loop.simps) (simp add: on_file_def)
    have "length (drop n src) < length src" using n(2) False by simp
    moreover have "fw_inv good ?w" using "1.prems" d(2) by (simp add: fw_inv_file)
    ultimately obtain f' where "WriteBuffered_loop V (drop n src) ?w = Some (Status_OK, ?w\<lparr>writable_file := Some f'\<rparr>)"
      "good (wf_state f')" "contents (wf_state f') = in_file contents ?w @ drop n src" using "1.IH" by blast
    then show ?thesis using d(3) f(1) by (auto simp: st in_file_def)
  qed
qed

lemma WriteBuffered_ok:
  assumes "fw_inv good w"
  shows "\<exists>w'. WriteBuffered V x w = Some (Status_OK, w') \<and> fw_inv good w' \<and> in_file contents w' = in_file contents w @ x \<and>
    ab_bytes (fw_buf w') = [] \<and> filesize w' = filesize w"
proof -
  obtain f where f: "WriteBuffered_loop V x w = Some (Status_OK, w\<lparr>writable_file := Some f\<rparr>)" "good (wf_state f)"
    "contents (wf_state f) = in_file contents w @ x" using WriteBuffered_loop_ok [OF assms] by blast
  then show ?thesis using assms fw_inv_file [OF assms f(2)] by (auto simp: WriteBuffered_def AlignedBuffer_Size_def fw_inv_def)
qed

lemma periodic_sync_ok:
  assumes "fw_inv good w"
  shows "\<exists>w'. periodic_sync V Status_OK w = Some (Status_OK, w') \<and> fw_inv good w' \<and> in_file contents w' = in_file contents w \<and>
    fw_buf w' = fw_buf w \<and> filesize w' = filesize w"
proof -
  let ?o = "sync_to (filesize w)"
  obtain f where f: "on_file (op_RangeSync V (last_sync_size w) (?o - last_sync_size w)) w = Some (Status_OK, w\<lparr>writable_file := Some f\<rparr>)"
    "good (wf_state f)" "contents (wf_state f) = in_file contents w" using on_file_harmless [OF assms harmless_ops(5)] by blast
  show ?thesis using f assms by (auto simp: periodic_sync_def FileWriter_RangeSync_def Let_def fw_inv_def in_file_def)
qed

lemma Flush_ok:
  assumes "fw_inv good w"
  shows "\<exists>w'. FileWriter_Flush V w = Some (Status_OK, w') \<and> fw_inv good w' \<and> in_file contents w' = file_data contents w \<and>
    ab_bytes (fw_buf w') = [] \<and> filesize w' = filesize w"
proof -
  obtain w1 where w1: "(if CurrentSize (fw_buf w) > 0 then (if use_os_buffer w then WriteBuffered V (ab_bytes (fw_buf w)) w else WriteUnbuffered V w)
      else Some (Status_OK, w)) = Some (Status_OK, w1)" "fw_inv good w1" "in_file contents w1 = file_data contents w"
      "ab_bytes (fw_buf w1) = []" "filesize w1 = filesize w"
  proof (cases "CurrentSize (fw_buf w) > 0")
    case True
    moreover have "use_os_buffer w" using assms by (simp add: fw_inv_def)
    ultimately show ?thesis using that WriteBuffered_ok [OF assms, of "ab_bytes (fw_buf w)"] by (auto simp: file_data_def)
  next
    case False
    then show ?thesis using that assms by (auto simp: CurrentSize_def file_data_def)
  qed
  obtain f where f: "on_file (op_Flush V) w1 = Some (Status_OK, w1\<lparr>writable_file := Some f\<rparr>)" "good (wf_state f)"
    "contents (wf_state f) = in_file contents w1" using on_file_harmless [OF w1(2) harmless_ops(1)] by blast
  from periodic_sync_ok [OF fw_inv_file [OF w1(2) f(2)]] w1 f show ?thesis by (auto simp: FileWriter_Flush_def)
qed

lemma make_room_ok:
  assumes "fw_inv good w"
  shows "\<exists>w'. make_room V n w = Some (Status_OK, w') \<and> fw_inv good w' \<and> file_data contents w' = file_data contents w \<and> filesize w' = filesize w \<and>
    (n \<le> ab_capacity (fw_buf w') - CurrentSize (fw_buf w') \<or> CurrentSize (fw_buf w') = 0)"
proof (cases "ab_capacity (fw_buf w) - CurrentSize (fw_buf w) < n")
  case True
  obtain w1 where w1: "(if CurrentSize (fw_buf w) > 0 then FileWriter_Flush V w else Some (Status_OK, w)) = Some (Status_OK, w1)"
    "fw_inv good w1" "in_file contents w1 = file_data contents w" "ab_bytes (fw_buf w1) = []" "filesize w1 = filesize w"
    using Flush_ok [OF assms] assms by (cases "CurrentSize (fw_buf w) > 0") (auto simp: CurrentSize_def file_data_def)
  from grow_buffer_ok [OF w1(2,4), of contents] True w1 assms show ?thesis
    by (auto simp: make_room_def CurrentSize_def file_data_def fw_inv_def)
next
  case False
  then show ?thesis using assms by (auto simp: make_room_def)
qed

lemma Append_loop_fits:
  assumes "length x \<le> ab_capacity (fw_buf w) - CurrentSize (fw_buf w)"
  shows "\<exists>b. FileWriter_Append_loop V x w = Some (Status_OK, w\<lparr>fw_buf := b\<rparr>) \<and> ab_bytes b = ab_bytes (fw_buf w) @ x \<and>
    ab_alignment b = ab_alignment (fw_buf w)"
  using assms by (subst FileWriter_Append_loop.simps) (auto simp: AlignedBuffer_Append_def intro: exI [of _ "fw_buf w"])

lemma PrepareWrite_ok:
  assumes "good (wf_state f)"
  shows "\<exists>f'. PrepareWrite V a n f = Some f' \<and> good (wf_state f') \<and> contents (wf_state f') = contents (wf_state f)"
proof -
  let ?b = "preallocation_block_size f" and ?l = "last_preallocated_block f"
  obtain d where "op_Allocate V (?b * ?l) (?b * ((a + n + ?b - 1) div ?b - ?l)) (wf_state f) = Some (Status_OK, d)" "good d"
    "contents d = contents (wf_state f)" using harmless_ops(6) assms unfolding harmless_def by blast
  then show ?thesis using assms by (simp add: PrepareWrite_def Let_def)
qed

lemma Append_ok:
  assumes "fw_ok contents good w"
  shows "\<exists>w'. FileWriter_Append V x w = Some (Status_OK, w') \<and> fw_ok contents good w' \<and> file_data contents w' = file_data contents w @ x"
proof -
  have inv: "fw_inv good w" and sz: "filesize w = length (file_data contents w)" using assms by (auto simp: fw_ok_def)
  obtain f0 where f0: "writable_file w = Some f0" "good (wf_state f0)" using inv by (auto simp: fw_inv_def)
  obtain f where f: "PrepareWrite V (filesize w) (length x) f0 = Some f" "good (wf_state f)" "contents (wf_state f) = contents (wf_state f0)"
    using PrepareWrite_ok [OF f0(2)] by blast
  let ?w = "w\<lparr>writable_file := Some f, pending_sync := True, pending_fsync := True\<rparr>"
  have "fw_inv good ?w" using inv f(2) by (simp add: fw_inv_def)
  from make_room_ok [OF this, of "length x"] obtain w1 where w1: "make_room V (length x) ?w = Some (Status_OK, w1)" "fw_inv good w1"
    "file_data contents w1 = file_data contents ?w" "filesize w1 = filesize ?w"
    "length x \<le> ab_capacity (fw_buf w1) - CurrentSize (fw_buf w1) \<or> CurrentSize (fw_buf w1) = 0" by blast
  have d: "file_data contents ?w = file_data contents w" using f0 f by (simp add: file_data_def in_file_def)
  obtain w2 where w2: "(if \<not> use_os_buffer w1 \<or> ab_capacity (fw_buf w1) \<ge> length x then FileWriter_Append_loop V x w1
       else if CurrentSize (fw_buf w1) = 0 then WriteBuffered V x w1 else None) = Some (Status_OK, w2)"
      "fw_inv good w2" "file_data contents w2 = file_data contents w @ x" "filesize w2 = filesize w"
  proof (cases "ab_capacity (fw_buf w1) \<ge> length x")
    case True
    then have "length x \<le> ab_capacity (fw_buf w1) - CurrentSize (fw_buf w1)" using w1(5) by auto
    from Append_loop_fits [OF this] obtain b where "FileWriter_Append_loop V x w1 = Some (Status_OK, w1\<lparr>fw_buf := b\<rparr>)"
      "ab_bytes b = ab_bytes (fw_buf w1) @ x" "ab_alignment b = ab_alignment (fw_buf w1)" by blast
    then show ?thesis using that [of "w1\<lparr>fw_buf := b\<rparr>"] True w1(2,3,4) d fw_inv_buf [OF w1(2)] by (simp add: file_data_def)
  next
    case False
    then have "CurrentSize (fw_buf w1) = 0" "use_os_buffer w1" using w1(2,5) by (auto simp: fw_inv_def)
    then show ?thesis using that WriteBuffered_ok [OF w1(2), of x] False w1(3,4) d by (auto simp: file_data_def CurrentSize_def)
  qed
  let ?w3 = "w2\<lparr>filesize := filesize w2 + length x\<rparr>"
  have "sync_to (filesize w2) \<le> sync_to (filesize w2 + length x)" by (rule sync_to_mono) simp
  then have "fw_inv good ?w3" using w2(2) by (auto simp: fw_inv_def)
  moreover have "file_data contents ?w3 = file_data contents w @ x" using w2(3) by (simp add: file_data_def in_file_def)
  moreover have "FileWriter_Append V x w = Some (Status_OK, ?w3)" using f0(1) f(1) w1(1) w2(1) by (simp add: FileWriter_Append_def)
  ultimately show ?thesis using w2(4) sz by (simp add: fw_ok_def)
qed

lemma Flush_keeps:
  assumes "fw_ok contents good w"
  shows "\<exists>w'. FileWriter_Flush V w = Some (Status_OK, w') \<and> fw_ok contents good w' \<and> file_data contents w' = file_data contents w"
  using Flush_ok [of w] assms by (auto simp: fw_ok_def file_data_def)

lemma Sync_ok:
  assumes "fw_ok contents good w"
  shows "\<exists>w'. FileWriter_Sync V use_fsync w = Some (Status_OK, w') \<and> fw_ok contents good w' \<and> in_file contents w' = file_data contents w \<and>
    file_data contents w' = file_data contents w \<and> \<not> pending_sync w'"
proof -
  obtain w1 where w1: "FileWriter_Flush V w = Some (Status_OK, w1)" "fw_inv good w1" "in_file contents w1 = file_data contents w"
    "ab_bytes (fw_buf w1) = []" "filesize w1 = filesize w" using Flush_ok [of w] assms by (auto simp: fw_ok_def)
  have "harmless contents good (if use_fsync then op_Fsync V else op_Sync V)" using harmless_ops by simp
  from on_file_harmless [OF w1(2) this] obtain f where f: "SyncInternal V use_fsync w1 = Some (Status_OK, w1\<lparr>writable_file := Some f\<rparr>)"
    "good (wf_state f)" "contents (wf_state f) = in_file contents w1" unfolding SyncInternal_def by blast
  show ?thesis using w1 f assms fw_inv_file [OF w1(2) f(2)]
    by (auto simp: FileWriter_Sync_def fw_ok_def fw_inv_def file_data_def in_file_def)
qed

text \<open>After \<open>Close\<close> the file holds exactly what was appended.\<close>

lemma Close_ok:
  assumes "fw_ok contents good w"
  shows "\<exists>d w'. FileWriter_Close V w = Some (Status_OK, Some d, w') \<and> good d \<and> contents d = file_data contents w \<and> writable_file w' = None"
proof -
  obtain w1 where w1: "FileWriter_Flush V w = Some (Status_OK, w1)" "fw_inv good w1" "in_file contents w1 = file_data contents w"
    "filesize w1 = filesize w" using Flush_ok [of w] assms by (auto simp: fw_ok_def)
  obtain f1 where f1: "writable_file w1 = Some f1" "good (wf_state f1)" using w1(2) by (auto simp: fw_inv_def)
  have len: "filesize w1 = length (contents (wf_state f1))" using w1(3,4) f1(1) assms by (simp add: fw_ok_def in_file_def)
  obtain d where d: "op_Truncate V (length (contents (wf_state f1))) (wf_state f1) = Some (Status_OK, d)" "good d" "contents d = contents (wf_state f1)"
    using Truncate_contents [OF f1(2)] by blast
  let ?w2 = "w1\<lparr>writable_file := Some (f1\<lparr>wf_state := d\<rparr>)\<rparr>"
  have tr: "on_file (op_Truncate V (filesize w1)) w1 = Some (Status_OK, ?w2)" using f1(1) d(1) len by (simp add: on_file_def)
  have inv2: "fw_inv good ?w2" using w1(2) d(2) by (simp add: fw_inv_file)
  obtain f where f: "on_file (op_Close V) ?w2 = Some (Status_OK, ?w2\<lparr>writable_file := Some f\<rparr>)"
    "good (wf_state f)" "contents (wf_state f) = in_file contents ?w2" using on_file_harmless [OF inv2 harmless_ops(4)] by blast
  have "writable_file w \<noteq> None" using assms by (auto simp: fw_ok_def fw_inv_def)
  then show ?thesis using w1(1,3) tr f d(3) f1(1) by (simp add: FileWriter_Close_def first_error_def in_file_def)
qed

end

end
