(* ===== verification/File_Pages.thy ===== *)
theory File_Pages
  imports File_Writer
begin

text \<open>
  Unbuffered files: when \<open>UseOSBuffer\<close> is false a \<open>WritableFileWriter\<close> writes whole pages at aligned
  offsets, pads the last one with zeros, writes it again when more data arrives, and trims the file when
  it is closed. The file itself is the operating system's; \<open>positional\<close> is what the writer relies on.
\<close>

section \<open>Files that are written at positions\<close>

definition overwrite :: "nat \<Rightarrow> bytes \<Rightarrow> bytes \<Rightarrow> bytes" where
  "overwrite off x c = take off c @ x @ drop (off + length x) c"

definition positional :: "'d WritableFile_ops \<Rightarrow> ('d \<Rightarrow> bytes) \<Rightarrow> bool" where
  "positional V contents \<longleftrightarrow>
     (\<forall>x off d. off \<le> length (contents d) \<longrightarrow>
        (\<exists>d'. op_PositionedAppend V x off d = Some (Status_OK, d') \<and> contents d' = overwrite off x (contents d))) \<and>
     (\<forall>n d. n \<le> length (contents d) \<longrightarrow> (\<exists>d'. op_Truncate V n d = Some (Status_OK, d') \<and> contents d' = take n (contents d))) \<and>
     (\<forall>g \<in> {op_Flush V, op_Sync V, op_Fsync V, op_Close V}. harmless contents (\<lambda>d. True) g) \<and>
     (\<forall>off n. harmless contents (\<lambda>d. True) (op_RangeSync V off n) \<and> harmless contents (\<lambda>d. True) (op_Allocate V off n))"

text \<open>A sequence of calls on a writer; it stops at the first error.\<close>

datatype fw_call = Call_Append bytes | Call_Flush | Call_Sync bool

fun fw_step :: "'d WritableFile_ops \<Rightarrow> fw_call \<Rightarrow> 'd WritableFileWriter \<Rightarrow> (Status \<times> 'd WritableFileWriter) option" where
  "fw_step V (Call_Append x) w = FileWriter_Append V x w"
| "fw_step V Call_Flush w = FileWriter_Flush V w"
| "fw_step V (Call_Sync b) w = FileWriter_Sync V b w"

fun fw_calls :: "'d WritableFile_ops \<Rightarrow> fw_call list \<Rightarrow> 'd WritableFileWriter \<Rightarrow> (Status \<times> 'd WritableFileWriter) option" where
  "fw_calls V [] w = Some (Status_OK, w)"
| "fw_calls V (c # cs) w = do { (s, w) \<leftarrow> fw_step V c w; if ok s then fw_calls V cs w else Some (s, w) }"

fun appended :: "fw_call \<Rightarrow> bytes" where
  "appended (Call_Append x) = x"
| "appended Call_Flush = []"
| "appended (Call_Sync b) = []"

section \<open>Pages\<close>

lemma positional_Append: "positional V contents \<Longrightarrow> off \<le> length (contents d) \<Longrightarrow>
    \<exists>d'. op_PositionedAppend V x off d = Some (Status_OK, d') \<and> contents d' = overwrite off x (contents d)"
  by (simp add: positional_def)

lemma positional_Truncate: "positional V contents \<Longrightarrow> n \<le> length (contents d) \<Longrightarrow>
    \<exists>d'. op_Truncate V n d = Some (Status_OK, d') \<and> contents d' = take n (contents d)"
  by (simp add: positional_def)

lemma positional_harmless:
  assumes "positional V contents"
  shows "harmless contents (\<lambda>d. True) (op_Flush V)" "harmless contents (\<lambda>d. True) (op_Sync V)" "harmless contents (\<lambda>d. True) (op_Fsync V)"
    "harmless contents (\<lambda>d. True) (op_Close V)" "harmless contents (\<lambda>d. True) (op_RangeSync V off n)" "harmless contents (\<lambda>d. True) (op_Allocate V off n)"
  using assms by (auto simp: positional_def)

lemma overwrite_append: "off \<le> length c \<Longrightarrow> overwrite (off + length x) y (overwrite off x c) = overwrite off (x @ y) c"
  by (simp add: overwrite_def ac_simps)

lemma length_overwrite: "off \<le> length c \<Longrightarrow> off + length x \<le> length (overwrite off x c)"
  by (simp add: overwrite_def)

lemma and_pred_zero: "a > 0 \<Longrightarrow> a AND (a - 1) = 0 \<Longrightarrow> \<exists>k. a = 2 ^ k" for a :: nat
proof (induction a rule: less_induct)
  case (less a)
  show ?case
  proof (cases "even a")
    case True
    then obtain m where m: "a = 2 * m" by blast
    then obtain m' where m': "m = Suc m'" using less.prems(1) by (cases m) auto
    have "a AND (a - 1) = 2 * m AND (1 + 2 * m')" using m m' by simp
    also have "\<dots> = 2 * (m AND m')" by (subst and_rec) simp
    finally have "m AND (m - 1) = 0" using less.prems(2) m' by simp
    from less.IH [OF _ _ this] m m' obtain k where "m = 2 ^ k" by auto
    then show ?thesis using m by (intro exI [of _ "Suc k"]) simp
  next
    case False
    then obtain m where m: "a = 1 + 2 * m" by (metis add.commute oddE)
    then have "a AND (a - 1) = 2 * m" by (simp, subst and_rec) simp
    then show ?thesis using less.prems(2) m by (intro exI [of _ 0]) simp
  qed
qed

lemma TruncateToPageBoundary_eq: "TruncateToPageBoundary (2 ^ k) s = Some (s div 2 ^ k * 2 ^ k)"
proof -
  have "s AND (2 ^ k - 1) = s mod 2 ^ k" by (simp only: mask_eq_exp_minus_1 [symmetric] take_bit_eq_mask [symmetric] take_bit_eq_mod)
  then show ?thesis by (simp add: TruncateToPageBoundary_def minus_mod_eq_div_mult)
qed

lemma Roundup_mod: "Roundup x y mod y = 0"
  by (simp add: Roundup_def)

lemma Roundup_ge: "y > 0 \<Longrightarrow> x \<le> Roundup x y"
proof -
  assume "y > 0"
  then have "(x + y - 1) mod y < y" by simp
  moreover have "(x + y - 1) div y * y + (x + y - 1) mod y = x + y - 1" by (rule div_mult_mod_eq)
  ultimately show ?thesis using \<open>y > 0\<close> unfolding Roundup_def by linarith
qed

lemma Roundup_le: "c mod y = 0 \<Longrightarrow> x \<le> c \<Longrightarrow> y > 0 \<Longrightarrow> Roundup x y \<le> c"
proof -
  assume "c mod y = 0" "x \<le> c" "y > 0"
  then obtain m where m: "c = m * y" by auto
  have "(x + y - 1) div y < m + 1" using \<open>x \<le> c\<close> \<open>y > 0\<close> m by (simp add: div_less_iff_less_mult)
  then show ?thesis using m by (simp add: Roundup_def)
qed

text \<open>
  The bytes \<open>D\<close> appended so far are what the file holds before the next write and the buffer after it.
\<close>

definition pages_inv :: "('d \<Rightarrow> bytes) \<Rightarrow> bytes \<Rightarrow> 'd WritableFileWriter \<Rightarrow> bool" where
  "pages_inv contents D w \<longleftrightarrow> \<not> use_os_buffer w \<and> writable_file w \<noteq> None \<and>
     next_write_offset w \<le> length (in_file contents w) \<and> take (next_write_offset w) (in_file contents w) @ ab_bytes (fw_buf w) = D \<and>
     (\<exists>k. ab_alignment (fw_buf w) = 2 ^ k) \<and> ab_capacity (fw_buf w) mod ab_alignment (fw_buf w) = 0 \<and> 0 < ab_capacity (fw_buf w) \<and>
     length (ab_bytes (fw_buf w)) \<le> ab_capacity (fw_buf w) \<and> next_write_offset w mod ab_alignment (fw_buf w) = 0 \<and>
     last_sync_size w \<le> sync_to (filesize w)"

lemma on_file_calls:
  assumes "writable_file w \<noteq> None" "harmless contents (\<lambda>d. True) g"
  shows "\<exists>f. on_file g w = Some (Status_OK, w\<lparr>writable_file := Some f\<rparr>) \<and> contents (wf_state f) = in_file contents w"
proof -
  obtain f where f: "writable_file w = Some f" using assms(1) by auto
  obtain d where "g (wf_state f) = Some (Status_OK, d)" "contents d = contents (wf_state f)"
    using assms(2) unfolding harmless_def by blast
  then show ?thesis using f by (intro exI [of _ "f\<lparr>wf_state := d\<rparr>"]) (simp add: on_file_def in_file_def)
qed

lemma pages_inv_file: "pages_inv contents D w \<Longrightarrow> contents (wf_state f) = in_file contents w \<Longrightarrow> pages_inv contents D (w\<lparr>writable_file := Some f\<rparr>)"
  by (simp add: pages_inv_def in_file_def)

lemma RequestToken_pages:
  assumes "writable_file w \<noteq> None" "ab_alignment (fw_buf w) = 2 ^ k" "n mod 2 ^ k = 0" "n > 0"
  shows "\<exists>m. RequestToken n True w = Some m \<and> 0 < m \<and> m \<le> n \<and> m mod 2 ^ k = 0"
proof -
  have "2 ^ k \<le> n" using assms(3,4) by (meson dvd_imp_le mod_0_imp_dvd)
  moreover have "min n b div 2 ^ k * 2 ^ k \<le> n" for b by (meson div_times_less_eq_dividend le_trans min.cobounded1)
  moreover have "max (2 ^ k) (min n b div 2 ^ k * 2 ^ k) mod 2 ^ k = 0" for b :: nat by (simp add: max_def)
  moreover have "0 < max (2 ^ k) (min n b div 2 ^ k * 2 ^ k)" for b :: nat by (simp add: less_max_iff_disj)
  ultimately show ?thesis using assms by (auto simp: RequestToken_def TruncateToPageBoundary_eq Let_def split: option.split)
qed

lemma WriteUnbuffered_loop_ok:
  assumes "positional V contents"
  shows "writable_file w \<noteq> None \<Longrightarrow> ab_alignment (fw_buf w) = 2 ^ k \<Longrightarrow> next_write_offset w mod 2 ^ k = 0 \<Longrightarrow>
    length src mod 2 ^ k = 0 \<Longrightarrow> off \<le> length (in_file contents w) \<Longrightarrow>
    \<exists>f. WriteUnbuffered_loop V src off w = Some (Status_OK, w\<lparr>writable_file := Some f\<rparr>) \<and> contents (wf_state f) = overwrite off src (in_file contents w)"
proof (induction src arbitrary: off w rule: length_induct)
  case (1 src)
  obtain f where f: "writable_file w = Some f" using "1.prems"(1) by auto
  show ?case
  proof (cases "src = []")
    case True
    then show ?thesis using f by (subst WriteUnbuffered_loop.simps) (auto simp: overwrite_def in_file_def intro!: exI [of _ f])
  next
    case False
    obtain n where n: "RequestToken (length src) True w = Some n" "0 < n" "n \<le> length src" "n mod 2 ^ k = 0"
      using RequestToken_pages [OF "1.prems"(1,2,4)] False by auto
    obtain d where d: "op_PositionedAppend V (take n src) off (wf_state f) = Some (Status_OK, d)"
      "contents d = overwrite off (take n src) (contents (wf_state f))"
      using positional_Append [OF assms, of off "wf_state f" "take n src"] "1.prems"(5) f unfolding in_file_def by auto
    let ?w = "w\<lparr>writable_file := Some (f\<lparr>wf_state := d\<rparr>)\<rparr>"
    have st: "WriteUnbuffered_loop V src off w = WriteUnbuffered_loop V (drop n src) (off + n) ?w"
      using False n(1,3) d(1) f "1.prems"(2,3) by (subst WriteUnbuffered_loop.simps) (simp add: on_file_def)
    have c: "in_file contents ?w = overwrite off (take n src) (in_file contents w)" using d(2) f by (simp add: in_file_def)
    have "length (drop n src) mod 2 ^ k = 0" using n(3,4) "1.prems"(4) by (simp add: mod_eq_0_iff_dvd dvd_diff_nat)
    moreover have "off + n \<le> length (in_file contents ?w)" using length_overwrite [OF "1.prems"(5), of "take n src"] n(3) by (simp add: c)
    moreover have "length (drop n src) < length src" using n(2) False by simp
    ultimately obtain f' where "WriteUnbuffered_loop V (drop n src) (off + n) ?w = Some (Status_OK, ?w\<lparr>writable_file := Some f'\<rparr>)"
      "contents (wf_state f') = overwrite (off + n) (drop n src) (in_file contents ?w)"
      using "1.IH" [rule_format, of "drop n src" ?w "off + n"] "1.prems"(2,3) by auto
    then show ?thesis using overwrite_append [OF "1.prems"(5), of "take n src" "drop n src"] n(3) by (auto simp: st c)
  qed
qed

text \<open>After a flush the whole of \<open>D\<close> is in the file; what is kept in the buffer is less than a page.\<close>

lemma WriteUnbuffered_ok:
  assumes "positional V contents" "pages_inv contents D w"
  shows "\<exists>w'. WriteUnbuffered V w = Some (Status_OK, w') \<and> pages_inv contents D w' \<and> filesize w' = filesize w \<and>
    length D \<le> length (in_file contents w') \<and> take (length D) (in_file contents w') = D \<and>
    (length (ab_bytes (fw_buf w)) = ab_capacity (fw_buf w) \<longrightarrow> ab_bytes (fw_buf w') = [])"
proof -
  let ?b = "fw_buf w" and ?x = "ab_bytes (fw_buf w)" and ?o = "next_write_offset w" and ?c = "in_file contents w"
  obtain k where k: "ab_alignment ?b = 2 ^ k" using assms(2) by (auto simp: pages_inv_def)
  define z where "z = replicate (Roundup (length ?x) (2 ^ k) - length ?x) (0 :: byte)"
  define m where "m = length ?x div 2 ^ k * 2 ^ k"
  have inv: "\<not> use_os_buffer w" "?o mod 2 ^ k = 0" "ab_capacity ?b mod 2 ^ k = 0" "length ?x \<le> ab_capacity ?b" "?o \<le> length ?c"
    "take ?o ?c @ ?x = D" using assms(2) k by (auto simp: pages_inv_def)
  have m: "m \<le> length ?x" by (simp add: m_def)
  have r: "length ?x \<le> Roundup (length ?x) (2 ^ k)" "Roundup (length ?x) (2 ^ k) \<le> ab_capacity ?b" using inv(3,4) by (auto intro: Roundup_ge Roundup_le)
  have len: "length (?x @ z) = Roundup (length ?x) (2 ^ k)" using r(1) by (simp add: z_def)
  have pad: "PadToAlignmentWith 0 ?b = Some (?b\<lparr>ab_bytes := ?x @ z\<rparr>)"
    using r k by (auto simp: PadToAlignmentWith_def CurrentSize_def z_def Let_def)
  have lm: "length (?x @ z) mod 2 ^ k = 0" unfolding len by (rule Roundup_mod)
  obtain f where f: "WriteUnbuffered_loop V (?x @ z) ?o (w\<lparr>fw_buf := ?b\<lparr>ab_bytes := ?x @ z\<rparr>\<rparr>) =
      Some (Status_OK, w\<lparr>fw_buf := ?b\<lparr>ab_bytes := ?x @ z\<rparr>, writable_file := Some f\<rparr>)" "contents (wf_state f) = overwrite ?o (?x @ z) ?c"
    using WriteUnbuffered_loop_ok [OF assms(1), of "w\<lparr>fw_buf := ?b\<lparr>ab_bytes := ?x @ z\<rparr>\<rparr>" k "?x @ z" ?o] k inv(2,5) lm assms(2)
    by (auto simp: pages_inv_def)
  let ?b' = "?b\<lparr>ab_bytes := drop m ?x\<rparr>"
  define w' where "w' = w\<lparr>fw_buf := ?b', writable_file := Some f, next_write_offset := ?o + m\<rparr>"
  have "RefitTail m (length ?x - m) (?b\<lparr>ab_bytes := ?x @ z\<rparr>) = Some ?b'" using m by (simp add: RefitTail_def CurrentSize_def)
  then have run: "WriteUnbuffered V w = Some (Status_OK, w')"
    using k inv(1,2) pad f(1) TruncateToPageBoundary_eq [of k "length ?x"] by (simp add: WriteUnbuffered_def CurrentSize_def m_def [symmetric] w'_def)
  have cont: "in_file contents w' = take ?o ?c @ ?x @ z @ drop (?o + length (?x @ z)) ?c" using f(2) by (simp add: in_file_def overwrite_def w'_def)
  have fields: "fw_buf w' = ?b'" "writable_file w' = Some f" "next_write_offset w' = ?o + m" "use_os_buffer w' = use_os_buffer w"
    "last_sync_size w' = last_sync_size w" "filesize w' = filesize w" by (simp_all add: w'_def)
  have "(?o + m) mod 2 ^ k = 0" using inv(2) by (simp add: m_def mod_eq_0_iff_dvd)
  moreover have "take (?o + m) (in_file contents w') = take ?o ?c @ take m ?x" unfolding cont using inv(5) m by simp
  moreover have "?o + m \<le> length (in_file contents w')" unfolding cont using inv(5) m by simp
  ultimately have "pages_inv contents D w'" using assms(2) k m inv by (simp add: pages_inv_def fields)
  moreover have "length D \<le> length (in_file contents w')" "take (length D) (in_file contents w') = D"
    unfolding cont inv(6) [symmetric] using inv(5) by simp_all
  moreover have "length ?x = ab_capacity ?b \<longrightarrow> drop m ?x = []" using inv(3) by (auto simp: m_def)
  ultimately show ?thesis using run fields by simp
qed

lemma periodic_sync_pages:
  assumes "positional V contents" "pages_inv contents D w"
  shows "\<exists>w'. periodic_sync V Status_OK w = Some (Status_OK, w') \<and> pages_inv contents D w' \<and> filesize w' = filesize w \<and>
    fw_buf w' = fw_buf w \<and> in_file contents w' = in_file contents w"
proof -
  let ?o = "sync_to (filesize w)"
  have "writable_file w \<noteq> None" using assms(2) by (simp add: pages_inv_def)
  from on_file_calls [OF this positional_harmless(5) [OF assms(1)]] obtain f where
    f: "on_file (op_RangeSync V (last_sync_size w) (?o - last_sync_size w)) w = Some (Status_OK, w\<lparr>writable_file := Some f\<rparr>)"
    "contents (wf_state f) = in_file contents w" by blast
  show ?thesis using f assms(2) by (auto simp: periodic_sync_def FileWriter_RangeSync_def Let_def pages_inv_def in_file_def)
qed

lemma Flush_pages:
  assumes "positional V contents" "pages_inv contents D w"
  shows "\<exists>w'. FileWriter_Flush V w = Some (Status_OK, w') \<and> pages_inv contents D w' \<and> filesize w' = filesize w \<and>
    length D \<le> length (in_file contents w') \<and> take (length D) (in_file contents w') = D \<and>
    (length (ab_bytes (fw_buf w)) = ab_capacity (fw_buf w) \<longrightarrow> ab_bytes (fw_buf w') = [])"
proof -
  obtain w1 where w1: "(if CurrentSize (fw_buf w) > 0 then (if use_os_buffer w then WriteBuffered V (ab_bytes (fw_buf w)) w else WriteUnbuffered V w)
      else Some (Status_OK, w)) = Some (Status_OK, w1)" "pages_inv contents D w1" "filesize w1 = filesize w"
      "length D \<le> length (in_file contents w1)" "take (length D) (in_file contents w1) = D"
      "length (ab_bytes (fw_buf w)) = ab_capacity (fw_buf w) \<longrightarrow> ab_bytes (fw_buf w1) = []"
  proof (cases "CurrentSize (fw_buf w) > 0")
    case True
    moreover have "\<not> use_os_buffer w" using assms(2) by (simp add: pages_inv_def)
    ultimately show ?thesis using that WriteUnbuffered_ok [OF assms] by auto
  next
    case False
    then have "D = take (next_write_offset w) (in_file contents w)" "next_write_offset w \<le> length (in_file contents w)" "0 < ab_capacity (fw_buf w)"
      using assms(2) by (auto simp: pages_inv_def CurrentSize_def)
    then show ?thesis using that [of w] False assms(2) by (simp add: CurrentSize_def min_absorb2)
  qed
  have "writable_file w1 \<noteq> None" using w1(2) by (simp add: pages_inv_def)
  from on_file_calls [OF this positional_harmless(1) [OF assms(1)]] obtain f where
    f: "on_file (op_Flush V) w1 = Some (Status_OK, w1\<lparr>writable_file := Some f\<rparr>)" "contents (wf_state f) = in_file contents w1" by blast
  from periodic_sync_pages [OF assms(1) pages_inv_file [OF w1(2) f(2)]] w1 f show ?thesis by (auto simp: FileWriter_Flush_def in_file_def)
qed

lemma grow_pages:
  assumes "pages_inv contents D w" "ab_bytes (fw_buf w) = []"
  shows "\<exists>w'. grow_buffer w = Some w' \<and> pages_inv contents D w' \<and> filesize w' = filesize w \<and> ab_bytes (fw_buf w') = []"
proof -
  obtain k where k: "ab_alignment (fw_buf w) = 2 ^ k" using assms(1) by (auto simp: pages_inv_def)
  let ?c = "Roundup (min (ab_capacity (fw_buf w) * 2) (max_buffer_size w)) (2 ^ k)"
  have a: "(2 :: nat) ^ k AND (2 ^ k - 1) = 0"
    by (simp only: mask_eq_exp_minus_1 [symmetric] take_bit_eq_mask [symmetric] take_bit_eq_mod mod_self)
  show ?thesis
  proof (cases "ab_capacity (fw_buf w) < max_buffer_size w")
    case True
    have "min (ab_capacity (fw_buf w) * 2) (max_buffer_size w) \<le> ?c" by (rule Roundup_ge) simp
    moreover have "0 < min (ab_capacity (fw_buf w) * 2) (max_buffer_size w)" using True assms(1) by (auto simp: pages_inv_def)
    ultimately have "0 < ?c" by linarith
    moreover have "grow_buffer w = Some (w\<lparr>fw_buf := fw_buf w\<lparr>ab_capacity := ?c, ab_bytes := []\<rparr>\<rparr>)"
      using True a by (simp add: grow_buffer_def AllocateNewBuffer_def k)
    ultimately show ?thesis using assms k Roundup_mod by (auto simp: pages_inv_def in_file_def)
  next
    case False
    then show ?thesis using assms by (simp add: grow_buffer_def)
  qed
qed

text \<open>One turn of the loop of \<open>Append\<close>: what fits goes to the buffer, and a full buffer is written out.\<close>

lemma Append_loop_step:
  assumes "positional V contents" "pages_inv contents D w" "src \<noteq> []"
  defines "n \<equiv> min (length src) (ab_capacity (fw_buf w) - CurrentSize (fw_buf w))"
  shows "\<exists>w'. pages_inv contents (D @ take n src) w' \<and> filesize w' = filesize w \<and>
    (if n = length src then FileWriter_Append_loop V src w = Some (Status_OK, w')
     else FileWriter_Append_loop V src w = FileWriter_Append_loop V (drop n src) w' \<and> ab_bytes (fw_buf w') = [])"
proof -
  let ?b = "fw_buf w\<lparr>ab_bytes := ab_bytes (fw_buf w) @ take n src\<rparr>"
  let ?w = "w\<lparr>fw_buf := ?b\<rparr>"
  have app: "AlignedBuffer_Append src (fw_buf w) = (n, ?b)" by (simp add: AlignedBuffer_Append_def n_def Let_def)
  have inv: "pages_inv contents (D @ take n src) ?w" using assms(2) by (auto simp: pages_inv_def n_def CurrentSize_def in_file_def)
  show ?thesis
  proof (cases "n = length src")
    case True
    then show ?thesis using inv app assms(3) by (subst FileWriter_Append_loop.simps) auto
  next
    case False
    then have n: "n < length src" "n = ab_capacity (fw_buf w) - CurrentSize (fw_buf w)" by (auto simp: n_def min_def split: if_splits)
    then have full: "length (ab_bytes (fw_buf ?w)) = ab_capacity (fw_buf ?w)" using assms(2) by (auto simp: pages_inv_def CurrentSize_def)
    obtain w1 where w1: "FileWriter_Flush V ?w = Some (Status_OK, w1)" "pages_inv contents (D @ take n src) w1" "filesize w1 = filesize w"
      "ab_bytes (fw_buf w1) = []" using Flush_pages [OF assms(1) inv] full by auto
    obtain w2 where "grow_buffer w1 = Some w2" "pages_inv contents (D @ take n src) w2" "filesize w2 = filesize w1" "ab_bytes (fw_buf w2) = []"
      using grow_pages [OF w1(2,4)] by blast
    then show ?thesis using w1 n(1) app assms(3) by (intro exI [of _ w2]) (subst FileWriter_Append_loop.simps, simp)
  qed
qed

lemma Append_loop_empty:
  assumes "positional V contents"
  shows "pages_inv contents D w \<Longrightarrow> CurrentSize (fw_buf w) < ab_capacity (fw_buf w) \<Longrightarrow>
    \<exists>w'. FileWriter_Append_loop V src w = Some (Status_OK, w') \<and> pages_inv contents (D @ src) w' \<and> filesize w' = filesize w"
proof (induction src arbitrary: D w rule: length_induct)
  case (1 src)
  let ?n = "min (length src) (ab_capacity (fw_buf w) - CurrentSize (fw_buf w))"
  show ?case
  proof (cases "src = []")
    case True
    then show ?thesis using "1.prems" by (subst FileWriter_Append_loop.simps) simp
  next
    case False
    from Append_loop_step [OF assms "1.prems"(1) False] obtain w' where w': "pages_inv contents (D @ take ?n src) w'" "filesize w' = filesize w"
      "if ?n = length src then FileWriter_Append_loop V src w = Some (Status_OK, w')
       else FileWriter_Append_loop V src w = FileWriter_Append_loop V (drop ?n src) w' \<and> ab_bytes (fw_buf w') = []" by blast
    show ?thesis
    proof (cases "?n = length src")
      case True
      then show ?thesis using w' by simp
    next
      case n: False
      have "length (drop ?n src) < length src" using "1.prems"(2) False by simp
      moreover have "CurrentSize (fw_buf w') < ab_capacity (fw_buf w')" using w'(1,3) n by (simp add: pages_inv_def CurrentSize_def)
      ultimately obtain w'' where "FileWriter_Append_loop V (drop ?n src) w' = Some (Status_OK, w'')"
        "pages_inv contents ((D @ take ?n src) @ drop ?n src) w''" "filesize w'' = filesize w'" using "1.IH" w'(1) by blast
      then show ?thesis using w'(2,3) n by auto
    qed
  qed
qed

lemma Append_loop_pages:
  assumes "positional V contents" "pages_inv contents D w"
  shows "\<exists>w'. FileWriter_Append_loop V src w = Some (Status_OK, w') \<and> pages_inv contents (D @ src) w' \<and> filesize w' = filesize w"
proof (cases "src = [] \<or> CurrentSize (fw_buf w) < ab_capacity (fw_buf w)")
  case True
  then show ?thesis using assms Append_loop_empty [OF assms] by (auto simp: FileWriter_Append_loop.simps [of V "[]"])
next
  case False
  then have n: "min (length src) (ab_capacity (fw_buf w) - CurrentSize (fw_buf w)) = 0" and src: "src \<noteq> []" by auto
  from Append_loop_step [OF assms src] src obtain w' where "pages_inv contents D w'" "filesize w' = filesize w"
    "FileWriter_Append_loop V src w = FileWriter_Append_loop V src w'" "ab_bytes (fw_buf w') = []" unfolding n by auto
  moreover from this have "CurrentSize (fw_buf w') < ab_capacity (fw_buf w')" by (simp add: pages_inv_def CurrentSize_def)
  ultimately show ?thesis using Append_loop_empty [OF assms(1), of D w' src] by auto
qed

section \<open>Writing, and closing\<close>

definition pages_ok :: "('d \<Rightarrow> bytes) \<Rightarrow> bytes \<Rightarrow> 'd WritableFileWriter \<Rightarrow> bool" where
  "pages_ok contents D w \<longleftrightarrow> pages_inv contents D w \<and> filesize w = length D"

lemma PrepareWrite_pages:
  assumes "positional V contents"
  shows "\<exists>f'. PrepareWrite V a n f = Some f' \<and> contents (wf_state f') = contents (wf_state f)"
proof -
  let ?b = "preallocation_block_size f" and ?l = "last_preallocated_block f"
  obtain d where "op_Allocate V (?b * ?l) (?b * ((a + n + ?b - 1) div ?b - ?l)) (wf_state f) = Some (Status_OK, d)"
    "contents d = contents (wf_state f)" using positional_harmless(6) [OF assms] unfolding harmless_def by blast
  then show ?thesis by (simp add: PrepareWrite_def Let_def)
qed

lemma Append_pages:
  assumes "positional V contents" "pages_ok contents D w"
  shows "\<exists>w'. FileWriter_Append V x w = Some (Status_OK, w') \<and> pages_ok contents (D @ x) w'"
proof -
  obtain f0 where f0: "writable_file w = Some f0" using assms(2) by (auto simp: pages_ok_def pages_inv_def)
  obtain f where f: "PrepareWrite V (filesize w) (length x) f0 = Some f" "contents (wf_state f) = contents (wf_state f0)"
    using PrepareWrite_pages [OF assms(1)] by blast
  let ?w = "w\<lparr>writable_file := Some f, pending_sync := True, pending_fsync := True\<rparr>"
  have inv: "pages_inv contents D ?w" using assms(2) f(2) f0 by (auto simp: pages_ok_def pages_inv_def in_file_def)
  have os: "\<not> use_os_buffer w" using assms(2) by (simp add: pages_ok_def pages_inv_def)
  obtain w1 where w1: "FileWriter_Append_loop V x ?w = Some (Status_OK, w1)" "pages_inv contents (D @ x) w1" "filesize w1 = filesize w"
    using Append_loop_pages [OF assms(1) inv, of x] by auto
  let ?w2 = "w1\<lparr>filesize := filesize w1 + length x\<rparr>"
  have "sync_to (filesize w1) \<le> sync_to (filesize w1 + length x)" by (rule sync_to_mono) simp
  then have "pages_inv contents (D @ x) ?w2" using w1(2) by (auto simp: pages_inv_def in_file_def)
  moreover have "FileWriter_Append V x w = Some (Status_OK, ?w2)" using f0 f(1) w1(1) os by (simp add: FileWriter_Append_def make_room_def)
  ultimately show ?thesis using w1(3) assms(2) by (simp add: pages_ok_def)
qed

lemma Sync_pages:
  assumes "positional V contents" "pages_ok contents D w"
  shows "\<exists>w'. FileWriter_Sync V use_fsync w = Some (Status_OK, w') \<and> pages_ok contents D w'"
proof -
  obtain w1 where w1: "FileWriter_Flush V w = Some (Status_OK, w1)" "pages_inv contents D w1" "filesize w1 = filesize w"
    using Flush_pages [OF assms(1), of D w] assms(2) by (auto simp: pages_ok_def)
  have "harmless contents (\<lambda>d. True) (if use_fsync then op_Fsync V else op_Sync V)" using positional_harmless [OF assms(1)] by simp
  moreover have "writable_file w1 \<noteq> None" using w1(2) by (simp add: pages_inv_def)
  ultimately obtain f where f: "SyncInternal V use_fsync w1 = Some (Status_OK, w1\<lparr>writable_file := Some f\<rparr>)"
    "contents (wf_state f) = in_file contents w1" unfolding SyncInternal_def using on_file_calls by blast
  show ?thesis using w1 f assms(2) by (auto simp: FileWriter_Sync_def pages_ok_def pages_inv_def in_file_def)
qed

lemma fw_step_pages:
  assumes "positional V contents" "pages_ok contents D w"
  shows "\<exists>w'. fw_step V c w = Some (Status_OK, w') \<and> pages_ok contents (D @ appended c) w'"
proof (cases c)
  case Call_Flush
  then show ?thesis using Flush_pages [OF assms(1), of D w] assms(2) by (auto simp: pages_ok_def)
qed (use Append_pages [OF assms] Sync_pages [OF assms] in auto)

lemma fw_calls_pages:
  "positional V contents \<Longrightarrow> pages_ok contents D w \<Longrightarrow>
   \<exists>w'. fw_calls V cs w = Some (Status_OK, w') \<and> pages_ok contents (D @ concat (map appended cs)) w'"
proof (induction cs arbitrary: D w)
  case (Cons c cs)
  then show ?case using fw_step_pages [OF Cons.prems, of c] by fastforce
qed simp

lemma Close_pages:
  assumes "positional V contents" "pages_ok contents D w"
  shows "\<exists>d w'. FileWriter_Close V w = Some (Status_OK, Some d, w') \<and> contents d = D"
proof -
  obtain w1 where w1: "FileWriter_Flush V w = Some (Status_OK, w1)" "pages_inv contents D w1" "filesize w1 = length D"
    "length D \<le> length (in_file contents w1)" "take (length D) (in_file contents w1) = D"
    using Flush_pages [OF assms(1), of D w] assms(2) by (auto simp: pages_ok_def)
  obtain f1 where f1: "writable_file w1 = Some f1" using w1(2) by (auto simp: pages_inv_def)
  obtain d where d: "op_Truncate V (length D) (wf_state f1) = Some (Status_OK, d)" "contents d = D"
    using positional_Truncate [OF assms(1), of "length D" "wf_state f1"] w1(4,5) f1 by (auto simp: in_file_def)
  let ?w2 = "w1\<lparr>writable_file := Some (f1\<lparr>wf_state := d\<rparr>)\<rparr>"
  have tr: "on_file (op_Truncate V (filesize w1)) w1 = Some (Status_OK, ?w2)" using f1 d(1) w1(3) by (simp add: on_file_def)
  have "writable_file ?w2 \<noteq> None" by simp
  from on_file_calls [OF this positional_harmless(4) [OF assms(1)]] obtain f where
    f: "on_file (op_Close V) ?w2 = Some (Status_OK, ?w2\<lparr>writable_file := Some f\<rparr>)" "contents (wf_state f) = in_file contents ?w2" by blast
  have "writable_file w \<noteq> None" using assms(2) by (auto simp: pages_ok_def pages_inv_def)
  then show ?thesis using w1(1) tr f d(2) by (simp add: FileWriter_Close_def first_error_def in_file_def)
qed

lemma new_pages:
  assumes "\<not> op_UseOSBuffer V" "op_GetRequiredBufferAlignment V > 0"
    "op_GetRequiredBufferAlignment V AND (op_GetRequiredBufferAlignment V - 1) = 0" "contents (wf_state f) = []"
  shows "\<exists>w. WritableFileWriter_new V f mx bps lim = Some w \<and> pages_ok contents [] w"
proof -
  obtain k where k: "op_GetRequiredBufferAlignment V = 2 ^ k" using and_pred_zero [OF assms(2,3)] by blast
  have "65536 \<le> Roundup 65536 (2 ^ k)" by (rule Roundup_ge) simp
  then have "0 < Roundup 65536 (2 ^ k)" by linarith
  then show ?thesis using assms k Roundup_mod
    by (auto simp: WritableFileWriter_new_def set_Alignment_def AllocateNewBuffer_def AlignedBuffer_new_def pages_ok_def pages_inv_def in_file_def)
qed


text \<open>A file of four-byte pages in memory.\<close>

definition page_file :: "bytes WritableFile_ops" where
  "page_file = (WritableFile_defaults (\<lambda>x d. Some (Status_OK, d @ x)) (\<lambda>d. Some (Status_OK, d)) (\<lambda>d. Some (Status_OK, d)) (\<lambda>d. Some (Status_OK, d)))
     \<lparr>op_PositionedAppend := \<lambda>x off d. Some (Status_OK, overwrite off x d), op_Truncate := \<lambda>n d. Some (Status_OK, take n d),
      op_UseOSBuffer := False, op_GetRequiredBufferAlignment := 4\<rparr>"

lemma page_file_positional: "positional page_file (\<lambda>d. d)"
  by (simp add: positional_def page_file_def WritableFile_defaults_def harmless_def)


end
