(* ===== verification/Mock_Env.thy ===== *)
theory Mock_Env
  imports Statuses Hashing
begin

text \<open>
  The in-memory file system (util/mock_env.h and mock_env.cc): \<open>MemFile\<close> with its reference count,
  the file handles, and the environment with its map from normalised paths to files.  Files live in a
  store of objects; a file whose count drops to zero is freed, and using it afterwards is undefined,
  as is using the null pointer the map yields for a name it does not hold.  The current time is an
  argument of the operations that record it.
\<close>

section \<open>MemFile\<close>

record MemFile =
  refs :: int
  is_lock_file :: bool
  locked :: bool
  mem_data :: bytes
  modified_time :: u64
  rnd :: u32
  fsynced_bytes :: nat

definition MemFile_new :: "u64 \<Rightarrow> bytes \<Rightarrow> bool \<Rightarrow> MemFile option" where
  "MemFile_new now fn lock_file = do {
     seed \<leftarrow> MurmurHash64A fn 0;
     Some \<lparr>refs = 0, is_lock_file = lock_file, locked = False, mem_data = [], modified_time = now,
       rnd = Random_new (ucast seed), fsynced_bytes = 0\<rparr> }"

definition MemFile_Ref :: "MemFile \<Rightarrow> MemFile" where
  "MemFile_Ref f = f\<lparr>refs := refs f + 1\<rparr>"

definition MemFile_Lock :: "MemFile \<Rightarrow> (bool \<times> MemFile) option" where
  "MemFile_Lock f =
     (if is_lock_file f then Some (if locked f then (False, f) else (True, f\<lparr>locked := True\<rparr>)) else None)"

definition MemFile_Unlock :: "MemFile \<Rightarrow> MemFile option" where
  "MemFile_Unlock f = (if is_lock_file f then Some (f\<lparr>locked := False\<rparr>) else None)"

text \<open>The inner \<open>None\<close>: the object has been deleted.\<close>

definition MemFile_Unref :: "MemFile \<Rightarrow> MemFile option option" where
  "MemFile_Unref f =
     (if refs f - 1 \<ge> 0 then Some (if refs f - 1 \<le> 0 then None else Some (f\<lparr>refs := refs f - 1\<rparr>)) else None)"

definition MemFile_Size :: "MemFile \<Rightarrow> nat" where
  "MemFile_Size f = length (mem_data f)"

definition MemFile_Truncate :: "nat \<Rightarrow> MemFile \<Rightarrow> MemFile" where
  "MemFile_Truncate n f = (if n < MemFile_Size f then f\<lparr>mem_data := take n (mem_data f)\<rparr> else f)"

text \<open>The bytes from \<open>pos\<close> to \<open>end\<close> become random ones.\<close>

fun corrupt_loop :: "nat \<Rightarrow> nat \<Rightarrow> bytes \<Rightarrow> u32 \<Rightarrow> (bytes \<times> u32) option" where
  "corrupt_loop 0 pos d r = Some (d, r)"
| "corrupt_loop (Suc n) pos d r = do {
     (v, r) \<leftarrow> Random_Uniform 256 r;
     if pos < length d then corrupt_loop n (Suc pos) (d[pos := ucast v]) r else None }"

definition MemFile_CorruptBuffer :: "MemFile \<Rightarrow> MemFile option" where
  "MemFile_CorruptBuffer f =
     (if fsynced_bytes f \<ge> MemFile_Size f then Some f
      else do {
        let buffered_bytes = MemFile_Size f - fsynced_bytes f;
        (v, r) \<leftarrow> Random_Uniform (int buffered_bytes) (rnd f);
        let start = fsynced_bytes f + unat v;
        let stop = min (start + 512) (MemFile_Size f);
        (d, r) \<leftarrow> corrupt_loop (stop - start) start (mem_data f) r;
        Some (f\<lparr>mem_data := d, rnd := r\<rparr>) })"

definition MemFile_Read :: "nat \<Rightarrow> nat \<Rightarrow> MemFile \<Rightarrow> (Status \<times> bytes) option" where
  "MemFile_Read offset n f =
     (if offset > MemFile_Size f then do { s \<leftarrow> IOError_msg (lit ''Offset greater than file size.'') []; Some (s, []) }
      else
        (let available = MemFile_Size f - offset;
             n = (if n > available then available else n) in
         if n = 0 then Some (Status_OK, []) else Some (Status_OK, take n (drop offset (mem_data f)))))"

definition MemFile_Append :: "u64 \<Rightarrow> bytes \<Rightarrow> MemFile \<Rightarrow> Status \<times> MemFile" where
  "MemFile_Append now x f = (Status_OK, f\<lparr>mem_data := mem_data f @ x, modified_time := now\<rparr>)"

definition MemFile_Fsync :: "MemFile \<Rightarrow> Status \<times> MemFile" where
  "MemFile_Fsync f = (Status_OK, f\<lparr>fsynced_bytes := MemFile_Size f\<rparr>)"

section \<open>The environment's state\<close>

text \<open>\<open>std::map\<close>, ordered by name; its values are pointers, possibly null.\<close>

type_synonym file_map = "(bytes \<times> nat option) list"

record MockEnv =
  file_map :: file_map
  files :: "nat \<Rightarrow> MemFile option"
  next_file :: nat

fun fm_insert :: "bytes \<Rightarrow> nat option \<Rightarrow> file_map \<Rightarrow> file_map" where
  "fm_insert k v [] = [(k, v)]"
| "fm_insert k v ((j, u) # m) = (if k < j then (k, v) # (j, u) # m else if k = j then (k, v) # m else (j, u) # fm_insert k v m)"

definition fm_erase :: "bytes \<Rightarrow> file_map \<Rightarrow> file_map" where
  "fm_erase k m = filter (\<lambda>(j, u). j \<noteq> k) m"

text \<open>\<open>operator[]\<close>: inserts a null pointer for a missing name.\<close>

definition fm_index :: "bytes \<Rightarrow> file_map \<Rightarrow> nat option \<times> file_map" where
  "fm_index k m = (case map_of m k of Some p \<Rightarrow> (p, m) | None \<Rightarrow> (None, fm_insert k None m))"

text \<open>Access through a pointer.\<close>

definition deref :: "MockEnv \<Rightarrow> nat option \<Rightarrow> MemFile option" where
  "deref e p = do { a \<leftarrow> p; files e a }"

definition store :: "nat option \<Rightarrow> MemFile \<Rightarrow> MockEnv \<Rightarrow> MockEnv option" where
  "store p f e = do { a \<leftarrow> p; Some (e\<lparr>files := (files e)(a \<mapsto> f)\<rparr>) }"

definition env_Ref :: "nat option \<Rightarrow> MockEnv \<Rightarrow> MockEnv option" where
  "env_Ref p e = do { f \<leftarrow> deref e p; store p (MemFile_Ref f) e }"

definition env_Unref :: "nat option \<Rightarrow> MockEnv \<Rightarrow> MockEnv option" where
  "env_Unref p e = do {
     a \<leftarrow> p;
     f \<leftarrow> files e a;
     r \<leftarrow> MemFile_Unref f;
     Some (e\<lparr>files := (files e)(a := r)\<rparr>) }"

definition env_new_file :: "u64 \<Rightarrow> bytes \<Rightarrow> bool \<Rightarrow> MockEnv \<Rightarrow> (nat option \<times> MockEnv) option" where
  "env_new_file now fn lock_file e = do {
     f \<leftarrow> MemFile_new now fn lock_file;
     Some (Some (next_file e), e\<lparr>files := (files e)(next_file e \<mapsto> f), next_file := Suc (next_file e)\<rparr>) }"

section \<open>File handles\<close>

text \<open>A handle holds a pointer to its file and one reference to it.\<close>

record MockSequentialFile =
  sf_file :: "nat option"
  sf_pos :: nat

definition MockSequentialFile_new :: "nat option \<Rightarrow> MockEnv \<Rightarrow> (MockSequentialFile \<times> MockEnv) option" where
  "MockSequentialFile_new p e = do { e \<leftarrow> env_Ref p e; Some (\<lparr>sf_file = p, sf_pos = 0\<rparr>, e) }"

definition MockSequentialFile_delete :: "MockSequentialFile \<Rightarrow> MockEnv \<Rightarrow> MockEnv option" where
  "MockSequentialFile_delete h e = env_Unref (sf_file h) e"

definition MockSequentialFile_Read :: "nat \<Rightarrow> MockSequentialFile \<Rightarrow> MockEnv \<Rightarrow> (Status \<times> bytes \<times> MockSequentialFile) option" where
  "MockSequentialFile_Read n h e = do {
     f \<leftarrow> deref e (sf_file h);
     (s, r) \<leftarrow> MemFile_Read (sf_pos h) n f;
     Some (s, r, if ok s then h\<lparr>sf_pos := sf_pos h + length r\<rparr> else h) }"

definition MockSequentialFile_Skip :: "nat \<Rightarrow> MockSequentialFile \<Rightarrow> MockEnv \<Rightarrow> (Status \<times> MockSequentialFile) option" where
  "MockSequentialFile_Skip n h e = do {
     f \<leftarrow> deref e (sf_file h);
     if sf_pos h > MemFile_Size f then do { s \<leftarrow> IOError_msg (lit ''pos_ > file_->Size()'') []; Some (s, h) }
     else do {
       let available = MemFile_Size f - sf_pos h;
       Some (Status_OK, h\<lparr>sf_pos := sf_pos h + (if n > available then available else n)\<rparr>) } }"

definition MockRandomAccessFile_new :: "nat option \<Rightarrow> MockEnv \<Rightarrow> (nat option \<times> MockEnv) option" where
  "MockRandomAccessFile_new p e = do { e \<leftarrow> env_Ref p e; Some (p, e) }"

definition MockRandomAccessFile_Read :: "nat \<Rightarrow> nat \<Rightarrow> nat option \<Rightarrow> MockEnv \<Rightarrow> (Status \<times> bytes) option" where
  "MockRandomAccessFile_Read offset n p e = do { f \<leftarrow> deref e p; MemFile_Read offset n f }"

definition MockWritableFile_new :: "nat option \<Rightarrow> MockEnv \<Rightarrow> (nat option \<times> MockEnv) option" where
  "MockWritableFile_new p e = do { e \<leftarrow> env_Ref p e; Some (p, e) }"

definition MockWritableFile_delete :: "nat option \<Rightarrow> MockEnv \<Rightarrow> MockEnv option" where
  "MockWritableFile_delete p e = env_Unref p e"

text \<open>The burst size of the rate limiter, if there is one and the file has a priority below \<open>IO_TOTAL\<close>.\<close>

definition Mock_RequestToken :: "nat option \<Rightarrow> nat \<Rightarrow> nat" where
  "Mock_RequestToken burst n = (case burst of None \<Rightarrow> n | Some b \<Rightarrow> min n b)"

partial_function (option) append_loop :: "nat option \<Rightarrow> u64 \<Rightarrow> bytes \<Rightarrow> MemFile \<Rightarrow> (Status \<times> MemFile) option" where
  "append_loop burst now x f =
     (if x = [] then Some (Status_OK, f)
      else do {
        let n = Mock_RequestToken burst (length x);
        let (s, f) = MemFile_Append now (take n x) f;
        if \<not> ok s then Some (s, f) else append_loop burst now (drop n x) f })"

definition MockWritableFile_Append :: "nat option \<Rightarrow> u64 \<Rightarrow> bytes \<Rightarrow> nat option \<Rightarrow> MockEnv \<Rightarrow> (Status \<times> MockEnv) option" where
  "MockWritableFile_Append burst now x p e = do {
     f \<leftarrow> deref e p;
     (s, f) \<leftarrow> append_loop burst now x f;
     e \<leftarrow> store p f e;
     Some (s, e) }"

definition MockWritableFile_Truncate :: "nat \<Rightarrow> nat option \<Rightarrow> MockEnv \<Rightarrow> (Status \<times> MockEnv) option" where
  "MockWritableFile_Truncate n p e = Some (Status_OK, e)"

definition MockWritableFile_Close :: "nat option \<Rightarrow> MockEnv \<Rightarrow> (Status \<times> MockEnv) option" where
  "MockWritableFile_Close p e = do { f \<leftarrow> deref e p; let (s, f) = MemFile_Fsync f; e \<leftarrow> store p f e; Some (s, e) }"

definition MockWritableFile_Flush :: "nat option \<Rightarrow> MockEnv \<Rightarrow> (Status \<times> MockEnv) option" where
  "MockWritableFile_Flush p e = Some (Status_OK, e)"

definition MockWritableFile_Sync :: "nat option \<Rightarrow> MockEnv \<Rightarrow> (Status \<times> MockEnv) option" where
  "MockWritableFile_Sync p e = do { f \<leftarrow> deref e p; let (s, f) = MemFile_Fsync f; e \<leftarrow> store p f e; Some (s, e) }"

definition MockWritableFile_GetFileSize :: "nat option \<Rightarrow> MockEnv \<Rightarrow> nat option" where
  "MockWritableFile_GetFileSize p e = do { f \<leftarrow> deref e p; Some (MemFile_Size f) }"

section \<open>The operations of the environment\<close>

definition slash :: byte where "slash = 47"

fun NormalizePath_loop :: "bytes \<Rightarrow> bytes \<Rightarrow> bytes" where
  "NormalizePath_loop dst [] = dst"
| "NormalizePath_loop dst (c # cs) =
     (if dst \<noteq> [] \<and> c = slash \<and> last dst = slash then NormalizePath_loop dst cs
      else NormalizePath_loop (dst @ [c]) cs)"

definition NormalizePath :: "bytes \<Rightarrow> bytes" where
  "NormalizePath path = NormalizePath_loop [] path"

definition DeleteFileInternal :: "bytes \<Rightarrow> MockEnv \<Rightarrow> MockEnv option" where
  "DeleteFileInternal fname e =
     (if fname = NormalizePath fname then
        (case map_of (file_map e) fname of
           None \<Rightarrow> Some e
         | Some p \<Rightarrow> do { e \<leftarrow> env_Unref p e; Some (e\<lparr>file_map := fm_erase fname (file_map e)\<rparr>) })
      else None)"

text \<open>Opening returns the file behind the handle, which holds a reference to it.\<close>

definition NewSequentialFile :: "bytes \<Rightarrow> MockEnv \<Rightarrow> (Status \<times> MockSequentialFile option \<times> MockEnv) option" where
  "NewSequentialFile fname e =
     (let fn = NormalizePath fname in
      case map_of (file_map e) fn of
        None \<Rightarrow> do { s \<leftarrow> IOError_msg fn (lit ''File not found''); Some (s, None, e) }
      | Some p \<Rightarrow> do {
          f \<leftarrow> deref e p;
          if is_lock_file f then do { s \<leftarrow> InvalidArgument_msg fn (lit ''Cannot open a lock file.''); Some (s, None, e) }
          else do { (h, e) \<leftarrow> MockSequentialFile_new p e; Some (Status_OK, Some h, e) } })"

definition NewRandomAccessFile :: "bytes \<Rightarrow> MockEnv \<Rightarrow> (Status \<times> nat option \<times> MockEnv) option" where
  "NewRandomAccessFile fname e =
     (let fn = NormalizePath fname in
      case map_of (file_map e) fn of
        None \<Rightarrow> do { s \<leftarrow> IOError_msg fn (lit ''File not found''); Some (s, None, e) }
      | Some p \<Rightarrow> do {
          f \<leftarrow> deref e p;
          if is_lock_file f then do { s \<leftarrow> InvalidArgument_msg fn (lit ''Cannot open a lock file.''); Some (s, None, e) }
          else do { (h, e) \<leftarrow> MockRandomAccessFile_new p e; Some (Status_OK, h, e) } })"

definition NewWritableFile :: "u64 \<Rightarrow> bytes \<Rightarrow> MockEnv \<Rightarrow> (Status \<times> nat option \<times> MockEnv) option" where
  "NewWritableFile now fname e = do {
     let fn = NormalizePath fname;
     e \<leftarrow> (if map_of (file_map e) fn \<noteq> None then DeleteFileInternal fn e else Some e);
     (p, e) \<leftarrow> env_new_file now fn False e;
     e \<leftarrow> env_Ref p e;
     (h, e) \<leftarrow> MockWritableFile_new p (e\<lparr>file_map := fm_insert fn p (file_map e)\<rparr>);
     Some (Status_OK, h, e) }"

text \<open>A logger opens its file for appending, without truncating it.\<close>

definition NewLogger :: "u64 \<Rightarrow> bytes \<Rightarrow> MockEnv \<Rightarrow> (Status \<times> nat option \<times> MockEnv) option" where
  "NewLogger now fname e = do {
     let fn = NormalizePath fname;
     (p, e) \<leftarrow> (case map_of (file_map e) fn of
        None \<Rightarrow> do {
          (p, e) \<leftarrow> env_new_file now fn False e;
          e \<leftarrow> env_Ref p e;
          Some (p, e\<lparr>file_map := fm_insert fn p (file_map e)\<rparr>) }
      | Some p \<Rightarrow> Some (p, e));
     (h, e) \<leftarrow> MockWritableFile_new p e;
     Some (Status_OK, h, e) }"

definition below_dir :: "bytes \<Rightarrow> bytes \<Rightarrow> bool" where
  "below_dir d filename \<longleftrightarrow> length filename \<ge> length d + 1 \<and> filename ! length d = slash \<and> take (length d) filename = d"

definition FileExists :: "bytes \<Rightarrow> MockEnv \<Rightarrow> Status" where
  "FileExists fname e =
     (let fn = NormalizePath fname in
      if map_of (file_map e) fn \<noteq> None then Status_OK
      else if list_ex (\<lambda>(filename, p). below_dir fn filename) (file_map e) then Status_OK
      else NotFound)"

definition GetChildren :: "bytes \<Rightarrow> MockEnv \<Rightarrow> Status \<times> bytes list" where
  "GetChildren dir e =
     (let d = NormalizePath dir;
          children = map (\<lambda>(filename, p). takeWhile (\<lambda>c. c \<noteq> slash) (drop (length d + 1) filename))
            (filter (\<lambda>(filename, p). below_dir d filename) (file_map e)) in
      (Status_OK, remdups_adj children))"

definition DeleteFile :: "bytes \<Rightarrow> MockEnv \<Rightarrow> (Status \<times> MockEnv) option" where
  "DeleteFile fname e =
     (let fn = NormalizePath fname in
      if map_of (file_map e) fn = None then do { s \<leftarrow> IOError_msg fn (lit ''File not found''); Some (s, e) }
      else do { e \<leftarrow> DeleteFileInternal fn e; Some (Status_OK, e) })"

definition GetFileSize :: "bytes \<Rightarrow> MockEnv \<Rightarrow> (Status \<times> nat option) option" where
  "GetFileSize fname e =
     (let fn = NormalizePath fname in
      case map_of (file_map e) fn of
        None \<Rightarrow> do { s \<leftarrow> IOError_msg fn (lit ''File not found''); Some (s, None) }
      | Some p \<Rightarrow> do { f \<leftarrow> deref e p; Some (Status_OK, Some (MemFile_Size f)) })"

definition GetFileModificationTime :: "bytes \<Rightarrow> MockEnv \<Rightarrow> (Status \<times> u64 option) option" where
  "GetFileModificationTime fname e =
     (let fn = NormalizePath fname in
      case map_of (file_map e) fn of
        None \<Rightarrow> do { s \<leftarrow> IOError_msg fn (lit ''File not found''); Some (s, None) }
      | Some p \<Rightarrow> do { f \<leftarrow> deref e p; Some (Status_OK, Some (modified_time f)) })"

definition RenameFile :: "bytes \<Rightarrow> bytes \<Rightarrow> MockEnv \<Rightarrow> (Status \<times> MockEnv) option" where
  "RenameFile src dst e =
     (let s = NormalizePath src; t = NormalizePath dst in
      if map_of (file_map e) s = None then do { st \<leftarrow> IOError_msg s (lit ''File not found''); Some (st, e) }
      else do {
        e \<leftarrow> DeleteFileInternal t e;
        let (p, m) = fm_index s (file_map e);
        Some (Status_OK, e\<lparr>file_map := fm_erase s (fm_insert t p m)\<rparr>) })"

definition LinkFile :: "bytes \<Rightarrow> bytes \<Rightarrow> MockEnv \<Rightarrow> (Status \<times> MockEnv) option" where
  "LinkFile src dst e =
     (let s = NormalizePath src; t = NormalizePath dst in
      if map_of (file_map e) s = None then do { st \<leftarrow> IOError_msg s (lit ''File not found''); Some (st, e) }
      else do {
        e \<leftarrow> DeleteFileInternal t e;
        let (p, m) = fm_index s (file_map e);
        Some (Status_OK, e\<lparr>file_map := fm_insert t p m\<rparr>) })"

text \<open>The lock a successful call returns is the name of its file.\<close>

definition LockFile :: "u64 \<Rightarrow> bytes \<Rightarrow> MockEnv \<Rightarrow> (Status \<times> bytes option \<times> MockEnv) option" where
  "LockFile now fname e =
     (let fn = NormalizePath fname in
      case map_of (file_map e) fn of
        Some p \<Rightarrow> do {
          f \<leftarrow> deref e p;
          if \<not> is_lock_file f then do { s \<leftarrow> InvalidArgument_msg fname (lit ''Not a lock file.''); Some (s, None, e) }
          else do {
            (got, f) \<leftarrow> MemFile_Lock f;
            e \<leftarrow> store p f e;
            if \<not> got then do { s \<leftarrow> IOError_msg fn (lit ''Lock is already held.''); Some (s, None, e) }
            else Some (Status_OK, Some fn, e) } }
      | None \<Rightarrow> do {
          (p, e) \<leftarrow> env_new_file now fn True e;
          e \<leftarrow> env_Ref p e;
          f \<leftarrow> deref e p;
          (got, f) \<leftarrow> MemFile_Lock f;
          e \<leftarrow> store p f e;
          Some (Status_OK, Some fn, e\<lparr>file_map := fm_insert fn p (file_map e)\<rparr>) })"

definition UnlockFile :: "bytes \<Rightarrow> MockEnv \<Rightarrow> (Status \<times> MockEnv) option" where
  "UnlockFile fn e =
     (case map_of (file_map e) fn of
        Some p \<Rightarrow> do {
          f \<leftarrow> deref e p;
          if \<not> is_lock_file f then do { s \<leftarrow> InvalidArgument_msg fn (lit ''Not a lock file.''); Some (s, e) }
          else do { f \<leftarrow> MemFile_Unlock f; e \<leftarrow> store p f e; Some (Status_OK, e) } }
      | None \<Rightarrow> Some (Status_OK, e))"

definition MockEnv_Truncate :: "bytes \<Rightarrow> nat \<Rightarrow> MockEnv \<Rightarrow> (Status \<times> MockEnv) option" where
  "MockEnv_Truncate fname n e =
     (let fn = NormalizePath fname in
      case map_of (file_map e) fn of
        None \<Rightarrow> do { s \<leftarrow> IOError_msg fn (lit ''File not found''); Some (s, e) }
      | Some p \<Rightarrow> do { f \<leftarrow> deref e p; e \<leftarrow> store p (MemFile_Truncate n f) e; Some (Status_OK, e) })"

definition MockEnv_CorruptBuffer :: "bytes \<Rightarrow> MockEnv \<Rightarrow> (Status \<times> MockEnv) option" where
  "MockEnv_CorruptBuffer fname e =
     (let fn = NormalizePath fname in
      case map_of (file_map e) fn of
        None \<Rightarrow> do { s \<leftarrow> IOError_msg fn (lit ''File not found''); Some (s, e) }
      | Some p \<Rightarrow> do {
          f \<leftarrow> deref e p;
          f \<leftarrow> MemFile_CorruptBuffer f;
          e \<leftarrow> store p f e;
          Some (Status_OK, e) })"

fun unref_all :: "file_map \<Rightarrow> MockEnv \<Rightarrow> MockEnv option" where
  "unref_all [] e = Some e"
| "unref_all ((k, p) # m) e = do { e \<leftarrow> env_Unref p e; unref_all m e }"

definition MockEnv_delete :: "MockEnv \<Rightarrow> MockEnv option" where
  "MockEnv_delete e = unref_all (file_map e) e"

definition MockEnv_new :: MockEnv where
  "MockEnv_new = \<lparr>file_map = [], files = Map.empty, next_file = 0\<rparr>"

end
