(* ===== verification/Mock_Safety.thy ===== *)
theory Mock_Safety
  imports Mock_Env
begin

text \<open>
  The file system of util/mock_env.cc keeps its reference counts: in every state its operations can
  produce, short of links, the count of a file is the number of names and open handles that refer to
  it, so no operation touches a freed file.
\<close>

section \<open>Paths\<close>

abbreviation single_slashes :: "bytes \<Rightarrow> bool" where
  "single_slashes \<equiv> successively (\<lambda>a b. \<not> (a = slash \<and> b = slash))"

lemma NormalizePath_loop_single: "single_slashes dst \<Longrightarrow> single_slashes (NormalizePath_loop dst cs)"
  by (induction dst cs rule: NormalizePath_loop.induct) (auto simp: successively_append_iff)

lemma NormalizePath_loop_same: "single_slashes (dst @ cs) \<Longrightarrow> NormalizePath_loop dst cs = dst @ cs"
proof (induction dst cs rule: NormalizePath_loop.induct)
  case (2 dst c cs)
  then have "\<not> (dst \<noteq> [] \<and> c = slash \<and> last dst = slash)" by (auto simp: successively_append_iff)
  then show ?case using 2 by (simp only: NormalizePath_loop.simps if_False append_assoc append_Cons append_Nil simp_thms)
qed simp

lemma NormalizePath_idem [simp]: "NormalizePath (NormalizePath p) = NormalizePath p"
  unfolding NormalizePath_def using NormalizePath_loop_same [of "[]"] NormalizePath_loop_single [of "[]" p] by simp

lemma length_NormalizePath_loop: "length (NormalizePath_loop dst cs) \<le> length dst + length cs"
  by (induction dst cs rule: NormalizePath_loop.induct) auto

lemma length_NormalizePath: "length (NormalizePath p) \<le> length p"
  using length_NormalizePath_loop [of "[]" p] by (simp add: NormalizePath_def)

section \<open>The map of names\<close>

definition fm_ok :: "file_map \<Rightarrow> bool" where
  "fm_ok m \<longleftrightarrow> sorted_wrt (<) (map fst m)"

text \<open>How many names refer to a file.\<close>

definition names_of :: "file_map \<Rightarrow> nat \<Rightarrow> nat" where
  "names_of m a = length (filter (\<lambda>(k, p). p = Some a) m)"

lemma fst_fm_insert: "set (map fst (fm_insert k v m)) = insert k (set (map fst m))"
  by (induction k v m rule: fm_insert.induct) auto

lemma fm_ok_insert: "fm_ok m \<Longrightarrow> fm_ok (fm_insert k v m)"
proof (induction k v m rule: fm_insert.induct)
  case (2 k v j u m)
  then show ?case using fst_fm_insert [of k v m] by (auto simp: fm_ok_def)
qed (simp add: fm_ok_def)

lemma fm_ok_erase: "fm_ok m \<Longrightarrow> fm_ok (fm_erase k m)"
  by (induction m) (auto simp: fm_ok_def fm_erase_def)

lemma map_of_insert: "fm_ok m \<Longrightarrow> map_of (fm_insert k v m) = (map_of m)(k \<mapsto> v)"
  by (induction k v m rule: fm_insert.induct) (auto simp: fm_ok_def fun_eq_iff)

lemma map_of_erase: "map_of (fm_erase k m) = (map_of m)(k := None)"
  by (induction m) (auto simp: fm_erase_def fun_eq_iff)

lemma set_fm_insert: "set (fm_insert k v m) \<subseteq> insert (k, v) (set m)"
  by (induction k v m rule: fm_insert.induct) auto

lemma set_fm_erase: "set (fm_erase k m) \<subseteq> set m"
  by (auto simp: fm_erase_def)

lemma erase_absent: "map_of m k = None \<Longrightarrow> fm_erase k m = m"
  by (induction m) (auto simp: fm_erase_def split: if_splits)

lemma names_of_simps [simp]: "names_of [] a = 0" "names_of ((k, p) # m) a = (if p = Some a then 1 else 0) + names_of m a"
  by (simp_all add: names_of_def)

lemma names_of_insert: "map_of m k = None \<Longrightarrow> names_of (fm_insert k v m) a = (if v = Some a then 1 else 0) + names_of m a"
  by (induction k v m rule: fm_insert.induct) (auto split: if_splits)

lemma names_of_erase: "fm_ok m \<Longrightarrow> map_of m k = Some p \<Longrightarrow> names_of m a = (if p = Some a then 1 else 0) + names_of (fm_erase k m) a"
proof (induction m)
  case (Cons x m)
  obtain j u where x: "x = (j, u)" by (cases x)
  show ?case
  proof (cases "j = k")
    case True
    then have "map_of m k = None" using Cons.prems x by (fastforce simp: fm_ok_def map_of_eq_None_iff)
    then show ?thesis using True Cons.prems x erase_absent [of m k] by (simp add: fm_erase_def)
  next
    case False
    then show ?thesis using Cons x by (simp add: fm_erase_def fm_ok_def)
  qed
qed simp

section \<open>The invariant\<close>

text \<open>\<open>H\<close> counts the open handles of each file.\<close>

definition env_inv :: "(nat \<Rightarrow> nat) \<Rightarrow> MockEnv \<Rightarrow> bool" where
  "env_inv H e \<longleftrightarrow> fm_ok (file_map e) \<and>
     (\<forall>(n, p) \<in> set (file_map e). NormalizePath n = n \<and> p \<noteq> None) \<and>
     (\<forall>a. files e a = None \<longrightarrow> names_of (file_map e) a + H a = 0) \<and>
     (\<forall>a f. files e a = Some f \<longrightarrow> refs f = int (names_of (file_map e) a + H a) \<and> 0 < names_of (file_map e) a + H a) \<and>
     (\<forall>a \<ge> next_file e. files e a = None)"

lemma env_inv_new: "env_inv (\<lambda>_. 0) MockEnv_new"
  by (simp add: env_inv_def MockEnv_new_def fm_ok_def)

text \<open>Names and handles refer to live files.\<close>

lemma names_of_pos: "map_of m k = Some (Some a) \<Longrightarrow> 0 < names_of m a"
  by (induction m) (auto split: if_splits)

lemma handle_live: "env_inv H e \<Longrightarrow> 0 < H a \<Longrightarrow> \<exists>f. files e a = Some f"
  unfolding env_inv_def by (metis add_is_0 less_irrefl not_Some_eq)

lemma name_live:
  assumes "env_inv H e" "map_of (file_map e) n = Some p"
  obtains a f where "p = Some a" "files e a = Some f" "0 < names_of (file_map e) a"
proof -
  have "(n, p) \<in> set (file_map e)" using assms(2) by (rule map_of_SomeD)
  then obtain a where a: "p = Some a" using assms(1) by (cases p) (auto simp: env_inv_def)
  then have n: "0 < names_of (file_map e) a" using assms(2) names_of_pos by blast
  then obtain f where "files e a = Some f" using assms(1) unfolding env_inv_def by (metis add_is_0 less_irrefl not_Some_eq)
  then show ?thesis using that a n by blast
qed

lemma inv_refs: "env_inv H e \<Longrightarrow> files e a = Some f \<Longrightarrow> refs f = int (names_of (file_map e) a + H a) \<and> 0 < names_of (file_map e) a + H a"
  by (simp add: env_inv_def)

lemma inv_free: "env_inv H e \<Longrightarrow> files e a = None \<Longrightarrow> names_of (file_map e) a + H a = 0"
  by (simp add: env_inv_def)

section \<open>Effect of the operations\<close>

text \<open>What can be seen of a file: everything but its reference count.\<close>

definition visible :: "MemFile \<Rightarrow> MemFile" where
  "visible f = f\<lparr>refs := 0\<rparr>"

text \<open>Names and files as a user sees them.\<close>

definition view :: "MockEnv \<Rightarrow> bytes \<Rightarrow> MemFile option" where
  "view e n = (case map_of (file_map e) n of Some (Some a) \<Rightarrow> map_option visible (files e a) | _ \<Rightarrow> None)"

definition content :: "MockEnv \<Rightarrow> nat \<Rightarrow> MemFile option" where
  "content e a = map_option visible (files e a)"

lemma Ref_inv:
  assumes "env_inv H e" "files e a = Some f"
  shows "env_Ref (Some a) e = Some (e\<lparr>files := (files e)(a \<mapsto> f\<lparr>refs := refs f + 1\<rparr>)\<rparr>)"
    "env_inv (H(a := H a + 1)) (e\<lparr>files := (files e)(a \<mapsto> f\<lparr>refs := refs f + 1\<rparr>)\<rparr>)"
  using assms by (auto simp: env_Ref_def deref_def store_def MemFile_Ref_def env_inv_def)

lemma Unref_inv:
  assumes "env_inv H e" "0 < H a"
  obtains e' where "env_Unref (Some a) e = Some e'" "env_inv (H(a := H a - 1)) e'" "file_map e' = file_map e"
    "\<And>b. 0 < names_of (file_map e) b + (H(a := H a - 1)) b \<Longrightarrow> content e' b = content e b"
proof -
  obtain f where f: "files e a = Some f" using handle_live assms by blast
  note r = inv_refs [OF assms(1) f]
  define e' where "e' = e\<lparr>files := (files e)(a := if refs f \<le> 1 then None else Some (f\<lparr>refs := refs f - 1\<rparr>))\<rparr>"
  have "env_Unref (Some a) e = Some e'" using f r assms(2) by (auto simp: env_Unref_def MemFile_Unref_def e'_def)
  moreover have "env_inv (H(a := H a - 1)) e'"
    using assms f r unfolding env_inv_def e'_def by (auto simp: of_nat_diff)
  moreover have "content e' b = content e b" if "0 < names_of (file_map e) b + (H(a := H a - 1)) b" for b
    using that f r assms(2) by (auto simp: e'_def content_def visible_def split: if_splits)
  ultimately show ?thesis using that by (simp add: e'_def)
qed

lemma renamed_inv:
  assumes "env_inv H e" "fm_ok m" "\<forall>(n, p) \<in> set m. NormalizePath n = n \<and> p \<noteq> None"
    "\<And>b. names_of m b + H' b = names_of (file_map e) b + H b"
  shows "env_inv H' (e\<lparr>file_map := m\<rparr>)"
  using assms by (simp add: env_inv_def)

text \<open>A name is one reference: it can be turned into a handle and back.\<close>

lemma unname_inv:
  assumes "env_inv H e" "map_of (file_map e) n = Some (Some a)"
  shows "env_inv (H(a := H a + 1)) (e\<lparr>file_map := fm_erase n (file_map e)\<rparr>)"
proof -
  have ok: "fm_ok (file_map e)" using assms(1) by (simp add: env_inv_def)
  have c: "names_of (file_map e) b + H b = names_of (fm_erase n (file_map e)) b + (H(a := H a + 1)) b" for b
    using names_of_erase [OF ok assms(2), of b] by simp
  have "\<forall>(n, p) \<in> set (fm_erase n (file_map e)). NormalizePath n = n \<and> p \<noteq> None"
    using assms(1) set_fm_erase [of n "file_map e"] by (auto simp only: env_inv_def)
  then show ?thesis by (rule renamed_inv [OF assms(1) fm_ok_erase [OF ok]]) (rule c [symmetric])
qed

lemma name_inv:
  assumes "env_inv H e" "0 < H a" "map_of (file_map e) n = None" "NormalizePath n = n"
  shows "env_inv (H(a := H a - 1)) (e\<lparr>file_map := fm_insert n (Some a) (file_map e)\<rparr>)"
proof -
  have ok: "fm_ok (file_map e)" using assms(1) by (simp add: env_inv_def)
  have c: "names_of (file_map e) b + H b = names_of (fm_insert n (Some a) (file_map e)) b + (H(a := H a - 1)) b" for b
    using names_of_insert [OF assms(3), of "Some a" b] assms(2) by simp
  have "\<forall>(n, p) \<in> set (fm_insert n (Some a) (file_map e)). NormalizePath n = n \<and> p \<noteq> None"
    using assms(1,4) set_fm_insert [of n "Some a" "file_map e"] by (auto simp only: env_inv_def)
  then show ?thesis by (rule renamed_inv [OF assms(1) fm_ok_insert [OF ok]]) (rule c [symmetric])
qed

lemma new_file_ref:
  "env_Ref (Some a) (e\<lparr>files := (files e)(a \<mapsto> f), next_file := k\<rparr>) =
     Some (e\<lparr>next_file := k, files := (files e)(a \<mapsto> MemFile_Ref f)\<rparr>)"
  by (simp add: env_Ref_def deref_def store_def)

lemma new_file_inv:
  assumes "env_inv H e"
  obtains f where "MemFile_new now fn lck = Some f"
    "env_new_file now fn lck e = Some (Some (next_file e), e\<lparr>files := (files e)(next_file e \<mapsto> f), next_file := Suc (next_file e)\<rparr>)"
    "env_inv (H(next_file e := 1)) (e\<lparr>next_file := Suc (next_file e), files := (files e)(next_file e \<mapsto> MemFile_Ref f)\<rparr>)"
    "files e (next_file e) = None" "H (next_file e) = 0"
proof -
  obtain f where f: "MemFile_new now fn lck = Some f" "refs f = 0"
    using MurmurHash64A_total [of fn 0] by (auto simp: MemFile_new_def)
  have n: "files e (next_file e) = None" using assms by (simp add: env_inv_def)
  then have z: "names_of (file_map e) (next_file e) = 0" "H (next_file e) = 0" using inv_free [OF assms n] by simp_all
  have "env_inv (H(next_file e := 1)) (e\<lparr>next_file := Suc (next_file e), files := (files e)(next_file e \<mapsto> MemFile_Ref f)\<rparr>)"
    using assms z f(2) by (auto simp: env_inv_def MemFile_Ref_def)
  then show ?thesis using that f(1) n z by (simp add: env_new_file_def)
qed

lemma env_Unref_map: "env_Unref p (e\<lparr>file_map := m\<rparr>) = map_option (\<lambda>e'. e'\<lparr>file_map := m\<rparr>) (env_Unref p e)"
proof -
  have "e\<lparr>file_map := m, files := x\<rparr> = e\<lparr>files := x, file_map := m\<rparr>" for x by simp
  then show ?thesis by (cases p) (auto simp: env_Unref_def split: bind_splits)
qed

lemma env_Unref_keeps_map: "env_Unref p e = Some e' \<Longrightarrow> file_map e' = file_map e"
  by (auto simp: env_Unref_def split: bind_splits)

text \<open>Deleting a name keeps every file that is still referred to.\<close>

lemma DeleteFileInternal_inv:
  assumes "env_inv H e" "NormalizePath n = n"
  obtains e' where "DeleteFileInternal n e = Some e'" "env_inv H e'" "file_map e' = fm_erase n (file_map e)"
    "\<forall>b. 0 < names_of (file_map e') b + H b \<longrightarrow> content e' b = content e b"
proof (cases "map_of (file_map e) n")
  case None
  then show ?thesis using that [of e] assms erase_absent [OF None] by (simp add: DeleteFileInternal_def)
next
  case (Some p)
  obtain a f where a: "p = Some a" "files e a = Some f" using name_live [OF assms(1) Some] by metis
  define e1 where "e1 = e\<lparr>file_map := fm_erase n (file_map e)\<rparr>"
  have i1: "env_inv (H(a := H a + 1)) e1" using unname_inv [OF assms(1)] Some a by (simp add: e1_def)
  obtain e2 where e2: "env_Unref (Some a) e1 = Some e2" "env_inv ((H(a := H a + 1))(a := (H(a := H a + 1)) a - 1)) e2"
    "file_map e2 = file_map e1"
    "\<And>b. 0 < names_of (file_map e1) b + ((H(a := H a + 1))(a := (H(a := H a + 1)) a - 1)) b \<Longrightarrow> content e2 b = content e1 b"
    by (rule Unref_inv [OF i1, of a]) simp_all
  obtain e3 where e3: "env_Unref (Some a) e = Some e3" "e2 = e3\<lparr>file_map := fm_erase n (file_map e)\<rparr>"
    using e2(1) unfolding e1_def env_Unref_map by auto
  have "DeleteFileInternal n e = Some e2"
    using Some a assms(2) e3 env_Unref_keeps_map [OF e3(1)] by (simp add: DeleteFileInternal_def)
  then show ?thesis using that e2(2-4) by (simp add: e1_def content_def)
qed

lemma error_defined:
  assumes "c \<noteq> kOk" "length m1 + length m2 + 6 < 2 ^ 32"
  obtains s where "Status_of_msg c m1 m2 = Some s" "code s = c" "\<not> ok s"
  using Status_of_msg_ok [OF assms] assms(1) by (auto simp: ok_def)

text \<open>Replacing a file by one with the same count.\<close>

lemma store_inv:
  assumes "env_inv H e" "files e a = Some f" "refs f' = refs f"
  shows "env_inv H (e\<lparr>files := (files e)(a \<mapsto> f')\<rparr>)"
  using assms by (auto simp: env_inv_def)

lemma open_inv:
  assumes "env_inv H e" "map_of (file_map e) n = Some p"
  obtains a e' where "p = Some a" "env_Ref p e = Some e'" "env_inv (H(a := H a + 1)) e'" "file_map e' = file_map e"
    "content e' = content e"
proof -
  obtain a f where a: "p = Some a" "files e a = Some f" using name_live [OF assms] by metis
  have "content (e\<lparr>files := (files e)(a \<mapsto> f\<lparr>refs := refs f + 1\<rparr>)\<rparr>) = content e"
    using a by (auto simp: content_def visible_def fun_eq_iff)
  then show ?thesis using that a Ref_inv [OF assms(1) a(2)] by simp
qed

text \<open>Every name that is not touched shows the same file.\<close>

lemma view_content: "view e n = (case map_of (file_map e) n of Some (Some a) \<Rightarrow> content e a | _ \<Rightarrow> None)"
  by (simp add: view_def content_def split: option.splits)

lemma view_same:
  assumes "map_of (file_map e') n = map_of (file_map e) n"
    "\<And>a. map_of (file_map e) n = Some (Some a) \<Longrightarrow> content e' a = content e a"
  shows "view e' n = view e n"
  using assms by (auto simp: view_content split: option.splits)

lemma NewWritableFile_inv:
  assumes "env_inv H e"
  obtains a e' f where "NewWritableFile now fname e = Some (Status_OK, Some a, e')" "env_inv (H(a := H a + 1)) e'"
    "MemFile_new now (NormalizePath fname) False = Some f" "H a = 0" "content e' a = Some (visible f)"
    "view e' = (view e)(NormalizePath fname \<mapsto> visible f)" "\<And>b. 0 < H b \<Longrightarrow> content e' b = content e b"
    "map_of (file_map e') (NormalizePath fname) = Some (Some a)"
proof -
  let ?n = "NormalizePath fname"
  obtain e1 where d: "(if map_of (file_map e) ?n \<noteq> None then DeleteFileInternal ?n e else Some e) = Some e1"
    "env_inv H e1" "file_map e1 = fm_erase ?n (file_map e)" "\<forall>b. 0 < names_of (file_map e1) b + H b \<longrightarrow> content e1 b = content e b"
  proof (cases "map_of (file_map e) ?n = None")
    case True then show ?thesis using that [of e] assms erase_absent [OF True] by simp
  next
    case False then show ?thesis using DeleteFileInternal_inv [OF assms, of ?n] that by (metis NormalizePath_idem)
  qed
  let ?a = "next_file e1"
  obtain f where f: "MemFile_new now ?n False = Some f"
    "env_new_file now ?n False e1 = Some (Some ?a, e1\<lparr>files := (files e1)(?a \<mapsto> f), next_file := Suc ?a\<rparr>)"
    "env_inv (H(?a := 1)) (e1\<lparr>next_file := Suc ?a, files := (files e1)(?a \<mapsto> MemFile_Ref f)\<rparr>)"
    "files e1 ?a = None" "H ?a = 0" by (rule new_file_inv [OF d(2)])
  let ?e3 = "e1\<lparr>next_file := Suc ?a, files := (files e1)(?a \<mapsto> MemFile_Ref f)\<rparr>"
  let ?e4 = "?e3\<lparr>file_map := fm_insert ?n (Some ?a) (file_map e1)\<rparr>"
  have none: "map_of (file_map e1) ?n = None" by (simp add: d(3) map_of_erase)
  have "H(?a := 0) = H" using f(5) by (metis fun_upd_triv)
  then have i4: "env_inv H ?e4" using name_inv [OF f(3), of ?a ?n] none by simp
  have fm1: "fm_ok (file_map e1)" using d(2) by (simp add: env_inv_def)
  have "map_of (file_map ?e4) ?n = Some (Some ?a)" by (simp add: map_of_insert [OF fm1])
  from open_inv [OF i4 this] obtain e' where e': "env_Ref (Some ?a) ?e4 = Some e'" "env_inv (H(?a := H ?a + 1)) e'"
    "file_map e' = file_map ?e4" "content e' = content ?e4" by (metis option.inject)
  have "NewWritableFile now fname e = Some (Status_OK, Some ?a, e')"
    unfolding NewWritableFile_def Let_def d(1) using f(2) e'(1)
    by (simp add: new_file_ref MockWritableFile_new_def)
  moreover have c: "content e' b = (if b = ?a then Some (visible f) else content e1 b)" for b
    by (simp add: e'(4)) (simp add: content_def visible_def MemFile_Ref_def)
  moreover have "view e' k = ((view e)(?n \<mapsto> visible f)) k" for k
  proof (cases "k = ?n")
    case True then show ?thesis using c by (simp add: view_content e'(3) map_of_insert [OF fm1])
  next
    case False
    have m: "map_of (file_map e') k = map_of (file_map e) k" 
      using False by (simp add: e'(3) map_of_insert [OF fm1]) (simp add: d(3) map_of_erase)
    have "content e' b = content e b" if b: "map_of (file_map e) k = Some (Some b)" for b
    proof -
      have "map_of (file_map e1) k = Some (Some b)" using b False by (simp add: d(3) map_of_erase)
      then have "0 < names_of (file_map e1) b" by (rule names_of_pos)
      then have "content e1 b = content e b" "b \<noteq> ?a" using d(2,4) f(4) inv_free by fastforce+
      then show ?thesis by (simp add: c)
    qed
    then show ?thesis using view_same [OF m] False by simp
  qed
  moreover have "content e' b = content e b" if "0 < H b" for b using that d(4) f(5) by (auto simp: c)
  moreover have "map_of (file_map e') ?n = Some (Some ?a)" by (simp add: e'(3) map_of_insert [OF fm1])
  ultimately show ?thesis using that e'(2) f(1,5) by (metis (no_types, lifting) ext)
qed

lemma msg_defined:
  assumes "length a < 2 ^ 31" "length m < 1000" "c \<noteq> kOk"
  obtains s where "Status_of_msg c a m = Some s" "code s = c" "\<not> ok s"
  using error_defined [of c a m] assms by auto

lemma normalized_small: "length fname < 2 ^ 31 \<Longrightarrow> length (NormalizePath fname) < 2 ^ 31"
  using length_NormalizePath [of fname] by linarith

lemma not_found_defined:
  assumes "length fname < 2 ^ 31"
  obtains s where "IOError_msg (NormalizePath fname) (lit ''File not found'') = Some s" "code s = kIOError" "\<not> ok s"
  using msg_defined [OF normalized_small [OF assms], of "lit ''File not found''" kIOError] by (auto simp: IOError_msg_def lit_def)

lemma append_loop_ok:
  "burst \<noteq> Some 0 \<Longrightarrow>
   \<exists>t. append_loop burst now x f = Some (Status_OK, f\<lparr>mem_data := mem_data f @ x, modified_time := t\<rparr>)"
proof (induction x arbitrary: f rule: length_induct)
  case (1 x)
  show ?case
  proof (cases "x = []")
    case True
    then show ?thesis by (subst append_loop.simps) (auto intro!: exI [of _ "modified_time f"])
  next
    case False
    define n where "n = Mock_RequestToken burst (length x)"
    have n: "0 < n" "n \<le> length x" using 1(2) False by (auto simp: n_def Mock_RequestToken_def split: option.splits)
    let ?f = "f\<lparr>mem_data := mem_data f @ take n x, modified_time := now\<rparr>"
    obtain t where "append_loop burst now (drop n x) ?f =
      Some (Status_OK, ?f\<lparr>mem_data := mem_data ?f @ drop n x, modified_time := t\<rparr>)"
      using 1 n False by (metis diff_less length_drop length_greater_0_conv)
    then show ?thesis using False
      by (subst append_loop.simps) (auto simp: n_def [symmetric] Let_def MemFile_Append_def)
  qed
qed

section \<open>The file system as a transition system\<close>

datatype fs_op =
    OpenSequential bytes | OpenRandom bytes | OpenWritable bytes | OpenLogger bytes
  | CloseHandle nat | WriteHandle nat bytes | SyncHandle nat | ReadHandle nat nat nat
  | DeleteName bytes | RenameName bytes bytes | LockName bytes | UnlockName bytes
  | TruncateName bytes nat | SizeName bytes

text \<open>A call: its status, the file behind the handle it opens, and the environment after it.\<close>

fun fs_call :: "nat option \<Rightarrow> u64 \<Rightarrow> fs_op \<Rightarrow> MockEnv \<Rightarrow> (Status \<times> nat option \<times> MockEnv) option" where
  "fs_call burst now (OpenSequential n) e =
     do { (s, h, e) \<leftarrow> NewSequentialFile n e; Some (s, case h of None \<Rightarrow> None | Some h \<Rightarrow> sf_file h, e) }"
| "fs_call burst now (OpenRandom n) e = NewRandomAccessFile n e"
| "fs_call burst now (OpenWritable n) e = NewWritableFile now n e"
| "fs_call burst now (OpenLogger n) e = NewLogger now n e"
| "fs_call burst now (CloseHandle a) e = do { e \<leftarrow> MockWritableFile_delete (Some a) e; Some (Status_OK, None, e) }"
| "fs_call burst now (WriteHandle a x) e = do { (s, e) \<leftarrow> MockWritableFile_Append burst now x (Some a) e; Some (s, None, e) }"
| "fs_call burst now (SyncHandle a) e = do { (s, e) \<leftarrow> MockWritableFile_Sync (Some a) e; Some (s, None, e) }"
| "fs_call burst now (ReadHandle a offset n) e = do { (s, r) \<leftarrow> MockRandomAccessFile_Read offset n (Some a) e; Some (s, None, e) }"
| "fs_call burst now (DeleteName n) e = do { (s, e) \<leftarrow> DeleteFile n e; Some (s, None, e) }"
| "fs_call burst now (RenameName m n) e = do { (s, e) \<leftarrow> RenameFile m n e; Some (s, None, e) }"
| "fs_call burst now (LockName n) e = do { (s, l, e) \<leftarrow> LockFile now n e; Some (s, None, e) }"
| "fs_call burst now (UnlockName n) e = do { (s, e) \<leftarrow> UnlockFile (NormalizePath n) e; Some (s, None, e) }"
| "fs_call burst now (TruncateName n k) e = do { (s, e) \<leftarrow> MockEnv_Truncate n k e; Some (s, None, e) }"
| "fs_call burst now (SizeName n) e = do { (s, k) \<leftarrow> GetFileSize n e; Some (s, None, e) }"

text \<open>Calls go to open handles, names have less than \<open>2\<^sup>3\<^sup>1\<close> bytes, and no file is renamed to its own name.\<close>

fun fs_allowed :: "nat option \<Rightarrow> fs_op \<Rightarrow> (nat \<Rightarrow> nat) \<Rightarrow> bool" where
  "fs_allowed burst (CloseHandle a) H \<longleftrightarrow> 0 < H a"
| "fs_allowed burst (WriteHandle a x) H \<longleftrightarrow> 0 < H a \<and> burst \<noteq> Some 0"
| "fs_allowed burst (SyncHandle a) H \<longleftrightarrow> 0 < H a"
| "fs_allowed burst (ReadHandle a offset n) H \<longleftrightarrow> 0 < H a"
| "fs_allowed burst (RenameName m n) H \<longleftrightarrow> length m < 2 ^ 31 \<and> NormalizePath m \<noteq> NormalizePath n"
| "fs_allowed burst (OpenSequential n) H \<longleftrightarrow> length n < 2 ^ 31"
| "fs_allowed burst (OpenRandom n) H \<longleftrightarrow> length n < 2 ^ 31"
| "fs_allowed burst (OpenWritable n) H \<longleftrightarrow> True"
| "fs_allowed burst (OpenLogger n) H \<longleftrightarrow> True"
| "fs_allowed burst (DeleteName n) H \<longleftrightarrow> length n < 2 ^ 31"
| "fs_allowed burst (LockName n) H \<longleftrightarrow> length n < 2 ^ 31"
| "fs_allowed burst (UnlockName n) H \<longleftrightarrow> length n < 2 ^ 31"
| "fs_allowed burst (TruncateName n k) H \<longleftrightarrow> length n < 2 ^ 31"
| "fs_allowed burst (SizeName n) H \<longleftrightarrow> length n < 2 ^ 31"

definition fs_handles :: "fs_op \<Rightarrow> nat option \<Rightarrow> (nat \<Rightarrow> nat) \<Rightarrow> nat \<Rightarrow> nat" where
  "fs_handles op r H =
     (case r of Some a \<Rightarrow> H(a := H a + 1) | None \<Rightarrow> (case op of CloseHandle a \<Rightarrow> H(a := H a - 1) | _ \<Rightarrow> H))"

inductive fs_reach :: "(nat \<Rightarrow> nat) \<Rightarrow> MockEnv \<Rightarrow> bool" where
  fs_start: "fs_reach (\<lambda>_. 0) MockEnv_new"
| fs_step: "fs_reach H e \<Longrightarrow> fs_allowed burst op H \<Longrightarrow> fs_call burst now op e = Some (s, r, e') \<Longrightarrow> fs_reach (fs_handles op r H) e'"

text \<open>Every operation is defined and keeps the invariant.\<close>

definition fs_good :: "nat option \<Rightarrow> u64 \<Rightarrow> fs_op \<Rightarrow> (nat \<Rightarrow> nat) \<Rightarrow> MockEnv \<Rightarrow> bool" where
  "fs_good burst now op H e \<longleftrightarrow> (\<exists>s r e'. fs_call burst now op e = Some (s, r, e') \<and> env_inv (fs_handles op r H) e')"

lemma fs_goodI: "fs_call burst now op e = Some (s, r, e') \<Longrightarrow> env_inv (fs_handles op r H) e' \<Longrightarrow> fs_good burst now op H e"
  by (auto simp: fs_good_def)

lemma good_open_sequential:
  assumes "env_inv H e" "length n < 2 ^ 31"
  shows "fs_good burst now (OpenSequential n) H e"
proof (cases "map_of (file_map e) (NormalizePath n)")
  case None
  obtain s where "IOError_msg (NormalizePath n) (lit ''File not found'') = Some s" by (rule not_found_defined [OF assms(2)])
  then show ?thesis using assms None by (intro fs_goodI) (auto simp: NewSequentialFile_def fs_handles_def)
next
  case (Some p)
  obtain a f where a: "p = Some a" "files e a = Some f" using name_live [OF assms(1) Some] by metis
  show ?thesis
  proof (cases "is_lock_file f")
    case True
    obtain s where "InvalidArgument_msg (NormalizePath n) (lit ''Cannot open a lock file.'') = Some s"
      using msg_defined [OF normalized_small [OF assms(2)], of "lit ''Cannot open a lock file.''" kInvalidArgument]
      by (auto simp: InvalidArgument_msg_def lit_def)
    then show ?thesis using assms Some a True by (intro fs_goodI) (auto simp: NewSequentialFile_def deref_def fs_handles_def)
  next
    case False
    then show ?thesis using Some a Ref_inv [OF assms(1) a(2)]
      by (intro fs_goodI) (auto simp: NewSequentialFile_def MockSequentialFile_new_def deref_def fs_handles_def)
  qed
qed

lemma good_open_random:
  assumes "env_inv H e" "length n < 2 ^ 31"
  shows "fs_good burst now (OpenRandom n) H e"
proof (cases "map_of (file_map e) (NormalizePath n)")
  case None
  obtain s where "IOError_msg (NormalizePath n) (lit ''File not found'') = Some s" by (rule not_found_defined [OF assms(2)])
  then show ?thesis using assms None by (intro fs_goodI) (auto simp: NewRandomAccessFile_def fs_handles_def)
next
  case (Some p)
  obtain a f where a: "p = Some a" "files e a = Some f" using name_live [OF assms(1) Some] by metis
  show ?thesis
  proof (cases "is_lock_file f")
    case True
    obtain s where "InvalidArgument_msg (NormalizePath n) (lit ''Cannot open a lock file.'') = Some s"
      using msg_defined [OF normalized_small [OF assms(2)], of "lit ''Cannot open a lock file.''" kInvalidArgument]
      by (auto simp: InvalidArgument_msg_def lit_def)
    then show ?thesis using assms Some a True by (intro fs_goodI) (auto simp: NewRandomAccessFile_def deref_def fs_handles_def)
  next
    case False
    then show ?thesis using Some a Ref_inv [OF assms(1) a(2)]
      by (intro fs_goodI) (auto simp: NewRandomAccessFile_def MockRandomAccessFile_new_def deref_def fs_handles_def)
  qed
qed

lemma good_open_writable: "env_inv H e \<Longrightarrow> fs_good burst now (OpenWritable n) H e"
  by (rule NewWritableFile_inv [of H e now n]) (auto intro!: fs_goodI simp: fs_handles_def)

text \<open>Giving a new file its name.\<close>

lemma named_new_inv:
  assumes "env_inv H e" "map_of (file_map e) n = None" "NormalizePath n = n" "refs f = 1"
  shows "env_inv H (e\<lparr>next_file := Suc (next_file e), files := (files e)(next_file e \<mapsto> f), file_map := fm_insert n (Some (next_file e)) (file_map e)\<rparr>)"
proof -
  let ?a = "next_file e"
  have z: "files e ?a = None" using assms(1) by (simp add: env_inv_def)
  then have n: "names_of (file_map e) ?a = 0" "H ?a = 0" using inv_free [OF assms(1) z] by simp_all
  have "env_inv (H(?a := 1)) (e\<lparr>next_file := Suc ?a, files := (files e)(?a \<mapsto> f)\<rparr>)" using assms(1,4) n by (auto simp: env_inv_def)
  from name_inv [OF this, of ?a n] assms(2,3) n show ?thesis by (simp add: fun_upd_idem)
qed

lemma good_open_logger:
  assumes "env_inv H e"
  shows "fs_good burst now (OpenLogger n) H e"
proof (cases "map_of (file_map e) (NormalizePath n)")
  case (Some p)
  obtain a e' where "p = Some a" "env_Ref p e = Some e'" "env_inv (H(a := H a + 1)) e'" by (rule open_inv [OF assms Some])
  then show ?thesis using Some by (intro fs_goodI) (auto simp: NewLogger_def MockWritableFile_new_def fs_handles_def)
next
  case None
  let ?n = "NormalizePath n" and ?a = "next_file e"
  obtain f where f: "MemFile_new now ?n False = Some f"
    "env_new_file now ?n False e = Some (Some ?a, e\<lparr>files := (files e)(?a \<mapsto> f), next_file := Suc ?a\<rparr>)"
    by (rule new_file_inv [OF assms])
  have "refs (MemFile_Ref f) = 1" using f(1) by (auto simp: MemFile_new_def MemFile_Ref_def split: bind_splits)
  from named_new_inv [OF assms None _ this] have i: "env_inv H (e\<lparr>next_file := Suc ?a, files := (files e)(?a \<mapsto> MemFile_Ref f),
    file_map := fm_insert ?n (Some ?a) (file_map e)\<rparr>)" (is "env_inv H ?e") by simp
  have m: "map_of (file_map ?e) ?n = Some (Some ?a)" using assms by (simp add: env_inv_def map_of_insert)
  obtain e' where "env_Ref (Some ?a) ?e = Some e'" "env_inv (H(?a := H ?a + 1)) e'" using open_inv [OF i m] by (metis option.inject)
  then show ?thesis using None f(2) by (intro fs_goodI) (auto simp: NewLogger_def new_file_ref MockWritableFile_new_def fs_handles_def)
qed

lemma good_close: "env_inv H e \<Longrightarrow> 0 < H a \<Longrightarrow> fs_good burst now (CloseHandle a) H e"
  by (rule Unref_inv [of H e a]) (auto intro!: fs_goodI simp: MockWritableFile_delete_def fs_handles_def)

lemma good_write:
  assumes "env_inv H e" "0 < H a" "burst \<noteq> Some 0"
  shows "fs_good burst now (WriteHandle a x) H e"
proof -
  obtain f where f: "files e a = Some f" using handle_live assms by blast
  obtain t where "append_loop burst now x f = Some (Status_OK, f\<lparr>mem_data := mem_data f @ x, modified_time := t\<rparr>)"
    using append_loop_ok [OF assms(3)] by blast
  then show ?thesis using f store_inv [OF assms(1) f]
    by (intro fs_goodI) (auto simp: MockWritableFile_Append_def deref_def store_def fs_handles_def)
qed

lemma good_sync: "env_inv H e \<Longrightarrow> 0 < H a \<Longrightarrow> fs_good burst now (SyncHandle a) H e"
  using handle_live [of H e a] store_inv [of H e a]
  by (auto intro!: fs_goodI simp: MockWritableFile_Sync_def MemFile_Fsync_def deref_def store_def fs_handles_def)

lemma good_read:
  assumes "env_inv H e" "0 < H a"
  shows "fs_good burst now (ReadHandle a offset n) H e"
proof -
  obtain f where f: "files e a = Some f" using handle_live assms by blast
  obtain s where "IOError_msg (lit ''Offset greater than file size.'') [] = Some s"
    using msg_defined [of "lit ''Offset greater than file size.''" "[]" kIOError] by (auto simp: IOError_msg_def lit_def)
  then have "\<exists>s r. MemFile_Read offset n f = Some (s, r)" by (auto simp: MemFile_Read_def Let_def)
  then show ?thesis using assms f
    by (auto intro!: fs_goodI simp: MockRandomAccessFile_Read_def deref_def fs_handles_def)
qed

lemma good_delete:
  assumes "env_inv H e" "length n < 2 ^ 31"
  shows "fs_good burst now (DeleteName n) H e"
proof (cases "map_of (file_map e) (NormalizePath n)")
  case None
  obtain s where "IOError_msg (NormalizePath n) (lit ''File not found'') = Some s" by (rule not_found_defined [OF assms(2)])
  then show ?thesis using assms None by (intro fs_goodI) (auto simp: DeleteFile_def fs_handles_def)
next
  case (Some p)
  obtain e' where "DeleteFileInternal (NormalizePath n) e = Some e'" "env_inv H e'"
    using DeleteFileInternal_inv [OF assms(1), of "NormalizePath n"] by (metis NormalizePath_idem)
  then show ?thesis using Some by (intro fs_goodI) (auto simp: DeleteFile_def fs_handles_def)
qed

text \<open>Renaming moves the file and drops what had the new name.\<close>

lemma RenameFile_ok:
  assumes "env_inv H e" "NormalizePath m \<noteq> NormalizePath n" "map_of (file_map e) (NormalizePath m) = Some p"
  obtains e' where "RenameFile m n e = Some (Status_OK, e')" "env_inv H e'"
    "view e' = (view e)(NormalizePath m := None, NormalizePath n := view e (NormalizePath m))"
    "\<And>b. 0 < H b \<Longrightarrow> content e' b = content e b"
proof -
  let ?s = "NormalizePath m" and ?t = "NormalizePath n"
  obtain e1 where d: "DeleteFileInternal ?t e = Some e1" "env_inv H e1" "file_map e1 = fm_erase ?t (file_map e)"
    "\<forall>b. 0 < names_of (file_map e1) b + H b \<longrightarrow> content e1 b = content e b"
    using DeleteFileInternal_inv [OF assms(1), of ?t] by (metis NormalizePath_idem)
  obtain a f where a: "p = Some a" "files e a = Some f" using name_live [OF assms(1,3)] by metis
  have s1: "map_of (file_map e1) ?s = Some (Some a)" using assms(2,3) a by (simp add: d(3) map_of_erase)
  have ok: "fm_ok (file_map e1)" using d(2) by (simp add: env_inv_def)
  define m' where "m' = fm_erase ?s (fm_insert ?t p (file_map e1))"
  have t1: "map_of (file_map e1) ?t = None" by (simp add: d(3) map_of_erase)
  have oki: "fm_ok (fm_insert ?t p (file_map e1))" using fm_ok_insert [OF ok] .
  have si: "map_of (fm_insert ?t p (file_map e1)) ?s = Some p" using s1 a assms(2) by (simp add: map_of_insert [OF ok])
  have cnt: "names_of m' b = names_of (file_map e1) b" for b
    using names_of_insert [OF t1, of p b] names_of_erase [OF oki si, of b] by (simp add: m'_def)
  have nrm: "\<forall>(n, q) \<in> set m'. NormalizePath n = n \<and> q \<noteq> None"
  proof -
    have "set m' \<subseteq> insert (?t, p) (set (file_map e1))"
      using set_fm_insert [of ?t p "file_map e1"] set_fm_erase [of ?s "fm_insert ?t p (file_map e1)"] by (auto simp only: m'_def)
    moreover have "\<forall>(n, q) \<in> insert (?t, p) (set (file_map e1)). NormalizePath n = n \<and> q \<noteq> None"
      using d(2) a(1) by (simp add: env_inv_def)
    ultimately show ?thesis by (meson subsetD)
  qed
  have inv: "env_inv H (e1\<lparr>file_map := m'\<rparr>)"
    by (rule renamed_inv [OF d(2) _ nrm]) (simp_all add: cnt fm_ok_erase [OF oki, of ?s, folded m'_def])
  have ren: "RenameFile m n e = Some (Status_OK, e1\<lparr>file_map := m'\<rparr>)"
    using assms(3) d(1) s1 a by (simp add: RenameFile_def fm_index_def m'_def)
  have c: "content (e1\<lparr>file_map := m'\<rparr>) = content e1" by (simp add: content_def fun_eq_iff)
  have keep: "content e1 b = content e b" if "map_of (file_map e1) k = Some (Some b)" for k b
    using d(4) names_of_pos [OF that] by simp
  have mm: "map_of m' = (map_of (file_map e1))(?t \<mapsto> p, ?s := None)"
    by (simp add: m'_def map_of_erase map_of_insert [OF ok])
  have "view (e1\<lparr>file_map := m'\<rparr>) k = ((view e)(?s := None, ?t := view e ?s)) k" for k
  proof -
    consider "k = ?s" | "k = ?t" | "k \<noteq> ?s" "k \<noteq> ?t" by blast
    then show ?thesis
    proof cases
      case 1 then show ?thesis using assms(2) by (simp add: view_content mm)
    next
      case 2 then show ?thesis using assms(2,3) keep [OF s1] a by (simp add: view_content mm c)
    next
      case 3
      then have "map_of (file_map e1) k = map_of (file_map e) k" by (simp add: d(3) map_of_erase)
      then show ?thesis using 3 keep [of k] by (auto simp: view_content mm c split: option.splits)
    qed
  qed
  then have "view (e1\<lparr>file_map := m'\<rparr>) = (view e)(?s := None, ?t := view e ?s)" by blast
  from that [OF ren inv this] show ?thesis using d(4) by (simp add: c)
qed

lemma good_rename:
  assumes "env_inv H e" "length m < 2 ^ 31" "NormalizePath m \<noteq> NormalizePath n"
  shows "fs_good burst now (RenameName m n) H e"
proof (cases "map_of (file_map e) (NormalizePath m)")
  case None
  obtain s where "IOError_msg (NormalizePath m) (lit ''File not found'') = Some s" by (rule not_found_defined [OF assms(2)])
  then show ?thesis using assms None by (intro fs_goodI) (auto simp: RenameFile_def fs_handles_def)
next
  case (Some p)
  then show ?thesis by (rule RenameFile_ok [OF assms(1,3)]) (auto intro!: fs_goodI simp: fs_handles_def)
qed

lemma good_lock:
  assumes "env_inv H e" "length n < 2 ^ 31"
  shows "fs_good burst now (LockName n) H e"
proof (cases "map_of (file_map e) (NormalizePath n)")
  case (Some p)
  obtain a f where a: "p = Some a" "files e a = Some f" using name_live [OF assms(1) Some] by metis
  obtain s where s: "InvalidArgument_msg n (lit ''Not a lock file.'') = Some s"
    using msg_defined [OF assms(2), of "lit ''Not a lock file.''" kInvalidArgument] by (auto simp: InvalidArgument_msg_def lit_def)
  obtain s' where s': "IOError_msg (NormalizePath n) (lit ''Lock is already held.'') = Some s'"
    using msg_defined [OF normalized_small [OF assms(2)], of "lit ''Lock is already held.''" kIOError] by (auto simp: IOError_msg_def lit_def)
  show ?thesis using s s' Some a assms(1) store_inv [OF assms(1) a(2)]
    by (cases "is_lock_file f"; cases "locked f")
      (auto intro!: fs_goodI simp: LockFile_def MemFile_Lock_def deref_def store_def fs_handles_def)
next
  case None
  let ?n = "NormalizePath n" and ?a = "next_file e"
  obtain f where f: "MemFile_new now ?n True = Some f"
    "env_new_file now ?n True e = Some (Some ?a, e\<lparr>files := (files e)(?a \<mapsto> f), next_file := Suc ?a\<rparr>)"
    by (rule new_file_inv [OF assms(1)])
  have l: "is_lock_file f" "\<not> locked f" "refs f = 0" using f(1) by (auto simp: MemFile_new_def split: bind_splits)
  have "env_inv H (e\<lparr>next_file := Suc ?a, files := (files e)(?a \<mapsto> (MemFile_Ref f)\<lparr>locked := True\<rparr>),
    file_map := fm_insert ?n (Some ?a) (file_map e)\<rparr>)" using named_new_inv [OF assms(1) None] l(3) by (simp add: MemFile_Ref_def)
  then show ?thesis using None f(2) l
    by (intro fs_goodI) (auto simp: LockFile_def new_file_ref deref_def store_def MemFile_Lock_def MemFile_Ref_def fs_handles_def Let_def)
qed

lemma good_unlock:
  assumes "env_inv H e" "length n < 2 ^ 31"
  shows "fs_good burst now (UnlockName n) H e"
proof (cases "map_of (file_map e) (NormalizePath n)")
  case None
  then show ?thesis using assms by (intro fs_goodI) (auto simp: UnlockFile_def fs_handles_def)
next
  case (Some p)
  obtain a f where a: "p = Some a" "files e a = Some f" using name_live [OF assms(1) Some] by metis
  obtain s where s: "InvalidArgument_msg (NormalizePath n) (lit ''Not a lock file.'') = Some s"
    using msg_defined [OF normalized_small [OF assms(2)], of "lit ''Not a lock file.''" kInvalidArgument]
    by (auto simp: InvalidArgument_msg_def lit_def)
  show ?thesis using s Some a assms(1) store_inv [OF assms(1) a(2)]
    by (cases "is_lock_file f") (auto intro!: fs_goodI simp: UnlockFile_def MemFile_Unlock_def deref_def store_def fs_handles_def)
qed

lemma good_truncate_size:
  assumes "env_inv H e" "length n < 2 ^ 31"
  shows "fs_good burst now (TruncateName n k) H e \<and> fs_good burst now (SizeName n) H e"
proof (cases "map_of (file_map e) (NormalizePath n)")
  case None
  obtain s where "IOError_msg (NormalizePath n) (lit ''File not found'') = Some s" by (rule not_found_defined [OF assms(2)])
  then show ?thesis using assms(1) None by (simp add: fs_good_def MockEnv_Truncate_def GetFileSize_def Let_def fs_handles_def)
next
  case (Some p)
  obtain a f where a: "p = Some a" "files e a = Some f" using name_live [OF assms(1) Some] by metis
  have "refs (MemFile_Truncate k f) = refs f" by (simp add: MemFile_Truncate_def)
  then show ?thesis using assms(1) Some a store_inv [OF assms(1) a(2)]
    by (simp add: fs_good_def MockEnv_Truncate_def GetFileSize_def Let_def fs_handles_def deref_def store_def)
qed

lemma fs_call_good:
  assumes "env_inv H e" "fs_allowed burst op H"
  shows "fs_good burst now op H e"
  using assms
  by (cases op) (auto intro: good_open_sequential good_open_random good_open_writable good_open_logger good_close good_write
    good_sync good_read good_delete good_rename good_lock good_unlock good_truncate_size [THEN conjunct1] good_truncate_size [THEN conjunct2])

lemma fs_reach_inv: "fs_reach H e \<Longrightarrow> env_inv H e"
proof (induction rule: fs_reach.induct)
  case fs_start then show ?case by (rule env_inv_new)
next
  case (fs_step H e burst op now s r e')
  from fs_call_good [OF fs_step(4,2), of now] show ?case using fs_step(3) by (auto simp: fs_good_def)
qed

text \<open>
  C28. No use after free: in every state that opening, reading, writing, syncing, closing, deleting,
  renaming, locking, unlocking and truncating files can produce, each of these calls is defined,
  also on files whose names are gone while handles are open, and the count of each file is the
  number of its names and open handles.
\<close>

theorem mock_env_safe:
  assumes "fs_reach H e" "fs_allowed burst op H"
  shows "(\<exists>s r e'. fs_call burst now op e = Some (s, r, e') \<and> fs_reach (fs_handles op r H) e') \<and>
    (\<forall>a f. files e a = Some f \<longrightarrow> refs f = int (names_of (file_map e) a + H a))"
proof -
  have inv: "env_inv H e" by (rule fs_reach_inv [OF assms(1)])
  obtain s r e' where "fs_call burst now op e = Some (s, r, e')"
    using fs_call_good [OF inv assms(2), of now] by (auto simp: fs_good_def)
  then show ?thesis using fs_reach.fs_step [OF assms] inv_refs [OF inv] by blast
qed

theorem mock_env_safe_witness:
  "\<exists>s r e'. fs_call None 0 (OpenWritable [97]) MockEnv_new = Some (s, r, e') \<and> fs_reach (fs_handles (OpenWritable [97]) r (\<lambda>_. 0)) e'"
  using mock_env_safe [OF fs_start, of None "OpenWritable [97]" 0] by simp

text \<open>
  C29. Renaming a file to another name moves what is visible under the old name to the new one, hides
  the file that had the new name, and changes no other name; handles stay on their files.
\<close>

theorem rename_moves:
  assumes "fs_reach H e" "view e (NormalizePath m) = Some f" "NormalizePath m \<noteq> NormalizePath n"
  shows "\<exists>e'. RenameFile m n e = Some (Status_OK, e') \<and>
    view e' = (view e)(NormalizePath m := None, NormalizePath n \<mapsto> f) \<and> (\<forall>b. 0 < H b \<longrightarrow> content e' b = content e b)"
proof -
  obtain p where "map_of (file_map e) (NormalizePath m) = Some p" using assms(2) by (auto simp: view_def split: option.splits)
  from RenameFile_ok [OF fs_reach_inv [OF assms(1)] assms(3) this] show ?thesis using assms(2) by metis
qed

theorem rename_moves_witness:
  "\<exists>H e f e'. fs_reach H e \<and> view e [97] = Some f \<and> RenameFile [97] [98] e = Some (Status_OK, e') \<and>
     view e' [98] = Some f \<and> view e' [97] = None"
proof -
  have n: "NormalizePath [97] = [97]" "NormalizePath [98] = [98]" by (simp_all add: NormalizePath_def)
  obtain a e f where e: "NewWritableFile 0 [97] MockEnv_new = Some (Status_OK, Some a, e)" "view e = (view MockEnv_new)([97] \<mapsto> visible f)"
    by (rule NewWritableFile_inv [OF env_inv_new, of 0 "[97]"]) (auto simp: n)
  have r: "fs_reach (fs_handles (OpenWritable [97]) (Some a) (\<lambda>_. 0)) e"
    by (rule fs_step [OF fs_start, where burst = None and now = 0]) (simp_all add: e)
  from rename_moves [OF r, of "[97]" "visible f" "[98]"] e(2) n r show ?thesis by fastforce
qed


lemma rename_same_name_loses:
  "do { (s, h, e) \<leftarrow> NewWritableFile 0 [97] MockEnv_new;
        (s, e) \<leftarrow> RenameFile [97] [97] e;
        Some (s, FileExists [97] e) } = Some (Status_OK, NotFound)"
  by (simp add: NewWritableFile_def env_new_file_def MemFile_new_def MurmurHash64A_def Murmur_tail_def
    MockEnv_new_def NormalizePath_def env_Ref_def deref_def store_def MockWritableFile_new_def MemFile_Ref_def
    env_Unref_def MemFile_Unref_def RenameFile_def DeleteFileInternal_def fm_index_def fm_erase_def FileExists_def Let_def)

end
