(* ===== verification/Log_Files.thy ===== *)
theory Log_Files
  imports Log_Reader File_Pages Mock_Safety
begin

text \<open>
  Write-ahead logs in files: the log writer on top of \<open>WritableFileWriter\<close> on top of a file of the
  in-memory environment, and the log reader on top of \<open>SequentialFileReader\<close>. The contracts of the layers
  are interpreted on the layers below, and the two theorems at the end follow from what was proved of each.
\<close>

section \<open>Files of the in-memory environment\<close>

text \<open>The virtual functions of \<open>MockWritableFile\<close>, on its pointer and the environment.\<close>

definition mock_file_ops :: "nat option \<Rightarrow> u64 \<Rightarrow> (nat option \<times> MockEnv) WritableFile_ops" where
  "mock_file_ops b now =
     (WritableFile_defaults
       (\<lambda>x (p, e). do { (s, e) \<leftarrow> MockWritableFile_Append b now x p e; Some (s, (p, e)) })
       (\<lambda>(p, e). do { (s, e) \<leftarrow> MockWritableFile_Close p e; Some (s, (p, e)) })
       (\<lambda>(p, e). do { (s, e) \<leftarrow> MockWritableFile_Flush p e; Some (s, (p, e)) })
       (\<lambda>(p, e). do { (s, e) \<leftarrow> MockWritableFile_Sync p e; Some (s, (p, e)) }))
     \<lparr>op_Truncate := \<lambda>n (p, e). do { (s, e) \<leftarrow> MockWritableFile_Truncate n p e; Some (s, (p, e)) }\<rparr>"

text \<open>Those of \<open>MockSequentialFile\<close>.\<close>

definition mock_Read :: "nat \<Rightarrow> MockSequentialFile \<times> MockEnv \<Rightarrow> (Status \<times> bytes \<times> MockSequentialFile \<times> MockEnv) option" where
  "mock_Read n f = (case f of (h, e) \<Rightarrow> do { (s, x, h) \<leftarrow> MockSequentialFile_Read n h e; Some (s, x, (h, e)) })"

definition mock_Skip :: "nat \<Rightarrow> MockSequentialFile \<times> MockEnv \<Rightarrow> (Status \<times> MockSequentialFile \<times> MockEnv) option" where
  "mock_Skip n f = (case f of (h, e) \<Rightarrow> do { (s, h) \<leftarrow> MockSequentialFile_Skip n h e; Some (s, (h, e)) })"

section \<open>A log, written and read\<close>

text \<open>A log is created, filled and closed, and the file object deleted.\<close>

definition write_log :: "nat option \<Rightarrow> u64 \<Rightarrow> nat \<Rightarrow> nat \<Rightarrow> nat option \<Rightarrow> bytes \<Rightarrow> u64 \<Rightarrow> bool \<Rightarrow> bytes list \<Rightarrow> MockEnv \<Rightarrow> MockEnv option" where
  "write_log b now max_buffer sync_bytes limiter fname ln rec rs e = do {
     (s, p, e) \<leftarrow> NewWritableFile now fname e;
     fw \<leftarrow> WritableFileWriter_new (mock_file_ops b now) (WritableFile_new (p, e)) max_buffer sync_bytes limiter;
     w \<leftarrow> Writer_new fw ln rec;
     w \<leftarrow> AddRecords (FileWriter_Append (mock_file_ops b now)) (FileWriter_Flush (mock_file_ops b now)) rs w;
     (s, d, fw) \<leftarrow> FileWriter_Close (mock_file_ops b now) (dest w);
     (p, e) \<leftarrow> d;
     if ok s then MockWritableFile_delete p e else None }"

text \<open>All records of a log, with what was reported as dropped.\<close>

definition read_log :: "WALRecoveryMode \<Rightarrow> bytes \<Rightarrow> u64 \<Rightarrow> bool \<Rightarrow> MockEnv \<Rightarrow> (bytes list \<times> (nat \<times> Status) list) option" where
  "read_log mode fname ln check e = do {
     (s, h, e) \<leftarrow> NewSequentialFile fname e;
     h \<leftarrow> h;
     (rs, r) \<leftarrow> ReadRecords (SequentialFileReader_Read mock_Read) (SequentialFileReader_Skip mock_Skip) mode
       (Reader_new (h, e) True check 0 ln);
     Some (rs, drops r) }"

section \<open>The layers meet their contracts\<close>

sublocale written_file \<subseteq> wal: log_dest "FileWriter_Append V" "FileWriter_Flush V" "file_data contents" "fw_ok contents good"
  by unfold_locales (use Append_ok Flush_keeps in blast)+

text \<open>The contents of a file, and what stays true while a handle to the file of that name is written.\<close>

definition mock_contents :: "nat option \<times> MockEnv \<Rightarrow> bytes" where
  "mock_contents d = (case deref (snd d) (fst d) of None \<Rightarrow> [] | Some f \<Rightarrow> mem_data f)"

definition mock_good :: "nat option \<Rightarrow> (nat \<Rightarrow> nat) \<Rightarrow> bytes \<Rightarrow> nat \<Rightarrow> nat option \<times> MockEnv \<Rightarrow> bool" where
  "mock_good b H n a d \<longleftrightarrow> b \<noteq> Some 0 \<and> fst d = Some a \<and> env_inv H (snd d) \<and> 0 < H a \<and> map_of (file_map (snd d)) n = Some (Some a) \<and>
     (\<exists>f. files (snd d) a = Some f \<and> \<not> is_lock_file f)"

lemma mock_good_store:
  assumes "mock_good b H n a d" "files (snd d) a = Some f" "refs f' = refs f" "is_lock_file f' = is_lock_file f"
  shows "mock_good b H n a (Some a, (snd d)\<lparr>files := (files (snd d))(a \<mapsto> f')\<rparr>)"
  using assms store_inv [of H "snd d" a f f'] by (simp add: mock_good_def)

lemma mock_fsync_harmless:
  "harmless mock_contents (mock_good b H n a) (\<lambda>(p, e). do { (s, e) \<leftarrow> MockWritableFile_Sync p e; Some (s, (p, e)) })"
  "harmless mock_contents (mock_good b H n a) (\<lambda>(p, e). do { (s, e) \<leftarrow> MockWritableFile_Close p e; Some (s, (p, e)) })"
proof -
  have "\<exists>d'. (case d of (p, e) \<Rightarrow> do { (s, e) \<leftarrow> MockWritableFile_Sync p e; Some (s, (p, e)) }) = Some (Status_OK, d') \<and>
      mock_good b H n a d' \<and> mock_contents d' = mock_contents d" if good: "mock_good b H n a d" for d
  proof -
    obtain f where f: "files (snd d) a = Some f" "fst d = Some a" using good by (auto simp: mock_good_def)
    let ?d = "(Some a, (snd d)\<lparr>files := (files (snd d))(a \<mapsto> f\<lparr>fsynced_bytes := MemFile_Size f\<rparr>)\<rparr>)"
    have "mock_good b H n a ?d" by (rule mock_good_store [OF good f(1)]) simp_all
    then show ?thesis using f
      by (intro exI [of _ ?d]) (auto simp: split_beta MockWritableFile_Sync_def MemFile_Fsync_def deref_def store_def mock_contents_def)
  qed
  then show "harmless mock_contents (mock_good b H n a) (\<lambda>(p, e). do { (s, e) \<leftarrow> MockWritableFile_Sync p e; Some (s, (p, e)) })"
    by (simp add: harmless_def)
  then show "harmless mock_contents (mock_good b H n a) (\<lambda>(p, e). do { (s, e) \<leftarrow> MockWritableFile_Close p e; Some (s, (p, e)) })"
    by (simp add: MockWritableFile_Close_def MockWritableFile_Sync_def)
qed

lemma mock_append:
  assumes "mock_good b H n a d"
  shows "\<exists>d'. (case d of (p, e) \<Rightarrow> do { (s, e) \<leftarrow> MockWritableFile_Append b now x p e; Some (s, (p, e)) }) = Some (Status_OK, d') \<and>
    mock_good b H n a d' \<and> mock_contents d' = mock_contents d @ x"
proof -
  obtain f where f: "files (snd d) a = Some f" "fst d = Some a" "b \<noteq> Some 0" using assms by (auto simp: mock_good_def)
  obtain t where t: "append_loop b now x f = Some (Status_OK, f\<lparr>mem_data := mem_data f @ x, modified_time := t\<rparr>)"
    using append_loop_ok [OF f(3)] by blast
  let ?d = "(Some a, (snd d)\<lparr>files := (files (snd d))(a \<mapsto> f\<lparr>mem_data := mem_data f @ x, modified_time := t\<rparr>)\<rparr>)"
  have "mock_good b H n a ?d" by (rule mock_good_store [OF assms f(1)]) simp_all
  then show ?thesis using f t by (intro exI [of _ ?d]) (auto simp: split_beta MockWritableFile_Append_def deref_def store_def mock_contents_def)
qed

interpretation mockfile: written_file "mock_file_ops b now" mock_contents "mock_good b H n a"
  by unfold_locales (use mock_append mock_fsync_harmless in
    \<open>auto simp: mock_file_ops_def WritableFile_defaults_def MockWritableFile_Truncate_def MockWritableFile_Flush_def harmless_def\<close>)

definition mock_rest :: "MockSequentialFile \<times> MockEnv \<Rightarrow> bytes" where
  "mock_rest f = (case f of (h, e) \<Rightarrow> case deref e (sf_file h) of None \<Rightarrow> [] | Some m \<Rightarrow> drop (sf_pos h) (mem_data m))"

definition mock_live :: "MockSequentialFile \<times> MockEnv \<Rightarrow> bool" where
  "mock_live f \<longleftrightarrow> (case f of (h, e) \<Rightarrow> case deref e (sf_file h) of None \<Rightarrow> False | Some m \<Rightarrow> sf_pos h \<le> length (mem_data m))"

lemma mock_Read_rest:
  assumes "mock_live f"
  shows "\<exists>f'. SequentialFileReader_Read mock_Read n f = Some (Status_OK, take n (mock_rest f), f') \<and> mock_live f' \<and>
    mock_rest f' = drop n (mock_rest f)"
proof -
  obtain h e m where f: "f = (h, e)" "deref e (sf_file h) = Some m" "sf_pos h \<le> length (mem_data m)"
    using assms by (cases f) (auto simp: mock_live_def split: option.splits)
  let ?f = "(h\<lparr>sf_pos := sf_pos h + min n (length (mem_data m) - sf_pos h)\<rparr>, e)"
  have "mock_live ?f" "mock_rest ?f = drop n (mock_rest f)" using f by (auto simp: mock_live_def mock_rest_def min_def add.commute)
  moreover have "SequentialFileReader_Read mock_Read n f = Some (Status_OK, take n (mock_rest f), ?f)"
    using f by (auto simp: SequentialFileReader_Read_def mock_Read_def MockSequentialFile_Read_def MemFile_Read_def MemFile_Size_def mock_rest_def Let_def min_def)
  ultimately show ?thesis by blast
qed

interpretation mockseq: log_source "SequentialFileReader_Read mock_Read" mock_rest mock_live
  by unfold_locales (rule mock_Read_rest)

section \<open>What is written can be read back\<close>

lemma new_file_good:
  assumes "env_inv H e" "b \<noteq> Some 0"
  obtains a e1 where "NewWritableFile now fname e = Some (Status_OK, Some a, e1)" "mock_good b (H(a := 1)) (NormalizePath fname) a (Some a, e1)"
    "mock_contents (Some a, e1) = []" "H a = 0"
proof -
  obtain a e1 f where a: "NewWritableFile now fname e = Some (Status_OK, Some a, e1)" "env_inv (H(a := H a + 1)) e1"
    "MemFile_new now (NormalizePath fname) False = Some f" "H a = 0" "content e1 a = Some (visible f)"
    "map_of (file_map e1) (NormalizePath fname) = Some (Some a)" by (rule NewWritableFile_inv [OF assms(1), of now fname])
  obtain f1 where f1: "files e1 a = Some f1" "visible f1 = visible f" using a(5) by (auto simp: content_def)
  have "mem_data f = []" "\<not> is_lock_file f" using a(3) by (auto simp: MemFile_new_def split: bind_splits)
  moreover have "mem_data f1 = mem_data f" "is_lock_file f1 = is_lock_file f"
    using arg_cong [OF f1(2), of mem_data] arg_cong [OF f1(2), of is_lock_file] by (simp_all add: visible_def)
  ultimately have "mem_data f1 = []" "\<not> is_lock_file f1" by simp_all
  then show ?thesis using that a assms(2) f1(1) by (simp add: mock_good_def mock_contents_def deref_def)
qed

text \<open>The file of a name, when it is not a lock file.\<close>

definition file_bytes :: "MockEnv \<Rightarrow> bytes \<Rightarrow> bytes \<Rightarrow> bool" where
  "file_bytes e n x \<longleftrightarrow> (\<exists>a f. map_of (file_map e) n = Some (Some a) \<and> files e a = Some f \<and> \<not> is_lock_file f \<and> mem_data f = x)"

lemma closed_file:
  assumes "mock_good b (H(a := 1)) n a d" "H a = 0"
  shows "\<exists>e. MockWritableFile_delete (fst d) (snd d) = Some e \<and> env_inv H e \<and> file_bytes e n (mock_contents d)"
proof -
  have d: "env_inv (H(a := 1)) (snd d)" "fst d = Some a" "map_of (file_map (snd d)) n = Some (Some a)" using assms(1) by (auto simp: mock_good_def)
  obtain f where f: "files (snd d) a = Some f" "\<not> is_lock_file f" using assms(1) by (auto simp: mock_good_def)
  have pos: "0 < (H(a := 1)) a" by simp
  obtain e where e: "env_Unref (Some a) (snd d) = Some e" "env_inv (H(a := 1, a := (H(a := 1)) a - 1)) e" "file_map e = file_map (snd d)"
    "\<And>c. 0 < names_of (file_map (snd d)) c + (H(a := 1, a := (H(a := 1)) a - 1)) c \<Longrightarrow> content e c = content (snd d) c" by (rule Unref_inv [OF d(1) pos]) (rule that)
  have "0 < names_of (file_map (snd d)) a" using d(3) by (rule names_of_pos)
  then have "content e a = content (snd d) a" using e(4) [of a] by simp
  then obtain f' where f': "files e a = Some f'" "visible f' = visible f" using f(1) by (auto simp: content_def)
  have "mem_data f' = mem_data f" "is_lock_file f' = is_lock_file f"
    using arg_cong [OF f'(2), of mem_data] arg_cong [OF f'(2), of is_lock_file] by (simp_all add: visible_def)
  moreover have "H(a := 1, a := (H(a := 1)) a - 1) = H" using assms(2) by (simp add: fun_upd_idem)
  ultimately show ?thesis using e f f' d by (auto simp: MockWritableFile_delete_def file_bytes_def mock_contents_def deref_def)
qed

lemma write_log_ok:
  assumes "env_inv H e" "b \<noteq> Some 0" "limiter \<noteq> Some 0"
  shows "\<exists>e'. write_log b now max_buffer sync_bytes limiter fname ln rec rs e = Some e' \<and> env_inv H e' \<and>
    file_bytes e' (NormalizePath fname) (log_bytes rec ln 0 rs)"
proof -
  let ?V = "mock_file_ops b now"
  obtain a e1 where a: "NewWritableFile now fname e = Some (Status_OK, Some a, e1)" "mock_good b (H(a := 1)) (NormalizePath fname) a (Some a, e1)"
    "mock_contents (Some a, e1) = []" "H a = 0" by (rule new_file_good [OF assms(1,2)])
  let ?g = "mock_good b (H(a := 1)) (NormalizePath fname) a"
  have f: "?g (wf_state (WritableFile_new (Some a, e1)))" "mock_contents (wf_state (WritableFile_new (Some a, e1))) = []"
    using a(2,3) by (simp_all add: WritableFile_new_def)
  obtain fw where fw: "WritableFileWriter_new ?V (WritableFile_new (Some a, e1)) max_buffer sync_bytes limiter = Some fw"
    "fw_ok mock_contents ?g fw" "file_data mock_contents fw = []" using mockfile.WritableFileWriter_new_ok [OF f assms(3)] by blast
  obtain w where w: "Writer_new fw ln rec = Some w" "writer_ok (fw_ok mock_contents ?g) w" "dest w = fw" "block_offset w = 0"
    "w_log_number w = ln" "recycle_log_files w = rec" using Writer_new_ok [where good = "fw_ok mock_contents ?g", OF fw(2), of ln rec] by blast
  obtain w' where w': "AddRecords (FileWriter_Append ?V) (FileWriter_Flush ?V) rs w = Some w'" "writer_ok (fw_ok mock_contents ?g) w'"
    "file_data mock_contents (dest w') = log_bytes rec ln 0 rs"
    using mockfile.wal.AddRecords_ok [OF w(2), of now rs] w(3-6) fw(3) by auto
  have "fw_ok mock_contents ?g (dest w')" using w'(2) by (simp add: writer_ok_def)
  from mockfile.Close_ok [OF this, of now] obtain d w'' where d: "FileWriter_Close ?V (dest w') = Some (Status_OK, Some d, w'')" "?g d"
    "mock_contents d = log_bytes rec ln 0 rs" using w'(3) by auto
  show ?thesis using closed_file [OF d(2) a(4)] a(1) fw(1) w(1) w'(1) d(1,3) by (auto simp: write_log_def split_beta)
qed

lemma truncate_bytes:
  assumes "env_inv H e" "file_bytes e (NormalizePath fname) x"
  shows "\<exists>e'. MockEnv_Truncate fname n e = Some (Status_OK, e') \<and> env_inv H e' \<and> file_bytes e' (NormalizePath fname) (take n x)"
proof -
  obtain a f where f: "map_of (file_map e) (NormalizePath fname) = Some (Some a)" "files e a = Some f" "\<not> is_lock_file f" "mem_data f = x"
    using assms(2) by (auto simp: file_bytes_def)
  let ?e = "e\<lparr>files := (files e)(a \<mapsto> MemFile_Truncate n f)\<rparr>"
  have "env_inv H ?e" using store_inv [OF assms(1) f(2), of "MemFile_Truncate n f"] by (simp add: MemFile_Truncate_def)
  moreover have "file_bytes ?e (NormalizePath fname) (take n x)" using f by (auto simp: file_bytes_def MemFile_Truncate_def MemFile_Size_def)
  ultimately show ?thesis using f by (auto simp: MockEnv_Truncate_def deref_def store_def)
qed

text \<open>A new reader stands before the first block.\<close>

lemma log_bytes_start: "log_bytes rec ln kBlockSize rs = log_bytes rec ln 0 rs"
proof (cases rs)
  case (Cons r rs')
  have "record_bytes rec ln kBlockSize r = record_bytes rec ln 0 r"
    by (simp add: record_bytes_def start_off_def padding_def header_len_def log_sizes)
  then show ?thesis using Cons by simp
qed simp

lemma read_log_ok:
  assumes "env_inv H e" "file_bytes e (NormalizePath fname) (take n (log_bytes rec ln 0 rs))" "rec \<longrightarrow> ln < 2 ^ 32" "mode \<noteq> kAbsoluteConsistency"
  shows "\<exists>k. read_log mode fname ln check e = Some (take k rs, []) \<and> k \<le> length rs \<and> length (log_bytes rec ln 0 (take k rs)) \<le> n \<and>
    (k < length rs \<longrightarrow> n < length (log_bytes rec ln 0 (take (Suc k) rs)))"
proof -
  let ?x = "take n (log_bytes rec ln 0 rs)"
  obtain a f where f: "map_of (file_map e) (NormalizePath fname) = Some (Some a)" "files e a = Some f" "\<not> is_lock_file f" "mem_data f = ?x"
    using assms(2) by (auto simp: file_bytes_def)
  let ?h = "\<lparr>sf_file = Some a, sf_pos = 0\<rparr>" and ?e = "e\<lparr>files := (files e)(a \<mapsto> MemFile_Ref f)\<rparr>"
  have op: "NewSequentialFile fname e = Some (Status_OK, Some ?h, ?e)"
    using f by (simp add: NewSequentialFile_def MockSequentialFile_new_def env_Ref_def deref_def store_def)
  let ?r = "Reader_new (?h, ?e) True check 0 ln"
  have "mock_live (?h, ?e)" "mock_rest (?h, ?e) = ?x" using f by (simp_all add: mock_live_def mock_rest_def deref_def MemFile_Ref_def)
  then have "at_pos mock_rest mock_live kBlockSize (take n (log_bytes rec ln kBlockSize rs)) ?r"
    by (simp add: at_pos_def Reader_new_def log_bytes_start)
  moreover have "log_ok rec ln ?r" using assms(3) by (simp add: log_ok_def Reader_new_def)
  ultimately obtain k r where k: "ReadRecords (SequentialFileReader_Read mock_Read) (SequentialFileReader_Skip mock_Skip) mode ?r = Some (take k rs, r)"
    "k \<le> length rs" "drops r = drops ?r" "length (log_bytes rec ln kBlockSize (take k rs)) \<le> n"
    "k < length rs \<longrightarrow> n < length (log_bytes rec ln kBlockSize (take (Suc k) rs))"
    using mockseq.ReadRecords_ok [where off = kBlockSize and n = n and rec = rec and ln = ln and rs = rs and r = ?r and mode = mode
      and Skip = "SequentialFileReader_Skip mock_Skip"] assms(4) by blast
  have "drops ?r = []" by (simp add: Reader_new_def)
  then show ?thesis using op k by (intro exI [of _ k]) (simp add: read_log_def log_bytes_start)
qed



text \<open>Any sequence of calls on a writer of such a file.\<close>

lemma fw_calls_mock:
  "fw_ok mock_contents (mock_good b H n a) w \<Longrightarrow>
   \<exists>w'. fw_calls (mock_file_ops b now) cs w = Some (Status_OK, w') \<and> fw_ok mock_contents (mock_good b H n a) w' \<and>
     file_data mock_contents w' = file_data mock_contents w @ concat (map appended cs)"
proof (induction cs arbitrary: w)
  case (Cons c cs)
  have "\<exists>w1. fw_step (mock_file_ops b now) c w = Some (Status_OK, w1) \<and> fw_ok mock_contents (mock_good b H n a) w1 \<and>
      file_data mock_contents w1 = file_data mock_contents w @ appended c"
    using mockfile.Append_ok [OF Cons.prems, of now] mockfile.Flush_keeps [OF Cons.prems, of now] mockfile.Sync_ok [OF Cons.prems, of now]
    by (cases c) (auto simp: file_data_def)
  then show ?case using Cons.IH by fastforce
qed simp

text \<open>
  C32. The buffered file writer on a file of the in-memory environment: after any sequence of \<open>Append\<close>,
  \<open>Flush\<close> and \<open>Sync\<close> calls, all of which return with OK, closing it leaves exactly the appended bytes in the
  file, whatever the buffer size, the periodic range syncs and the rate limiters were.
\<close>

theorem buffered_file_exact:
  assumes "fs_reach H e" "b \<noteq> Some 0" "limiter \<noteq> Some 0"
  shows "\<exists>p e1 w w' d w'' e'. NewWritableFile now fname e = Some (Status_OK, p, e1) \<and>
    WritableFileWriter_new (mock_file_ops b now) (WritableFile_new (p, e1)) max_buffer sync_bytes limiter = Some w \<and>
    fw_calls (mock_file_ops b now) cs w = Some (Status_OK, w') \<and> FileWriter_Close (mock_file_ops b now) w' = Some (Status_OK, Some d, w'') \<and>
    MockWritableFile_delete (fst d) (snd d) = Some e' \<and> file_bytes e' (NormalizePath fname) (concat (map appended cs))"
proof -
  obtain a e1 where a: "NewWritableFile now fname e = Some (Status_OK, Some a, e1)" "mock_good b (H(a := 1)) (NormalizePath fname) a (Some a, e1)"
    "mock_contents (Some a, e1) = []" "H a = 0" by (rule new_file_good [OF fs_reach_inv [OF assms(1)] assms(2)])
  let ?g = "mock_good b (H(a := 1)) (NormalizePath fname) a"
  have f: "?g (wf_state (WritableFile_new (Some a, e1)))" "mock_contents (wf_state (WritableFile_new (Some a, e1))) = []"
    using a(2,3) by (simp_all add: WritableFile_new_def)
  obtain w where w: "WritableFileWriter_new (mock_file_ops b now) (WritableFile_new (Some a, e1)) max_buffer sync_bytes limiter = Some w"
    "fw_ok mock_contents ?g w" "file_data mock_contents w = []" using mockfile.WritableFileWriter_new_ok [OF f assms(3)] by blast
  obtain w' where w': "fw_calls (mock_file_ops b now) cs w = Some (Status_OK, w')" "fw_ok mock_contents ?g w'"
    "file_data mock_contents w' = concat (map appended cs)" using fw_calls_mock [OF w(2), of now cs] w(3) by auto
  obtain d w'' where d: "FileWriter_Close (mock_file_ops b now) w' = Some (Status_OK, Some d, w'')" "?g d"
    "mock_contents d = concat (map appended cs)" using mockfile.Close_ok [OF w'(2), of now] w'(3) by auto
  from closed_file [OF d(2) a(4)] a(1) w(1) w'(1) d(1,3) show ?thesis by metis
qed

theorem buffered_file_exact_witness:
  "\<exists>p e1 w w' d w'' e'. NewWritableFile 0 [47, 97] MockEnv_new = Some (Status_OK, p, e1) \<and>
    WritableFileWriter_new (mock_file_ops None 0) (WritableFile_new (p, e1)) 65536 0 (Some 1) = Some w \<and>
    fw_calls (mock_file_ops None 0) [Call_Append [1, 2], Call_Sync False, Call_Append [3]] w = Some (Status_OK, w') \<and>
    FileWriter_Close (mock_file_ops None 0) w' = Some (Status_OK, Some d, w'') \<and>
    MockWritableFile_delete (fst d) (snd d) = Some e' \<and> file_bytes e' (NormalizePath [47, 97]) [1, 2, 3]"
  using buffered_file_exact [OF fs_start, of None "Some 1" 0 "[47, 97]" 65536 0 "[Call_Append [1, 2], Call_Sync False, Call_Append [3]]"] by simp

end
