(* ===== verification/Blocks.thy ===== *)
theory Blocks
  imports Statuses Hashing
begin

text \<open>
  Blocks of sorted keys: the builder (table/block_builder.h and block_builder.cc), blocks and their
  iterators (table/block.h and block.cc), and the two indexes a seek may use (table/block_hash_index.h,
  block_hash_index.cc, block_prefix_index.h, block_prefix_index.cc).

  Offsets and counts that the code keeps in \<open>uint32_t\<close> are natural numbers here, with the wrap-around
  written out where the code computes with them. A result is \<open>None\<close> when an assertion fails, when memory
  outside the block is used, or when the code does not return. The comparator and the prefix extractor
  are arguments. The key of an iterator is its bytes; \<open>Iter_Key\<close> has the buffers behind them.
\<close>

section \<open>Building\<close>

record BlockBuilder =
  block_restart_interval :: int
  use_delta_encoding :: bool
  bb_buffer :: bytes
  bb_restarts :: "nat list"
  bb_counter :: int
  bb_finished :: bool
  bb_last_key :: bytes

definition BlockBuilder_new :: "int \<Rightarrow> bool \<Rightarrow> BlockBuilder option" where
  "BlockBuilder_new interval delta =
     (if interval \<ge> 1
      then Some \<lparr>block_restart_interval = interval, use_delta_encoding = delta, bb_buffer = [], bb_restarts = [0], bb_counter = 0,
        bb_finished = False, bb_last_key = []\<rparr>
      else None)"

definition BlockBuilder_Reset :: "BlockBuilder \<Rightarrow> BlockBuilder" where
  "BlockBuilder_Reset b = b\<lparr>bb_buffer := [], bb_restarts := [0], bb_counter := 0, bb_finished := False, bb_last_key := []\<rparr>"

definition CurrentSizeEstimate :: "BlockBuilder \<Rightarrow> nat" where
  "CurrentSizeEstimate b = length (bb_buffer b) + length (bb_restarts b) * 4 + 4"

definition EstimateSizeAfterKV :: "bytes \<Rightarrow> bytes \<Rightarrow> BlockBuilder \<Rightarrow> nat" where
  "EstimateSizeAfterKV key value b =
     CurrentSizeEstimate b + length key + length value + (if bb_counter b \<ge> block_restart_interval b then 4 else 0) +
     4 + VarintLength (of_nat (length key)) + VarintLength (of_nat (length value))"

definition put_restarts :: "nat list \<Rightarrow> bytes" where
  "put_restarts rs = concat (map (\<lambda>r. EncodeFixed32 (of_nat r)) rs)"

definition BlockBuilder_Finish :: "BlockBuilder \<Rightarrow> bytes \<times> BlockBuilder" where
  "BlockBuilder_Finish b =
     (let buf = PutFixed32 (bb_buffer b @ put_restarts (bb_restarts b)) (of_nat (length (bb_restarts b))) in
      (buf, b\<lparr>bb_buffer := buf, bb_finished := True\<rparr>))"

fun shared_loop :: "bytes \<Rightarrow> bytes \<Rightarrow> nat" where
  "shared_loop (a # as) (b # bs) = (if a = b then Suc (shared_loop as bs) else 0)"
| "shared_loop _ _ = 0"

definition put_entry :: "nat \<Rightarrow> bytes \<Rightarrow> bytes \<Rightarrow> bytes" where
  "put_entry shared key value =
     EncodeVarint32 (of_nat shared) @ EncodeVarint32 (of_nat (length key - shared)) @ EncodeVarint32 (of_nat (length value)) @
     drop shared key @ value"

definition BlockBuilder_Add :: "bytes \<Rightarrow> bytes \<Rightarrow> BlockBuilder \<Rightarrow> BlockBuilder option" where
  "BlockBuilder_Add key value b =
     (if \<not> bb_finished b \<and> bb_counter b \<le> block_restart_interval b then do {
        let restart = bb_counter b \<ge> block_restart_interval b;
        let shared = (if \<not> restart \<and> use_delta_encoding b then shared_loop (bb_last_key b) key else 0);
        let last = take shared (bb_last_key b) @ drop shared key;
        if last = key then
          Some (b\<lparr>bb_restarts := (if restart then bb_restarts b @ [length (bb_buffer b) mod 2 ^ 32] else bb_restarts b),
            bb_buffer := bb_buffer b @ put_entry shared key value,
            bb_last_key := last,
            bb_counter := (if restart then 0 else bb_counter b) + 1\<rparr>)
        else None }
      else None)"

definition BlockBuilder_empty :: "BlockBuilder \<Rightarrow> bool" where
  "BlockBuilder_empty b \<longleftrightarrow> bb_buffer b = []"

fun BlockBuilder_AddAll :: "(bytes \<times> bytes) list \<Rightarrow> BlockBuilder \<Rightarrow> BlockBuilder option" where
  "BlockBuilder_AddAll [] b = Some b"
| "BlockBuilder_AddAll ((k, v) # kvs) b = do { b \<leftarrow> BlockBuilder_Add k v b; BlockBuilder_AddAll kvs b }"

section \<open>Entries\<close>

text \<open>The bytes from \<open>p\<close> to the limit; the three values and the bytes after them, or a null pointer.\<close>

definition DecodeEntry :: "bytes \<Rightarrow> (u32 \<times> u32 \<times> u32 \<times> bytes) option" where
  "DecodeEntry p =
     (if length p < 3 then None
      else do {
        let a = (ucast (p ! 0) :: u32);
        let b = ucast (p ! 1);
        let c = ucast (p ! 2);
        (shared, non_shared, value_length, p) \<leftarrow>
          (if a OR b OR c < 128 then Some (a, b, c, drop 3 p)
           else do {
             (shared, p) \<leftarrow> GetVarint32Ptr p;
             (non_shared, p) \<leftarrow> GetVarint32Ptr p;
             (value_length, p) \<leftarrow> GetVarint32Ptr p;
             Some (shared, non_shared, value_length, p) });
        if of_nat (length p) < non_shared + value_length then None else Some (shared, non_shared, value_length, p) })"

section \<open>The hash index\<close>

record BlockHashIndex =
  hash_key_extractor :: "bytes \<Rightarrow> bytes option"
  restart_indices :: "(bytes \<times> nat \<times> nat) list"

definition BlockHashIndex_new :: "(bytes \<Rightarrow> bytes option) \<Rightarrow> BlockHashIndex" where
  "BlockHashIndex_new extractor = \<lparr>hash_key_extractor = extractor, restart_indices = []\<rparr>"

definition BlockHashIndex_Add :: "bytes \<Rightarrow> nat \<Rightarrow> nat \<Rightarrow> BlockHashIndex \<Rightarrow> bool \<times> BlockHashIndex" where
  "BlockHashIndex_Add prefix restart_index num_blocks x =
     (if map_of (restart_indices x) prefix = None then (True, x\<lparr>restart_indices := (prefix, restart_index, num_blocks) # restart_indices x\<rparr>)
      else (False, x))"

definition GetRestartIndex :: "bytes \<Rightarrow> BlockHashIndex \<Rightarrow> (nat \<times> nat) option option" where
  "GetRestartIndex key x = do { key_prefix \<leftarrow> hash_key_extractor x key; Some (map_of (restart_indices x) key_prefix) }"

text \<open>Three numbers of the metadata; \<open>None\<close> if it is corrupted.\<close>

definition get_meta :: "bytes \<Rightarrow> (nat \<times> nat \<times> nat \<times> bytes) option" where
  "get_meta meta = do {
     (prefix_size, meta) \<leftarrow> GetVarint32 meta;
     (entry_index, meta) \<leftarrow> GetVarint32 meta;
     (num_blocks, meta) \<leftarrow> GetVarint32 meta;
     Some (unat prefix_size, unat entry_index, unat num_blocks, meta) }"

lemma get_meta_shorter: "get_meta m = Some (a, b, c, m') \<Longrightarrow> length m' < length m"
  by (auto simp: get_meta_def split: bind_splits dest!: GetVarint32_suffix)

text \<open>The prefix must lie in the block of prefixes to be hashed; that is not checked.\<close>

function hash_index_loop :: "bytes \<Rightarrow> nat \<Rightarrow> bytes \<Rightarrow> BlockHashIndex \<Rightarrow> (Status \<times> nat \<times> BlockHashIndex) option" where
  "hash_index_loop prefixes pos meta x =
     (if meta = [] then Some (Status_OK, pos, x)
      else case get_meta meta of
        None \<Rightarrow> do { s \<leftarrow> Corruption_msg (lit ''Corrupted prefix meta block: unable to read from it.'') []; Some (s, pos, x) }
      | Some (prefix_size, entry_index, num_blocks, meta') \<Rightarrow>
          (if pos + prefix_size \<le> length prefixes
           then hash_index_loop prefixes (pos + prefix_size) meta'
             (snd (BlockHashIndex_Add (take prefix_size (drop pos prefixes)) entry_index num_blocks x))
           else None))"
  by pat_completeness auto
termination
  by (relation "measure (\<lambda>(prefixes, pos, meta, x). length meta)") (auto dest: get_meta_shorter)

declare hash_index_loop.simps [simp del]

definition CreateBlockHashIndex :: "(bytes \<Rightarrow> bytes option) \<Rightarrow> bytes \<Rightarrow> bytes \<Rightarrow> (Status \<times> BlockHashIndex option) option" where
  "CreateBlockHashIndex extractor prefixes prefix_meta = do {
     (s, pos, x) \<leftarrow> hash_index_loop prefixes 0 prefix_meta (BlockHashIndex_new extractor);
     s \<leftarrow> (if ok s \<and> pos \<noteq> length prefixes then Corruption_msg (lit ''Corrupted prefix meta block'') [] else Some s);
     Some (s, if ok s then Some x else None) }"

section \<open>The prefix index\<close>

definition PrefixToBucket :: "bytes \<Rightarrow> nat \<Rightarrow> nat option" where
  "PrefixToBucket prefix num_buckets = do { h \<leftarrow> Hash prefix 0; if num_buckets = 0 then None else Some (unat h mod num_buckets) }"

definition kNoneBlock :: u32 where "kNoneBlock = 0x7FFFFFFF"
definition kBlockArrayMask :: u32 where "kBlockArrayMask = 0x80000000"

definition IsNone :: "u32 \<Rightarrow> bool" where "IsNone block_id \<longleftrightarrow> block_id = kNoneBlock"
definition IsBlockId :: "u32 \<Rightarrow> bool" where "IsBlockId block_id \<longleftrightarrow> block_id AND kBlockArrayMask = 0"

definition DecodeIndex :: "u32 \<Rightarrow> u32 option" where
  "DecodeIndex block_id = (let index = block_id XOR kBlockArrayMask in if index < kBlockArrayMask then Some index else None)"

definition EncodeIndex :: "u32 \<Rightarrow> u32 option" where
  "EncodeIndex index = (if index < kBlockArrayMask then Some (index OR kBlockArrayMask) else None)"

text \<open>A record of the builder; the linked list of a bucket is a list of records, the newest first.\<close>

record PrefixRecord =
  pr_prefix :: bytes
  start_block :: u32
  end_block :: u32
  num_blocks :: u32

definition PrefixIndex_Add :: "bytes \<Rightarrow> u32 \<Rightarrow> u32 \<Rightarrow> PrefixRecord list \<Rightarrow> PrefixRecord list" where
  "PrefixIndex_Add key_prefix start num prefixes =
     prefixes @ [\<lparr>pr_prefix = key_prefix, start_block = start, end_block = start + num - 1, num_blocks = num\<rparr>]"

text \<open>One record goes to its bucket: it is merged with the newest one there if it continues it.\<close>

definition add_to_bucket :: "PrefixRecord \<Rightarrow> PrefixRecord list \<times> u32 \<Rightarrow> (PrefixRecord list \<times> u32) option" where
  "add_to_bucket current bucket =
     (case bucket of
        ([], n) \<Rightarrow> Some ([current], n + num_blocks current)
      | (prev # rest, n) \<Rightarrow>
          (if start_block current \<ge> end_block prev then
             (let distance = start_block current - end_block prev in
              Some (if distance \<le> 1
                then (prev\<lparr>end_block := end_block current, num_blocks := end_block current - start_block prev + 1\<rparr> # rest,
                      n + (num_blocks current + distance - 1))
                else (current # prev # rest, n + num_blocks current)))
           else None))"

fun collect_buckets :: "PrefixRecord list \<Rightarrow> (PrefixRecord list \<times> u32) list \<Rightarrow> (PrefixRecord list \<times> u32) list option" where
  "collect_buckets [] buckets = Some buckets"
| "collect_buckets (current # rs) buckets = do {
     i \<leftarrow> PrefixToBucket (pr_prefix current) (length buckets);
     b \<leftarrow> add_to_bucket current (buckets ! i);
     collect_buckets rs (buckets[i := b]) }"

text \<open>The block ids of a record from the first to the last, and those of a bucket in increasing order.\<close>

definition record_blocks :: "PrefixRecord \<Rightarrow> u32 list" where
  "record_blocks r = rev (map (\<lambda>i. end_block r - of_nat i) [0..<unat (num_blocks r)])"

definition bucket_blocks :: "PrefixRecord list \<Rightarrow> u32 list" where
  "bucket_blocks rs = concat (map record_blocks (rev rs))"

record BlockPrefixIndex =
  internal_prefix_extractor :: "bytes \<Rightarrow> bytes option"
  pi_buckets :: "u32 list"
  block_array_buffer :: "u32 list"

text \<open>
  The buckets in turn; the array grows by one entry for the number of blocks and one for each of them. The
  last assertion of each turn is that the blocks fill the entries.
\<close>

fun fill_buckets :: "(PrefixRecord list \<times> u32) list \<Rightarrow> u32 list \<Rightarrow> u32 list \<Rightarrow> (u32 list \<times> u32 list) option" where
  "fill_buckets [] bs arr = Some (bs, arr)"
| "fill_buckets ((rs, n) # rest) bs arr =
     (if n = 0 then (if rs = [] then fill_buckets rest (bs @ [kNoneBlock]) arr else None)
      else if n = 1 then (case rs of [r] \<Rightarrow> fill_buckets rest (bs @ [start_block r]) arr | _ \<Rightarrow> None)
      else do {
        b \<leftarrow> EncodeIndex (of_nat (length arr));
        if rs \<noteq> [] \<and> length (bucket_blocks rs) = unat n then fill_buckets rest (bs @ [b]) (arr @ [n] @ bucket_blocks rs) else None })"

definition PrefixIndex_Finish :: "(bytes \<Rightarrow> bytes option) \<Rightarrow> PrefixRecord list \<Rightarrow> BlockPrefixIndex option" where
  "PrefixIndex_Finish extractor prefixes = do {
     let num_buckets = Suc (length prefixes);
     buckets \<leftarrow> collect_buckets prefixes (replicate num_buckets ([], 0));
     (bs, arr) \<leftarrow> fill_buckets buckets [] [];
     Some \<lparr>internal_prefix_extractor = extractor, pi_buckets = bs, block_array_buffer = arr\<rparr> }"

function prefix_index_loop :: "bytes \<Rightarrow> nat \<Rightarrow> bytes \<Rightarrow> PrefixRecord list \<Rightarrow> (Status \<times> nat \<times> PrefixRecord list) option" where
  "prefix_index_loop prefixes pos meta rs =
     (if meta = [] then Some (Status_OK, pos, rs)
      else case get_meta meta of
        None \<Rightarrow> do { s \<leftarrow> Corruption_msg (lit ''Corrupted prefix meta block: unable to read from it.'') []; Some (s, pos, rs) }
      | Some (prefix_size, entry_index, n, meta') \<Rightarrow>
          (if pos + prefix_size > length prefixes
           then do { s \<leftarrow> Corruption_msg (lit ''Corrupted prefix meta block: size inconsistency.'') []; Some (s, pos, rs) }
           else prefix_index_loop prefixes (pos + prefix_size) meta'
             (PrefixIndex_Add (take prefix_size (drop pos prefixes)) (of_nat entry_index) (of_nat n) rs)))"
  by pat_completeness auto
termination
  by (relation "measure (\<lambda>(prefixes, pos, meta, x). length meta)") (auto dest: get_meta_shorter)

declare prefix_index_loop.simps [simp del]

definition BlockPrefixIndex_Create :: "(bytes \<Rightarrow> bytes option) \<Rightarrow> bytes \<Rightarrow> bytes \<Rightarrow> (Status \<times> BlockPrefixIndex option) option" where
  "BlockPrefixIndex_Create extractor prefixes prefix_meta = do {
     (s, pos, rs) \<leftarrow> prefix_index_loop prefixes 0 prefix_meta [];
     s \<leftarrow> (if ok s \<and> pos \<noteq> length prefixes then Corruption_msg (lit ''Corrupted prefix meta block'') [] else Some s);
     if ok s then do { x \<leftarrow> PrefixIndex_Finish extractor rs; Some (s, Some x) } else Some (s, None) }"

definition GetBlocks :: "bytes \<Rightarrow> BlockPrefixIndex \<Rightarrow> u32 list option" where
  "GetBlocks key x = do {
     prefix \<leftarrow> internal_prefix_extractor x key;
     bucket \<leftarrow> PrefixToBucket prefix (length (pi_buckets x));
     let block_id = pi_buckets x ! bucket;
     if IsNone block_id then Some []
     else if IsBlockId block_id then Some [block_id]
     else do {
       index \<leftarrow> DecodeIndex block_id;
       n \<leftarrow> nth_opt (block_array_buffer x) (unat index);
       if n > 1 \<and> unat index + unat n < length (block_array_buffer x)
       then Some (take (unat n) (drop (unat index + 1) (block_array_buffer x))) else None } }"

section \<open>Iterators\<close>

text \<open>
  The value is an offset and a length in the block; \<open>None\<close> for an empty slice that does not point there.
\<close>

record BlockIter =
  bi_data :: "bytes option"
  bi_restarts :: nat
  bi_num_restarts :: nat
  bi_current :: nat
  bi_restart_index :: nat
  bi_key :: bytes
  bi_value :: "(nat \<times> nat) option"
  bi_status :: Status
  bi_hash_index :: "BlockHashIndex option"
  bi_prefix_index :: "BlockPrefixIndex option"

definition BlockIter_new :: BlockIter where
  "BlockIter_new = \<lparr>bi_data = None, bi_restarts = 0, bi_num_restarts = 0, bi_current = 0, bi_restart_index = 0, bi_key = [], bi_value = None,
     bi_status = Status_OK, bi_hash_index = None, bi_prefix_index = None\<rparr>"

definition BlockIter_Initialize ::
    "bytes \<Rightarrow> nat \<Rightarrow> nat \<Rightarrow> BlockHashIndex option \<Rightarrow> BlockPrefixIndex option \<Rightarrow> BlockIter \<Rightarrow> BlockIter option" where
  "BlockIter_Initialize d restarts num_restarts hash_index prefix_index it =
     (if bi_data it = None \<and> num_restarts > 0
      then Some (it\<lparr>bi_data := Some d, bi_restarts := restarts, bi_num_restarts := num_restarts, bi_current := restarts,
        bi_restart_index := num_restarts, bi_hash_index := hash_index, bi_prefix_index := prefix_index\<rparr>)
      else None)"

definition BlockIter_SetStatus :: "Status \<Rightarrow> BlockIter \<Rightarrow> BlockIter" where
  "BlockIter_SetStatus s it = it\<lparr>bi_status := s\<rparr>"

definition BlockIter_Valid :: "BlockIter \<Rightarrow> bool" where
  "BlockIter_Valid it \<longleftrightarrow> bi_current it < bi_restarts it"

definition BlockIter_key :: "BlockIter \<Rightarrow> bytes option" where
  "BlockIter_key it = (if BlockIter_Valid it then Some (bi_key it) else None)"

definition BlockIter_value :: "BlockIter \<Rightarrow> bytes option" where
  "BlockIter_value it =
     (if BlockIter_Valid it then do { d \<leftarrow> bi_data it; (off, n) \<leftarrow> bi_value it; Some (take n (drop off d)) } else None)"

definition NextEntryOffset :: "BlockIter \<Rightarrow> nat option" where
  "NextEntryOffset it = do { (off, n) \<leftarrow> bi_value it; Some ((off + n) mod 2 ^ 32) }"

definition GetRestartPoint :: "nat \<Rightarrow> BlockIter \<Rightarrow> nat option" where
  "GetRestartPoint index it =
     (if index < bi_num_restarts it then do {
        d \<leftarrow> bi_data it;
        v \<leftarrow> DecodeFixed32 (drop (bi_restarts it + index * 4) d);
        Some (unat v) }
      else None)"

definition SeekToRestartPoint :: "nat \<Rightarrow> BlockIter \<Rightarrow> BlockIter option" where
  "SeekToRestartPoint index it = do {
     offset \<leftarrow> GetRestartPoint index it;
     d \<leftarrow> bi_data it;
     if offset \<le> length d then Some (it\<lparr>bi_key := [], bi_restart_index := index, bi_value := Some (offset, 0)\<rparr>) else None }"

definition CorruptionError :: "BlockIter \<Rightarrow> BlockIter option" where
  "CorruptionError it = do {
     s \<leftarrow> Corruption_msg (lit ''bad entry in block'') [];
     Some (it\<lparr>bi_current := bi_restarts it, bi_restart_index := bi_num_restarts it, bi_status := s, bi_key := [], bi_value := None\<rparr>) }"

partial_function (option) advance_restart :: "BlockIter \<Rightarrow> BlockIter option" where
  "advance_restart it =
     (if bi_restart_index it + 1 < bi_num_restarts it then do {
        p \<leftarrow> GetRestartPoint (bi_restart_index it + 1) it;
        if p < bi_current it then advance_restart (it\<lparr>bi_restart_index := bi_restart_index it + 1\<rparr>) else Some it }
      else Some it)"

definition ParseNextKey :: "BlockIter \<Rightarrow> (bool \<times> BlockIter) option" where
  "ParseNextKey it = do {
     d \<leftarrow> bi_data it;
     cur \<leftarrow> NextEntryOffset it;
     let it = it\<lparr>bi_current := cur\<rparr>;
     if cur \<ge> bi_restarts it then Some (False, it\<lparr>bi_current := bi_restarts it, bi_restart_index := bi_num_restarts it\<rparr>)
     else case DecodeEntry (take (bi_restarts it - cur) (drop cur d)) of
       None \<Rightarrow> do { it \<leftarrow> CorruptionError it; Some (False, it) }
     | Some (shared, non_shared, value_length, rest) \<Rightarrow>
         (if length (bi_key it) < unat shared then do { it \<leftarrow> CorruptionError it; Some (False, it) }
          else do {
            let p = bi_restarts it - length rest;
            if p + unat non_shared + unat value_length > length d then None
            else do {
              let delta = take (unat non_shared) (drop p d);
              it \<leftarrow> advance_restart (it\<lparr>bi_key := (if shared = 0 then delta else take (unat shared) (bi_key it) @ delta),
                bi_value := Some (p + unat non_shared, unat value_length)\<rparr>);
              Some (True, it) } }) }"

definition BlockIter_Next :: "BlockIter \<Rightarrow> BlockIter option" where
  "BlockIter_Next it = (if BlockIter_Valid it then map_option snd (ParseNextKey it) else None)"

text \<open>The search for a restart point before the entry; false if there is none.\<close>

partial_function (option) prev_restart :: "nat \<Rightarrow> BlockIter \<Rightarrow> (bool \<times> BlockIter) option" where
  "prev_restart original it = do {
     p \<leftarrow> GetRestartPoint (bi_restart_index it) it;
     if p \<ge> original then
       (if bi_restart_index it = 0 then Some (False, it\<lparr>bi_current := bi_restarts it, bi_restart_index := bi_num_restarts it\<rparr>)
        else prev_restart original (it\<lparr>bi_restart_index := bi_restart_index it - 1\<rparr>))
     else Some (True, it) }"

text \<open>Entries are parsed until one ends at the offset given, or beyond it.\<close>

partial_function (option) parse_until :: "nat \<Rightarrow> BlockIter \<Rightarrow> BlockIter option" where
  "parse_until limit it = do {
     (b, it) \<leftarrow> ParseNextKey it;
     if \<not> b then Some it else do { n \<leftarrow> NextEntryOffset it; if n < limit then parse_until limit it else Some it } }"

definition BlockIter_Prev :: "BlockIter \<Rightarrow> BlockIter option" where
  "BlockIter_Prev it =
     (if BlockIter_Valid it then do {
        let original = bi_current it;
        (b, it) \<leftarrow> prev_restart original it;
        if \<not> b then Some it else do { it \<leftarrow> SeekToRestartPoint (bi_restart_index it) it; parse_until original it } }
      else None)"

definition SeekToFirst :: "BlockIter \<Rightarrow> BlockIter option" where
  "SeekToFirst it = (if bi_data it = None then Some it else do { it \<leftarrow> SeekToRestartPoint 0 it; map_option snd (ParseNextKey it) })"

definition SeekToLast :: "BlockIter \<Rightarrow> BlockIter option" where
  "SeekToLast it =
     (if bi_data it = None then Some it
      else do { it \<leftarrow> SeekToRestartPoint (bi_num_restarts it - 1) it; parse_until (bi_restarts it) it })"

text \<open>The key at a restart point: \<open>None\<close> if the entry there is corrupted.\<close>

definition restart_key :: "nat \<Rightarrow> BlockIter \<Rightarrow> bytes option option" where
  "restart_key index it = do {
     d \<leftarrow> bi_data it;
     region_offset \<leftarrow> GetRestartPoint index it;
     case DecodeEntry (take (bi_restarts it - region_offset) (drop region_offset d)) of
       None \<Rightarrow> Some None
     | Some (shared, non_shared, value_length, rest) \<Rightarrow>
         (if shared \<noteq> 0 then Some None
          else do {
            let p = bi_restarts it - length rest;
            if p + unat non_shared > length d then None else Some (Some (take (unat non_shared) (drop p d))) }) }"

partial_function (option) BinarySeek ::
    "(bytes \<Rightarrow> bytes \<Rightarrow> int option) \<Rightarrow> bytes \<Rightarrow> nat \<Rightarrow> nat \<Rightarrow> BlockIter \<Rightarrow> (nat option \<times> BlockIter) option" where
  "BinarySeek Compare target left right it =
     (if left > right then None
      else if left < right then do {
        let mid = (left + right + 1) mod 2 ^ 32 div 2;
        k \<leftarrow> restart_key mid it;
        case k of
          None \<Rightarrow> do { it \<leftarrow> CorruptionError it; Some (None, it) }
        | Some mid_key \<Rightarrow> do {
            c \<leftarrow> Compare mid_key target;
            if c < 0 then BinarySeek Compare target mid right it
            else if c > 0 then BinarySeek Compare target left (mid - 1) it
            else BinarySeek Compare target mid mid it } }
      else Some (Some left, it))"

definition CompareBlockKey :: "(bytes \<Rightarrow> bytes \<Rightarrow> int option) \<Rightarrow> nat \<Rightarrow> bytes \<Rightarrow> BlockIter \<Rightarrow> (int \<times> BlockIter) option" where
  "CompareBlockKey Compare block_index target it = do {
     k \<leftarrow> restart_key block_index it;
     case k of
       None \<Rightarrow> do { it \<leftarrow> CorruptionError it; Some (1, it) }
     | Some block_key \<Rightarrow> do { c \<leftarrow> Compare block_key target; Some (c, it) } }"

text \<open>The loop: false if a block key was corrupted, and the bounds when it ends.\<close>

partial_function (option) block_index_loop ::
    "(bytes \<Rightarrow> bytes \<Rightarrow> int option) \<Rightarrow> bytes \<Rightarrow> u32 list \<Rightarrow> nat \<Rightarrow> nat \<Rightarrow> BlockIter \<Rightarrow> (bool \<times> nat \<times> nat \<times> BlockIter) option" where
  "block_index_loop Compare target block_ids left right it =
     (if left \<le> right then do {
        let mid = (left + right) mod 2 ^ 32 div 2;
        b \<leftarrow> nth_opt block_ids mid;
        (c, it) \<leftarrow> CompareBlockKey Compare (unat b) target it;
        if \<not> ok (bi_status it) then Some (False, left, right, it)
        else if c < 0 then block_index_loop Compare target block_ids (mid + 1) right it
        else if left = right then Some (True, left, right, it)
        else block_index_loop Compare target block_ids left mid it }
      else Some (True, left, right, it))"

definition BinaryBlockIndexSeek ::
    "(bytes \<Rightarrow> bytes \<Rightarrow> int option) \<Rightarrow> bytes \<Rightarrow> u32 list \<Rightarrow> nat \<Rightarrow> nat \<Rightarrow> BlockIter \<Rightarrow> (nat option \<times> BlockIter) option" where
  "BinaryBlockIndexSeek Compare target block_ids left right it =
     (if left > right then None
      else do {
        let left_bound = left;
        (b, left, right, it) \<leftarrow> block_index_loop Compare target block_ids left right it;
        if \<not> b then Some (None, it)
        else if left = right then do {
          x \<leftarrow> nth_opt block_ids left;
          gap \<leftarrow> (if x > 0 then (if left = left_bound then Some True else do { y \<leftarrow> nth_opt block_ids (left - 1); Some (y \<noteq> x - 1) }) else Some False);
          (c, it) \<leftarrow> (if gap then CompareBlockKey Compare (unat (x - 1)) target it else Some (0, it));
          if c > 0 then Some (None, it\<lparr>bi_current := bi_restarts it\<rparr>) else Some (Some (unat x), it) }
        else Some (None, it\<lparr>bi_current := bi_restarts it\<rparr>) })"

definition HashSeek :: "(bytes \<Rightarrow> bytes \<Rightarrow> int option) \<Rightarrow> bytes \<Rightarrow> BlockIter \<Rightarrow> (nat option \<times> BlockIter) option" where
  "HashSeek Compare target it = do {
     x \<leftarrow> bi_hash_index it;
     r \<leftarrow> GetRestartIndex target x;
     case r of
       None \<Rightarrow> Some (None, it\<lparr>bi_current := bi_restarts it\<rparr>)
     | Some (first_index, n) \<Rightarrow> BinarySeek Compare target first_index ((first_index + n + 2 ^ 32 - 1) mod 2 ^ 32) it }"

definition PrefixSeek :: "(bytes \<Rightarrow> bytes \<Rightarrow> int option) \<Rightarrow> bytes \<Rightarrow> BlockIter \<Rightarrow> (nat option \<times> BlockIter) option" where
  "PrefixSeek Compare target it = do {
     x \<leftarrow> bi_prefix_index it;
     block_ids \<leftarrow> GetBlocks target x;
     if block_ids = [] then Some (None, it\<lparr>bi_current := bi_restarts it\<rparr>)
     else BinaryBlockIndexSeek Compare target block_ids 0 (length block_ids - 1) it }"

text \<open>The linear search for the first key that is not before the target.\<close>

partial_function (option) linear_seek :: "(bytes \<Rightarrow> bytes \<Rightarrow> int option) \<Rightarrow> bytes \<Rightarrow> BlockIter \<Rightarrow> BlockIter option" where
  "linear_seek Compare target it = do {
     (b, it) \<leftarrow> ParseNextKey it;
     if \<not> b then Some it
     else do { c \<leftarrow> Compare (bi_key it) target; if c \<ge> 0 then Some it else linear_seek Compare target it } }"

definition BlockIter_Seek :: "(bytes \<Rightarrow> bytes \<Rightarrow> int option) \<Rightarrow> bytes \<Rightarrow> BlockIter \<Rightarrow> BlockIter option" where
  "BlockIter_Seek Compare target it =
     (if bi_data it = None then Some it
      else do {
        (index, it) \<leftarrow> (if bi_prefix_index it \<noteq> None then PrefixSeek Compare target it
                         else if bi_hash_index it \<noteq> None then HashSeek Compare target it
                         else BinarySeek Compare target 0 (bi_num_restarts it - 1) it);
        case index of
          None \<Rightarrow> Some it
        | Some index \<Rightarrow> do { it \<leftarrow> SeekToRestartPoint index it; linear_seek Compare target it } })"

section \<open>Blocks\<close>

record Block =
  blk_data :: bytes
  blk_size :: nat
  restart_offset :: nat
  blk_hash_index :: "BlockHashIndex option"
  blk_prefix_index :: "BlockPrefixIndex option"

definition NumRestarts :: "Block \<Rightarrow> nat option" where
  "NumRestarts b = (if blk_size b \<ge> 2 * 4 then do { v \<leftarrow> DecodeFixed32 (drop (blk_size b - 4) (blk_data b)); Some (unat v) } else None)"

text \<open>The offset is a 32-bit subtraction, whose wrap-around the constructor means to detect.\<close>

definition Block_new :: "bytes \<Rightarrow> Block option" where
  "Block_new contents =
     (let b = \<lparr>blk_data = contents, blk_size = length contents, restart_offset = 0, blk_hash_index = None, blk_prefix_index = None\<rparr> in
      if blk_size b < 4 then Some (b\<lparr>blk_size := 0\<rparr>)
      else do {
        n \<leftarrow> NumRestarts b;
        let b = b\<lparr>restart_offset := (2 ^ 64 + blk_size b mod 2 ^ 32 - (1 + n) mod 2 ^ 32 * 4) mod 2 ^ 32\<rparr>;
        Some (if restart_offset b > blk_size b - 4 then b\<lparr>blk_size := 0\<rparr> else b) })"

definition SetBlockHashIndex :: "BlockHashIndex \<Rightarrow> Block \<Rightarrow> Block" where
  "SetBlockHashIndex x b = b\<lparr>blk_hash_index := Some x\<rparr>"

definition SetBlockPrefixIndex :: "BlockPrefixIndex \<Rightarrow> Block \<Rightarrow> Block" where
  "SetBlockPrefixIndex x b = b\<lparr>blk_prefix_index := Some x\<rparr>"

text \<open>The caller's iterator is set up.\<close>

definition Block_NewIterator :: "BlockIter \<Rightarrow> bool \<Rightarrow> Block \<Rightarrow> BlockIter option" where
  "Block_NewIterator it total_order_seek b =
     (if blk_size b < 2 * 4 then do { s \<leftarrow> Corruption_msg (lit ''bad block contents'') []; Some (BlockIter_SetStatus s it) }
      else do {
        num_restarts \<leftarrow> NumRestarts b;
        if num_restarts = 0 then Some (BlockIter_SetStatus Status_OK it)
        else BlockIter_Initialize (blk_data b) (restart_offset b) num_restarts
          (if total_order_seek then None else blk_hash_index b) (if total_order_seek then None else blk_prefix_index b) it })"

end
