(* ===== verification/Block_Format.thy ===== *)
theory Block_Format
  imports Blocks
begin

text \<open>
  What a block is: entries one after the other, each with a key that shares a prefix with the one before,
  and the offsets of the entries that share nothing, the restart points. The builder produces this
  format, and the entry decoder and the restart array read it back.
\<close>

section \<open>The format\<close>

text \<open>An entry: the number of shared bytes, the key and the value.\<close>

type_synonym entries = "(nat \<times> bytes \<times> bytes) list"

definition enc :: "entries \<Rightarrow> bytes" where
  "enc es = concat (map (\<lambda>(s, k, v). put_entry s k v) es)"

definition off :: "entries \<Rightarrow> nat \<Rightarrow> nat" where
  "off es i = length (enc (take i es))"

definition sh :: "entries \<Rightarrow> nat \<Rightarrow> nat" where "sh es i = fst (es ! i)"
definition ky :: "entries \<Rightarrow> nat \<Rightarrow> bytes" where "ky es i = fst (snd (es ! i))"
definition vl :: "entries \<Rightarrow> nat \<Rightarrow> bytes" where "vl es i = snd (snd (es ! i))"

definition chain :: "entries \<Rightarrow> bool" where
  "chain es \<longleftrightarrow> (\<forall>i < length es. sh es i \<le> length (ky es i) \<and>
     (sh es i = 0 \<or> 0 < i \<and> sh es i \<le> length (ky es (i - 1)) \<and> take (sh es i) (ky es (i - 1)) = take (sh es i) (ky es i)))"

text \<open>The indices of the entries that are restart points.\<close>

definition restarts_ok :: "entries \<Rightarrow> nat list \<Rightarrow> bool" where
  "restarts_ok es R \<longleftrightarrow> R \<noteq> [] \<and> R ! 0 = 0 \<and> sorted_wrt (<) R \<and> (\<forall>i \<in> set R. (i < length es \<or> i = 0) \<and> (i < length es \<longrightarrow> sh es i = 0))"

definition block_bytes :: "entries \<Rightarrow> nat list \<Rightarrow> bytes" where
  "block_bytes es R = enc es @ put_restarts (map (off es) R) @ EncodeFixed32 (of_nat (length R))"

lemma enc_simps [simp]: "enc [] = []" "enc ((s, k, v) # es) = put_entry s k v @ enc es" "enc (es @ fs) = enc es @ enc fs"
  by (simp_all add: enc_def)

lemma off_0 [simp]: "off es 0 = 0"
  by (simp add: off_def)

lemma off_append: "i \<le> length es \<Longrightarrow> off (es @ fs) i = off es i"
  by (simp add: off_def)

lemma off_length: "off es (length es) = length (enc es)"
  by (simp add: off_def)

lemma enc_split: "enc es = enc (take i es) @ enc (drop i es)"
  by (metis append_take_drop_id enc_simps(3))

lemma drop_off: "drop (off es i) (enc es) = enc (drop i es)"
  unfolding off_def by (subst enc_split [of es i]) simp

lemma take_off: "take (off es i) (enc es) = enc (take i es)"
  unfolding off_def by (subst enc_split [of es i]) simp

lemma off_le: "off es i \<le> length (enc es)"
  unfolding off_def by (subst enc_split [of es i]) simp

lemma entry_eq: "i < length es \<Longrightarrow> drop i es = (sh es i, ky es i, vl es i) # drop (Suc i) es"
  by (simp add: Cons_nth_drop_Suc [symmetric] sh_def ky_def vl_def)

lemma enc_drop: "i < length es \<Longrightarrow> enc (drop i es) = put_entry (sh es i) (ky es i) (vl es i) @ enc (drop (Suc i) es)"
  by (simp add: entry_eq)

lemma off_Suc: "i < length es \<Longrightarrow> off es (Suc i) = off es i + length (put_entry (sh es i) (ky es i) (vl es i))"
  by (simp add: off_def take_Suc_conv_app_nth sh_def ky_def vl_def split_beta) (simp add: enc_def split_beta)

lemma put_entry_pos: "0 < length (put_entry s k v)"
  by (simp add: put_entry_def EncodeVarint32_def)

lemma off_less: "i < j \<Longrightarrow> j \<le> length es \<Longrightarrow> off es i < off es j"
proof (induction j)
  case (Suc j)
  have "off es j < off es (Suc j)" using Suc.prems off_Suc [of j es] put_entry_pos by simp
  then show ?case using Suc by (cases "i = j") auto
qed simp

lemma off_less_iff: "i \<le> length es \<Longrightarrow> j \<le> length es \<Longrightarrow> off es i < off es j \<longleftrightarrow> i < j"
  using off_less [of i j es] off_less [of j i es] by (metis less_irrefl less_trans linorder_neqE_nat)

text \<open>Keys are not longer than what is stored up to them.\<close>

lemma key_length: "chain es \<Longrightarrow> i < length es \<Longrightarrow> length (ky es i) \<le> off es (Suc i)"
proof (induction i)
  case 0
  then have "sh es 0 = 0" by (auto simp: chain_def)
  then show ?case using 0 off_Suc [of 0 es] by (simp add: put_entry_def)
next
  case (Suc i)
  have "sh es (Suc i) \<le> length (ky es (Suc i))" "sh es (Suc i) = 0 \<or> sh es (Suc i) \<le> length (ky es i)"
    using Suc.prems unfolding chain_def by fastforce+
  moreover have "length (ky es i) \<le> off es (Suc i)" using Suc by simp
  ultimately show ?case using off_Suc [OF Suc.prems(2)] by (auto simp: put_entry_def)
qed

section \<open>The builder produces the format\<close>

lemma shared_loop_ok: "shared_loop a b \<le> length a \<and> shared_loop a b \<le> length b \<and> take (shared_loop a b) a = take (shared_loop a b) b"
  by (induction a b rule: shared_loop.induct) auto

definition last_key_of :: "entries \<Rightarrow> bytes" where
  "last_key_of es = (if es = [] then [] else ky es (length es - 1))"

definition builder_inv :: "entries \<Rightarrow> nat list \<Rightarrow> BlockBuilder \<Rightarrow> bool" where
  "builder_inv es R b \<longleftrightarrow> \<not> bb_finished b \<and> 1 \<le> block_restart_interval b \<and> bb_counter b \<le> block_restart_interval b \<and>
     (es = [] \<longrightarrow> bb_counter b = 0) \<and> bb_buffer b = enc es \<and> bb_restarts b = map (\<lambda>i. off es i mod 2 ^ 32) R \<and>
     bb_last_key b = last_key_of es \<and> chain es \<and> restarts_ok es R"

lemma BlockBuilder_new_inv: "1 \<le> interval \<Longrightarrow> \<exists>b. BlockBuilder_new interval delta = Some b \<and> builder_inv [] [0] b"
  by (simp add: BlockBuilder_new_def builder_inv_def last_key_of_def chain_def restarts_ok_def)

lemma nth_snoc: "sh (es @ [(s, k, v)]) i = (if i < length es then sh es i else if i = length es then s else sh (es @ [(s, k, v)]) i)"
  "ky (es @ [(s, k, v)]) i = (if i < length es then ky es i else if i = length es then k else ky (es @ [(s, k, v)]) i)"
  by (simp_all add: sh_def ky_def nth_append)

lemma chain_snoc:
  assumes "chain es" "s \<le> length k" "s \<le> length (last_key_of es)" "take s (last_key_of es) = take s k"
  shows "chain (es @ [(s, k, v)])"
  unfolding chain_def
proof (intro allI impI)
  fix i assume "i < length (es @ [(s, k, v)])"
  then consider "i < length es" | "i = length es" by fastforce
  then show "sh (es @ [(s, k, v)]) i \<le> length (ky (es @ [(s, k, v)]) i) \<and>
     (sh (es @ [(s, k, v)]) i = 0 \<or> 0 < i \<and> sh (es @ [(s, k, v)]) i \<le> length (ky (es @ [(s, k, v)]) (i - 1)) \<and>
       take (sh (es @ [(s, k, v)]) i) (ky (es @ [(s, k, v)]) (i - 1)) = take (sh (es @ [(s, k, v)]) i) (ky (es @ [(s, k, v)]) i))"
  proof cases
    case 1
    then show ?thesis using assms(1) by (auto simp: chain_def sh_def ky_def nth_append)
  next
    case 2
    then show ?thesis using assms(2-4) by (auto simp: last_key_of_def sh_def ky_def nth_append split: if_splits)
  qed
qed

lemma Add_inv:
  assumes "builder_inv es R b"
  shows "\<exists>b' s R'. BlockBuilder_Add k v b = Some b' \<and> builder_inv (es @ [(s, k, v)]) R' b'"
proof -
  define r where "r \<longleftrightarrow> bb_counter b \<ge> block_restart_interval b"
  define s where "s = (if \<not> r \<and> use_delta_encoding b then shared_loop (bb_last_key b) k else 0)"
  define R' where "R' = (if r then R @ [length es] else R)"
  note i = assms [unfolded builder_inv_def]
  have s: "s \<le> length k" "s \<le> length (last_key_of es)" "take s (last_key_of es) = take s k"
    using shared_loop_ok [of "bb_last_key b" k] i by (auto simp: s_def)
  have lk: "take s (bb_last_key b) @ drop s k = k" using s i by (metis append_take_drop_id)
  let ?b = "b\<lparr>bb_restarts := (if r then bb_restarts b @ [length (bb_buffer b) mod 2 ^ 32] else bb_restarts b),
            bb_buffer := bb_buffer b @ put_entry s k v, bb_last_key := k, bb_counter := (if r then 0 else bb_counter b) + 1\<rparr>"
  have run: "BlockBuilder_Add k v b = Some ?b"
    using i lk by (simp add: BlockBuilder_Add_def Let_def r_def [symmetric] s_def [symmetric])
  have ne: "r \<Longrightarrow> es \<noteq> []" using i by (auto simp: r_def)
  have "restarts_ok (es @ [(s, k, v)]) R'"
  proof (cases r)
    case True
    then have s0: "s = 0" by (simp add: s_def)
    have "\<forall>i \<in> set R. i < length es" using i ne [OF True] by (auto simp: restarts_ok_def)
    then show ?thesis using i True s0 by (auto simp: R'_def restarts_ok_def sorted_wrt_append nth_append sh_def)
  next
    case False
    have "s = 0" if "es = []" using s(2) that by (simp add: last_key_of_def)
    then show ?thesis using i False by (auto simp: R'_def restarts_ok_def nth_append sh_def)
  qed
  moreover have "map (\<lambda>i. off (es @ [(s, k, v)]) i mod 2 ^ 32) R' = (if r then bb_restarts b @ [length (bb_buffer b) mod 2 ^ 32] else bb_restarts b)"
  proof -
    have "\<forall>i \<in> set R. i \<le> length es" using i by (auto simp: restarts_ok_def)
    then show ?thesis using i by (auto simp: R'_def off_append off_length)
  qed
  moreover have "last_key_of (es @ [(s, k, v)]) = k" by (simp add: last_key_of_def ky_def)
  ultimately have "builder_inv (es @ [(s, k, v)]) R' ?b"
    using i s chain_snoc [of es s k v] by (auto simp: builder_inv_def r_def)
  then show ?thesis using run by blast
qed

lemma AddAll_inv:
  "builder_inv es R b \<Longrightarrow>
   \<exists>b' es' R'. BlockBuilder_AddAll kvs b = Some b' \<and> builder_inv (es @ es') R' b' \<and> map snd es' = kvs"
proof (induction kvs arbitrary: es R b)
  case Nil
  then show ?case by auto
next
  case (Cons kv kvs)
  obtain k v where kv: "kv = (k, v)" by (cases kv)
  obtain b1 s R1 where b1: "BlockBuilder_Add k v b = Some b1" "builder_inv (es @ [(s, k, v)]) R1 b1" using Add_inv [OF Cons.prems] by blast
  obtain b' es' R' where "BlockBuilder_AddAll kvs b1 = Some b'" "builder_inv ((es @ [(s, k, v)]) @ es') R' b'" "map snd es' = kvs"
    using Cons.IH [OF b1(2)] by blast
  then show ?case using kv b1(1) by (intro exI [of _ b'] exI [of _ "(s, k, v) # es'"] exI [of _ R']) simp
qed

text \<open>A finished block, when it is small enough for its offsets.\<close>

lemma build_block:
  assumes "1 \<le> interval"
  shows "\<exists>b0 b. BlockBuilder_new interval delta = Some b0 \<and> BlockBuilder_AddAll kvs b0 = Some b \<and>
    (length (fst (BlockBuilder_Finish b)) < 2 ^ 32 \<longrightarrow>
     (\<exists>es R. fst (BlockBuilder_Finish b) = block_bytes es R \<and> map snd es = kvs \<and> chain es \<and> restarts_ok es R))"
proof -
  obtain b0 where b0: "BlockBuilder_new interval delta = Some b0" "builder_inv [] [0] b0" using BlockBuilder_new_inv [OF assms] by blast
  obtain b es R where b: "BlockBuilder_AddAll kvs b0 = Some b" "builder_inv es R b" "map snd es = kvs" using AddAll_inv [OF b0(2), of kvs] by auto
  have "off es i mod 2 ^ 32 = off es i" if "length (fst (BlockBuilder_Finish b)) < 2 ^ 32" for i
    using that b(2) off_le [of es i] by (simp add: builder_inv_def BlockBuilder_Finish_def PutFixed32_def Let_def)
  then have "length (fst (BlockBuilder_Finish b)) < 2 ^ 32 \<longrightarrow> fst (BlockBuilder_Finish b) = block_bytes es R"
    using b(2) by (auto simp: builder_inv_def BlockBuilder_Finish_def PutFixed32_def Let_def block_bytes_def)
  then show ?thesis using b0(1) b by (auto simp: builder_inv_def)
qed

section \<open>Reading the format\<close>

lemma high_bit: "a OR b OR c < 128 \<Longrightarrow> a AND 128 = 0 \<and> b AND 128 = 0 \<and> c AND 128 = 0" for a b c :: u32
proof -
  assume lt: "a OR b OR c < 128"
  have "\<not> bit (a OR b OR c) 7" using small_bits [of "a OR b OR c" 7] lt by auto
  then have n: "\<not> bit a 7" "\<not> bit b 7" "\<not> bit c 7" by (simp_all add: bit_simps)
  have "x AND 128 = 0" if "\<not> bit x 7" for x :: u32 using that by (intro bit_word_eqI) (auto simp: bit_7)
  then show ?thesis using n by blast
qed

text \<open>The fast path of the decoder decodes what the slow path would.\<close>

lemma DecodeEntry_slow:
  assumes "3 \<le> length p"
  shows "DecodeEntry p = do {
     (shared, p) \<leftarrow> GetVarint32Ptr p;
     (non_shared, p) \<leftarrow> GetVarint32Ptr p;
     (value_length, p) \<leftarrow> GetVarint32Ptr p;
     if of_nat (length p) < non_shared + value_length then None else Some (shared, non_shared, value_length, p) }"
proof -
  obtain x y z q where p: "p = x # y # z # q" using assms by (metis Suc_le_length_iff numeral_3_eq_3)
  let ?x = "ucast x :: u32" and ?y = "ucast y :: u32" and ?z = "ucast z :: u32"
  show ?thesis
  proof (cases "?x OR ?y OR ?z < 128")
    case True
    then show ?thesis using high_bit [OF True] by (simp add: p DecodeEntry_def GetVarint32Ptr_def)
  next
    case False
    then show ?thesis by (simp add: p DecodeEntry_def split: Option.bind_split)
  qed
qed

lemma DecodeEntry_put:
  assumes "s \<le> length k" "length k < 2 ^ 32" "length (put_entry s k v @ y) < 2 ^ 32"
  shows "DecodeEntry (put_entry s k v @ y) = Some (of_nat s, of_nat (length k - s), of_nat (length v), drop s k @ v @ y)"
proof -
  have e: "0 < length (EncodeVarint32 w)" for w by (simp add: EncodeVarint32_def)
  have "3 \<le> length (put_entry s k v @ y)"
    using e [of "of_nat s"] e [of "of_nat (length k - s)"] e [of "of_nat (length v)"] unfolding put_entry_def length_append by linarith
  note slow = DecodeEntry_slow [OF this]
  have g: "GetVarint32Ptr (EncodeVarint32 w @ r) = Some (w, r)" for w r using GetVarint32_Encode [of w r] by (simp add: GetVarint32_def)
  have l: "length k - s + length v + length y < 2 ^ 32" using assms(3) by (simp add: put_entry_def)
  have "(of_nat (length k - s) :: u32) + of_nat (length v) = of_nat (length k - s + length v)" by simp
  then have "\<not> (of_nat (length (drop s k @ v @ y)) :: u32) < of_nat (length k - s) + of_nat (length v)"
    using l by (simp only: word_less_nat_alt unat_of_nat length_append length_drop) (simp add: take_bit_nat_eq_self unsigned_of_nat)
  then show ?thesis unfolding slow by (simp add: put_entry_def g)
qed

lemma drop_put_restarts: "j \<le> length rs \<Longrightarrow> drop (4 * j) (put_restarts rs @ x) = put_restarts (drop j rs) @ x"
proof (induction j arbitrary: rs)
  case (Suc j)
  then obtain r rs' where "rs = r # rs'" by (cases rs) auto
  then show ?case using Suc by (simp add: put_restarts_def)
qed simp

lemma restart_value:
  assumes "j < length rs" "rs ! j < 2 ^ 32"
  shows "\<exists>v. DecodeFixed32 (drop (4 * j) (put_restarts rs @ x)) = Some v \<and> unat v = rs ! j"
proof -
  have "drop (4 * j) (put_restarts rs @ x) = EncodeFixed32 (of_nat (rs ! j)) @ put_restarts (drop (Suc j) rs) @ x"
    unfolding drop_put_restarts [OF less_imp_le [OF assms(1)]] Cons_nth_drop_Suc [OF assms(1), symmetric] by (simp add: put_restarts_def)
  then show ?thesis using assms(2) by (simp add: unat_small)
qed

end
