(* ===== verification/Block_Iterators.thy ===== *)
theory Block_Iterators
  imports Block_Format Comparators
begin

text \<open>
  Iterators over a well-formed block: every operation moves them like a cursor over the list of keys and
  values the block was built from. The last section is about blocks that were not built.
\<close>

section \<open>Cursors\<close>

datatype move = Move_First | Move_Last | Move_Next | Move_Prev | Move_Seek bytes

fun iter_move :: "(bytes \<Rightarrow> bytes \<Rightarrow> int option) \<Rightarrow> move \<Rightarrow> BlockIter \<Rightarrow> BlockIter option" where
  "iter_move Compare Move_First it = SeekToFirst it"
| "iter_move Compare Move_Last it = SeekToLast it"
| "iter_move Compare Move_Next it = BlockIter_Next it"
| "iter_move Compare Move_Prev it = BlockIter_Prev it"
| "iter_move Compare (Move_Seek target) it = BlockIter_Seek Compare target it"

fun iter_moves :: "(bytes \<Rightarrow> bytes \<Rightarrow> int option) \<Rightarrow> move list \<Rightarrow> BlockIter \<Rightarrow> BlockIter option" where
  "iter_moves Compare [] it = Some it"
| "iter_moves Compare (m # ms) it = do { it \<leftarrow> iter_move Compare m it; iter_moves Compare ms it }"

text \<open>The position of the first key that is not before the target.\<close>

fun seek_index :: "(bytes \<Rightarrow> bytes \<Rightarrow> int option) \<Rightarrow> bytes \<Rightarrow> bytes list \<Rightarrow> nat option" where
  "seek_index Compare target [] = None"
| "seek_index Compare target (k # ks) =
     (if (case Compare k target of Some c \<Rightarrow> c < 0 | None \<Rightarrow> False) then map_option Suc (seek_index Compare target ks) else Some 0)"

text \<open>The same on the list; moving on from an invalid position is not allowed.\<close>

fun list_move :: "(bytes \<Rightarrow> bytes \<Rightarrow> int option) \<Rightarrow> bytes list \<Rightarrow> move \<Rightarrow> nat option \<Rightarrow> nat option option" where
  "list_move Compare ks Move_First c = Some (if ks = [] then None else Some 0)"
| "list_move Compare ks Move_Last c = Some (if ks = [] then None else Some (length ks - 1))"
| "list_move Compare ks Move_Next c = (case c of None \<Rightarrow> None | Some i \<Rightarrow> Some (if Suc i < length ks then Some (Suc i) else None))"
| "list_move Compare ks Move_Prev c = (case c of None \<Rightarrow> None | Some i \<Rightarrow> Some (if i = 0 then None else Some (i - 1)))"
| "list_move Compare ks (Move_Seek target) c = Some (seek_index Compare target ks)"

fun list_moves :: "(bytes \<Rightarrow> bytes \<Rightarrow> int option) \<Rightarrow> bytes list \<Rightarrow> move list \<Rightarrow> nat option \<Rightarrow> nat option option" where
  "list_moves Compare ks [] c = Some c"
| "list_moves Compare ks (m # ms) c = do { c \<leftarrow> list_move Compare ks m c; list_moves Compare ks ms c }"

text \<open>What can be seen of an iterator: nothing if it is not valid, else its key and value.\<close>

definition observe :: "BlockIter \<Rightarrow> (bytes \<times> bytes) option option" where
  "observe it = (if BlockIter_Valid it then do { k \<leftarrow> BlockIter_key it; v \<leftarrow> BlockIter_value it; Some (Some (k, v)) } else Some None)"

section \<open>Positions in a block\<close>

definition fmt :: "entries \<Rightarrow> nat list \<Rightarrow> bool" where
  "fmt es R \<longleftrightarrow> chain es \<and> restarts_ok es R \<and> length (block_bytes es R) < 2 ^ 32"

definition on_block :: "entries \<Rightarrow> nat list \<Rightarrow> BlockIter \<Rightarrow> bool" where
  "on_block es R it \<longleftrightarrow> bi_data it = Some (block_bytes es R) \<and> bi_restarts it = length (enc es) \<and> bi_num_restarts it = length R \<and>
     bi_hash_index it = None \<and> bi_prefix_index it = None \<and> bi_status it = Status_OK"

text \<open>About to parse entry \<open>i\<close>; at entry \<open>i\<close>; not valid.\<close>

definition before :: "entries \<Rightarrow> nat list \<Rightarrow> nat \<Rightarrow> BlockIter \<Rightarrow> bool" where
  "before es R i it \<longleftrightarrow> on_block es R it \<and> i \<le> length es \<and> NextEntryOffset it = Some (off es i) \<and>
     bi_restart_index it < length R \<and> R ! bi_restart_index it \<le> i \<and>
     (i < length es \<longrightarrow> sh es i = 0 \<or> sh es i \<le> length (bi_key it) \<and> take (sh es i) (bi_key it) = take (sh es i) (ky es i))"

definition at :: "entries \<Rightarrow> nat list \<Rightarrow> nat \<Rightarrow> BlockIter \<Rightarrow> bool" where
  "at es R i it \<longleftrightarrow> on_block es R it \<and> i < length es \<and> bi_current it = off es i \<and> bi_key it = ky es i \<and>
     bi_value it = Some (off es (Suc i) - length (vl es i), length (vl es i)) \<and> bi_restart_index it < length R \<and> R ! bi_restart_index it \<le> i"

definition pos :: "entries \<Rightarrow> nat list \<Rightarrow> nat option \<Rightarrow> BlockIter \<Rightarrow> bool" where
  "pos es R c it \<longleftrightarrow> (case c of Some i \<Rightarrow> at es R i it | None \<Rightarrow> on_block es R it \<and> bi_current it = bi_restarts it)"

lemma small_off: "fmt es R \<Longrightarrow> off es i < 2 ^ 32"
  using off_le [of es i] by (simp add: fmt_def block_bytes_def)

lemma restart_entry: "fmt es R \<Longrightarrow> j < length R \<Longrightarrow> R ! j \<le> length es \<and> (R ! j < length es \<longrightarrow> sh es (R ! j) = 0)"
  using nth_mem [of j R] unfolding fmt_def restarts_ok_def by fastforce

lemma entry_room: "i < length es \<Longrightarrow> off es i + length (ky es i) - sh es i + length (vl es i) \<le> off es (Suc i)"
  by (simp add: off_Suc put_entry_def)

lemma GetRestartPoint_ok:
  assumes "fmt es R" "on_block es R it" "j < length R"
  shows "GetRestartPoint j it = Some (off es (R ! j))"
proof -
  obtain v where "DecodeFixed32 (drop (4 * j) (put_restarts (map (off es) R) @ EncodeFixed32 (of_nat (length R)))) = Some v" "unat v = off es (R ! j)"
    using restart_value [of j "map (off es) R"] assms(3) small_off [OF assms(1)] by auto
  moreover have "drop (length (enc es) + j * 4) (block_bytes es R) = drop (4 * j) (put_restarts (map (off es) R) @ EncodeFixed32 (of_nat (length R)))"
    by (simp add: block_bytes_def mult.commute)
  ultimately show ?thesis using assms(2,3) by (simp add: GetRestartPoint_def on_block_def)
qed

lemma advance_restart_ok:
  "fmt es R \<Longrightarrow> on_block es R it \<Longrightarrow> bi_current it = off es i \<Longrightarrow> i \<le> length es \<Longrightarrow> bi_restart_index it < length R \<Longrightarrow> R ! bi_restart_index it \<le> i \<Longrightarrow>
   \<exists>j. advance_restart it = Some (it\<lparr>bi_restart_index := j\<rparr>) \<and> j < length R \<and> R ! j \<le> i"
proof (induction "length R - bi_restart_index it" arbitrary: it)
  case (Suc n)
  let ?j = "bi_restart_index it" and ?it = "it\<lparr>bi_restart_index := bi_restart_index it + 1\<rparr>"
  have here: "\<exists>j. Some it = Some (it\<lparr>bi_restart_index := j\<rparr>) \<and> j < length R \<and> R ! j \<le> i" using Suc.prems by (intro exI [of _ ?j]) simp
  show ?case
  proof (cases "?j + 1 < length R")
    case True
    note p = GetRestartPoint_ok [OF Suc.prems(1,2) True]
    show ?thesis
    proof (cases "off es (R ! (?j + 1)) < off es i")
      case lt: True
      then have "R ! (?j + 1) < i" using off_less_iff [of "R ! (?j + 1)" es i] restart_entry [OF Suc.prems(1) True] Suc.prems(4) by simp
      moreover have "on_block es R ?it" using Suc.prems(2) by (simp add: on_block_def)
      moreover have "n = length R - bi_restart_index ?it" using Suc.hyps(2) by simp
      ultimately obtain j where "advance_restart ?it = Some (?it\<lparr>bi_restart_index := j\<rparr>)" "j < length R" "R ! j \<le> i"
        using Suc.hyps(1) [of ?it] Suc.prems True by auto
      then show ?thesis using p lt True Suc.prems(2,3) by (subst advance_restart.simps) (auto simp: on_block_def)
    next
      case False
      then show ?thesis using p True here Suc.prems(2,3) by (subst advance_restart.simps) (simp add: on_block_def)
    qed
  next
    case False
    then show ?thesis using here Suc.prems(2) by (subst advance_restart.simps) (simp add: on_block_def)
  qed
qed simp

lemma ParseNextKey_entry:
  assumes "bi_data it = Some d" "NextEntryOffset it = Some cur" "cur < bi_restarts it"
    "DecodeEntry (take (bi_restarts it - cur) (drop cur d)) = Some (s, ns, n, rest)" "unat s \<le> length (bi_key it)"
    "bi_restarts it - length rest = p" "p + unat ns + unat n \<le> length d"
    "(if s = 0 then take (unat ns) (drop p d) else take (unat s) (bi_key it) @ take (unat ns) (drop p d)) = k"
  shows "ParseNextKey it = do { it \<leftarrow> advance_restart (it\<lparr>bi_current := cur, bi_key := k, bi_value := Some (p + unat ns, unat n)\<rparr>); Some (True, it) }"
  using assms by (cases "s = 0") (auto simp: ParseNextKey_def Let_def)

lemma parse_step:
  assumes "fmt es R" "before es R i it" "i < length es"
  shows "\<exists>it'. ParseNextKey it = Some (True, it') \<and> at es R i it'"
proof -
  let ?d = "block_bytes es R" and ?s = "sh es i" and ?k = "ky es i" and ?v = "vl es i" and ?y = "enc (drop (Suc i) es)"
  have on: "on_block es R it" and nx: "NextEntryOffset it = Some (off es i)" using assms(2) by (auto simp: before_def)
  have lt: "off es i < length (enc es)" using off_less [of i "length es" es] assms(3) by (simp add: off_length)
  have "take (length (enc es) - off es i) (drop (off es i) ?d) = enc (drop i es)"
    by (simp add: block_bytes_def drop_off [symmetric] lt less_imp_le)
  then have tk: "take (length (enc es) - off es i) (drop (off es i) ?d) = put_entry ?s ?k ?v @ ?y" by (simp add: enc_drop [OF assms(3)])
  have sk: "?s \<le> length ?k" using assms(1,3) by (auto simp: fmt_def chain_def)
  have lk: "length ?k < 2 ^ 32" using key_length [of es i] assms(1,3) small_off [OF assms(1), of "Suc i"] by (auto simp: fmt_def)
  have "length (put_entry ?s ?k ?v @ ?y) = length (enc es) - off es i" using enc_drop [OF assms(3)] drop_off [of es i] by (metis length_drop)
  then have le: "length (put_entry ?s ?k ?v @ ?y) < 2 ^ 32" using small_off [OF assms(1), of "length es"] by (simp add: off_length)
  have lv: "length ?v < 2 ^ 32" using le by (simp add: put_entry_def)
  note dec = DecodeEntry_put [OF sk lk le]
  have us: "unat (of_nat ?s :: u32) = ?s" "unat (of_nat (length ?k - ?s) :: u32) = length ?k - ?s" "unat (of_nat (length ?v) :: u32) = length ?v"
    by (rule unat_small; use sk lk lv in linarith)+
  let ?p = "length (enc es) - length (drop ?s ?k @ ?v @ ?y)"
  have ly: "length ?y = length (enc es) - off es (Suc i)" using drop_off [of es "Suc i"] by (metis length_drop)
  have room: "off es (Suc i) \<le> length (enc es)" "length ?k - ?s + length ?v \<le> off es (Suc i)" using off_le entry_room [OF assms(3)] sk by auto
  have p: "?p + (length ?k - ?s) = off es (Suc i) - length ?v" "?p + (length ?k - ?s) + length ?v = off es (Suc i)"
    using ly room by auto
  have "drop ?p (enc es) = drop ?s ?k @ ?v @ ?y"
  proof -
    obtain z where "enc es = z @ drop ?s ?k @ ?v @ ?y" using enc_split [of es i] enc_drop [OF assms(3)] by (auto simp: put_entry_def)
    then show ?thesis by simp
  qed
  then have delta: "take (length ?k - ?s) (drop ?p ?d) = drop ?s ?k" by (simp add: block_bytes_def)
  have inside: "?p + unat (of_nat (length ?k - ?s) :: u32) + unat (of_nat (length ?v) :: u32) \<le> length ?d"
    unfolding us p(2) using room(1) by (simp add: block_bytes_def)
  have s0: "(of_nat ?s :: u32) = 0 \<longleftrightarrow> ?s = 0" by (simp only: unat_eq_zero [symmetric] us(1))
  have key: "(if (of_nat ?s :: u32) = 0 then take (unat (of_nat (length ?k - ?s) :: u32)) (drop ?p ?d)
      else take (unat (of_nat ?s :: u32)) (bi_key it) @ take (unat (of_nat (length ?k - ?s) :: u32)) (drop ?p ?d)) = ?k"
    unfolding us delta s0 using assms(2,3) by (auto simp: before_def)
  have short: "unat (of_nat ?s :: u32) \<le> length (bi_key it)" unfolding us using assms(2,3) by (auto simp: before_def)
  let ?it = "it\<lparr>bi_current := off es i, bi_key := ?k, bi_value := Some (off es (Suc i) - length ?v, length ?v)\<rparr>"
  obtain j where j: "advance_restart ?it = Some (?it\<lparr>bi_restart_index := j\<rparr>)" "j < length R" "R ! j \<le> i"
    using advance_restart_ok [OF assms(1), of ?it i] on assms(2,3) by (auto simp: on_block_def before_def)
  have rs: "bi_data it = Some ?d" "bi_restarts it = length (enc es)" using on by (auto simp: on_block_def)
  have "ParseNextKey it = do { it \<leftarrow> advance_restart ?it; Some (True, it) }"
    using ParseNextKey_entry [OF rs(1) nx _ _ short _ inside key, unfolded rs(2) tk, OF lt dec refl] unfolding us p(1) .
  then have "ParseNextKey it = Some (True, ?it\<lparr>bi_restart_index := j\<rparr>)" using j(1) by simp
  moreover have "at es R i (?it\<lparr>bi_restart_index := j\<rparr>)" using on assms(3) j by (simp add: at_def on_block_def)
  ultimately show ?thesis by blast
qed

lemma parse_end:
  assumes "before es R (length es) it"
  shows "\<exists>it'. ParseNextKey it = Some (False, it') \<and> pos es R None it'"
  using assms by (auto simp: before_def ParseNextKey_def on_block_def off_length pos_def)

lemma at_before:
  assumes "fmt es R" "at es R i it"
  shows "before es R (Suc i) it"
proof -
  have i: "i < length es" using assms(2) by (simp add: at_def)
  have "length (vl es i) \<le> off es (Suc i)" using entry_room [OF i] by linarith
  then have "NextEntryOffset it = Some (off es (Suc i))" using assms small_off [OF assms(1), of "Suc i"] by (simp add: NextEntryOffset_def at_def)
  moreover have "Suc i < length es \<longrightarrow> sh es (Suc i) = 0 \<or> sh es (Suc i) \<le> length (ky es i) \<and> take (sh es (Suc i)) (ky es i) = take (sh es (Suc i)) (ky es (Suc i))"
    using assms(1) unfolding fmt_def chain_def by (metis diff_Suc_1)
  ultimately show ?thesis using assms(2) by (simp add: before_def at_def)
qed

lemma SeekToRestartPoint_ok:
  assumes "fmt es R" "on_block es R it" "j < length R"
  shows "\<exists>it'. SeekToRestartPoint j it = Some it' \<and> before es R (R ! j) it'"
proof -
  have "off es (R ! j) \<le> length (block_bytes es R)" using off_le [of es "R ! j"] by (simp add: block_bytes_def)
  then show ?thesis
    using GetRestartPoint_ok [OF assms] assms(2,3) restart_entry [OF assms(1,3)] small_off [OF assms(1)]
    by (simp add: SeekToRestartPoint_def on_block_def before_def NextEntryOffset_def)
qed

section \<open>The operations\<close>

lemma first_restart: "fmt es R \<Longrightarrow> 0 < length R \<and> R ! 0 = 0"
  by (simp add: fmt_def restarts_ok_def)

lemma parse_next:
  assumes "fmt es R" "before es R i it"
  shows "\<exists>it'. ParseNextKey it = Some (i < length es, it') \<and> pos es R (if i < length es then Some i else None) it'"
proof (cases "i < length es")
  case True
  then show ?thesis using parse_step [OF assms True] by (simp add: pos_def)
next
  case False
  then have "i = length es" using assms(2) by (simp add: before_def)
  then show ?thesis using parse_end [of es R it] assms(2) by simp
qed

lemma SeekToFirst_ok:
  assumes "fmt es R" "on_block es R it"
  shows "\<exists>it'. SeekToFirst it = Some it' \<and> pos es R (if es = [] then None else Some 0) it'"
proof -
  obtain it1 where "SeekToRestartPoint 0 it = Some it1" "before es R 0 it1" using SeekToRestartPoint_ok [OF assms] first_restart [OF assms(1)] by metis
  then show ?thesis using parse_next [OF assms(1), of 0 it1] assms(2) by (auto simp: SeekToFirst_def on_block_def)
qed

lemma Next_ok:
  assumes "fmt es R" "at es R i it"
  shows "\<exists>it'. BlockIter_Next it = Some it' \<and> pos es R (if Suc i < length es then Some (Suc i) else None) it'"
proof -
  have "BlockIter_Valid it" using assms(2) off_less [of i "length es" es] by (simp add: at_def BlockIter_Valid_def on_block_def off_length)
  then show ?thesis using parse_next [OF assms(1) at_before [OF assms]] by (auto simp: BlockIter_Next_def)
qed

lemma parse_until_ok:
  "fmt es R \<Longrightarrow> before es R i it \<Longrightarrow> i < j \<Longrightarrow> j \<le> length es \<Longrightarrow> \<exists>it'. parse_until (off es j) it = Some it' \<and> at es R (j - 1) it'"
proof (induction "j - i" arbitrary: i it)
  case (Suc n)
  obtain it1 where it1: "ParseNextKey it = Some (True, it1)" "at es R i it1" using parse_step [OF Suc.prems(1,2)] Suc.prems(3,4) by auto
  note b = at_before [OF Suc.prems(1) it1(2)]
  have nx: "NextEntryOffset it1 = Some (off es (Suc i))" using b by (simp add: before_def)
  show ?case
  proof (cases "Suc i < j")
    case True
    then have "off es (Suc i) < off es j" using off_less Suc.prems(4) by blast
    moreover have "n = j - Suc i" using Suc.hyps(2) by simp
    then obtain it' where "parse_until (off es j) it1 = Some it'" "at es R (j - 1) it'"
      using Suc.hyps(1) [OF _ Suc.prems(1) b True Suc.prems(4)] by auto
    ultimately show ?thesis using it1(1) nx by (subst parse_until.simps) simp
  next
    case False
    then have "j = Suc i" using Suc.prems(3) by simp
    then show ?thesis using it1 nx by (subst parse_until.simps) simp
  qed
qed simp

lemma SeekToLast_ok:
  assumes "fmt es R" "on_block es R it"
  shows "\<exists>it'. SeekToLast it = Some it' \<and> pos es R (if es = [] then None else Some (length es - 1)) it'"
proof -
  let ?j = "length R - 1"
  have j: "?j < length R" using first_restart [OF assms(1)] by simp
  obtain it1 where it1: "SeekToRestartPoint ?j it = Some it1" "before es R (R ! ?j) it1" using SeekToRestartPoint_ok [OF assms j] by blast
  have seek: "SeekToLast it = parse_until (length (enc es)) it1" using it1 assms(2) by (simp add: SeekToLast_def on_block_def before_def)
  show ?thesis
  proof (cases "es = []")
    case True
    then have "R ! ?j = length es" using nth_mem [OF j] assms(1) by (auto simp: fmt_def restarts_ok_def)
    then obtain it2 where "ParseNextKey it1 = Some (False, it2)" "pos es R None it2" using parse_end [of es R it1] it1(2) by auto
    then show ?thesis using True unfolding seek by (subst parse_until.simps) simp
  next
    case False
    then have "R ! ?j < length es" using nth_mem [OF j] assms(1) by (auto simp: fmt_def restarts_ok_def)
    then show ?thesis using parse_until_ok [OF assms(1) it1(2), of "length es"] False by (simp add: seek pos_def off_length)
  qed
qed

lemma prev_restart_ok:
  "fmt es R \<Longrightarrow> on_block es R it \<Longrightarrow> i \<le> length es \<Longrightarrow> bi_restart_index it < length R \<Longrightarrow>
   \<exists>it'. on_block es R it' \<and> (if i = 0 then prev_restart (off es i) it = Some (False, it') \<and> bi_current it' = bi_restarts it'
     else prev_restart (off es i) it = Some (True, it') \<and> bi_restart_index it' < length R \<and> R ! bi_restart_index it' < i)"
proof (induction "bi_restart_index it" arbitrary: it)
  case 0
  have p: "GetRestartPoint (bi_restart_index it) it = Some (off es 0)"
    using GetRestartPoint_ok [OF "0.prems"(1,2,4)] first_restart [OF "0.prems"(1)] "0.hyps" by simp
  show ?case
  proof (cases "i = 0")
    case True
    let ?it = "it\<lparr>bi_current := bi_restarts it, bi_restart_index := bi_num_restarts it\<rparr>"
    have "prev_restart (off es i) it = Some (False, ?it)" using p True "0.hyps" by (subst prev_restart.simps) simp
    moreover have "on_block es R ?it" using "0.prems"(2) by (simp add: on_block_def)
    ultimately show ?thesis using True by (intro exI [of _ ?it]) simp
  next
    case False
    then have "off es 0 < off es i" using off_less [of 0 i es] "0.prems"(3) by simp
    then have "prev_restart (off es i) it = Some (True, it)" using p by (subst prev_restart.simps) simp
    then show ?thesis using False "0.prems" "0.hyps" first_restart [OF "0.prems"(1)] by (intro exI [of _ it]) simp
  qed
next
  case (Suc n)
  have p: "GetRestartPoint (bi_restart_index it) it = Some (off es (R ! bi_restart_index it))" using GetRestartPoint_ok [OF Suc.prems(1,2,4)] .
  have le: "R ! bi_restart_index it \<le> length es" using restart_entry [OF Suc.prems(1,4)] by simp
  show ?case
  proof (cases "R ! bi_restart_index it < i")
    case True
    then have "off es (R ! bi_restart_index it) < off es i" using off_less Suc.prems(3) by blast
    then have "prev_restart (off es i) it = Some (True, it)" using p by (subst prev_restart.simps) simp
    then show ?thesis using True Suc.prems by (intro exI [of _ it]) simp
  next
    case False
    let ?it = "it\<lparr>bi_restart_index := bi_restart_index it - 1\<rparr>"
    have "\<not> off es (R ! bi_restart_index it) < off es i" using off_less_iff [OF le Suc.prems(3)] False by simp
    then have eq: "prev_restart (off es i) it = prev_restart (off es i) ?it" using p Suc.hyps(2) by (subst prev_restart.simps) simp
    have it: "n = bi_restart_index ?it" "on_block es R ?it" "bi_restart_index ?it < length R" using Suc.hyps(2) Suc.prems(2,4) by (auto simp: on_block_def)
    show ?thesis unfolding eq by (rule Suc.hyps(1) [OF it(1) Suc.prems(1) it(2) Suc.prems(3) it(3)])
  qed
qed

lemma Prev_ok:
  assumes "fmt es R" "at es R i it"
  shows "\<exists>it'. BlockIter_Prev it = Some it' \<and> pos es R (if i = 0 then None else Some (i - 1)) it'"
proof -
  have i: "i < length es" "bi_current it = off es i" "on_block es R it" "bi_restart_index it < length R" using assms(2) by (auto simp: at_def)
  have v: "BlockIter_Valid it" using i off_less [of i "length es" es] by (simp add: BlockIter_Valid_def on_block_def off_length)
  obtain it1 where it1: "on_block es R it1" "if i = 0 then prev_restart (off es i) it = Some (False, it1) \<and> bi_current it1 = bi_restarts it1
     else prev_restart (off es i) it = Some (True, it1) \<and> bi_restart_index it1 < length R \<and> R ! bi_restart_index it1 < i"
    using prev_restart_ok [OF assms(1) i(3) less_imp_le [OF i(1)] i(4)] by blast
  show ?thesis
  proof (cases "i = 0")
    case True
    then show ?thesis using it1 v i(2) by (auto simp: BlockIter_Prev_def pos_def)
  next
    case False
    with it1(2) have r: "prev_restart (off es i) it = Some (True, it1)" "bi_restart_index it1 < length R" "R ! bi_restart_index it1 < i" by auto
    obtain it2 where it2: "SeekToRestartPoint (bi_restart_index it1) it1 = Some it2" "before es R (R ! bi_restart_index it1) it2"
      using SeekToRestartPoint_ok [OF assms(1) it1(1) r(2)] by blast
    from parse_until_ok [OF assms(1) it2(2) r(3)] i(1) False show ?thesis using v r(1) it2(1) i(2) by (auto simp: BlockIter_Prev_def pos_def)
  qed
qed

section \<open>Searching\<close>

lemma restart_key_entry:
  assumes "bi_data it = Some d" "GetRestartPoint j it = Some cur"
    "DecodeEntry (take (bi_restarts it - cur) (drop cur d)) = Some (0, ns, n, rest)"
    "bi_restarts it - length rest = p" "p + unat ns \<le> length d"
  shows "restart_key j it = Some (Some (take (unat ns) (drop p d)))"
  using assms by (simp add: restart_key_def Let_def)

lemma restart_key_ok:
  assumes "fmt es R" "on_block es R it" "j < length R" "R ! j < length es"
  shows "restart_key j it = Some (Some (ky es (R ! j)))"
proof -
  let ?i = "R ! j" and ?d = "block_bytes es R"
  let ?k = "ky es ?i" and ?v = "vl es ?i" and ?y = "enc (drop (Suc ?i) es)"
  have s0: "sh es ?i = 0" using restart_entry [OF assms(1,3)] assms(4) by simp
  have lt: "off es ?i < length (enc es)" using off_less [of ?i "length es" es] assms(4) by (simp add: off_length)
  have "take (length (enc es) - off es ?i) (drop (off es ?i) ?d) = enc (drop ?i es)"
    by (simp add: block_bytes_def drop_off [symmetric] lt less_imp_le)
  then have tk: "take (length (enc es) - off es ?i) (drop (off es ?i) ?d) = put_entry 0 ?k ?v @ ?y" by (simp add: enc_drop [OF assms(4)] s0)
  have lk: "length ?k < 2 ^ 32" using key_length [of es ?i] assms(1,4) small_off [OF assms(1), of "Suc ?i"] by (auto simp: fmt_def)
  have "length (put_entry 0 ?k ?v @ ?y) = length (enc es) - off es ?i" using enc_drop [OF assms(4)] drop_off [of es ?i] s0 by (metis length_drop)
  then have le: "length (put_entry 0 ?k ?v @ ?y) < 2 ^ 32" using small_off [OF assms(1), of "length es"] by (simp add: off_length)
  have dec: "DecodeEntry (put_entry 0 ?k ?v @ ?y) = Some (0, of_nat (length ?k), of_nat (length ?v), ?k @ ?v @ ?y)"
    using DecodeEntry_put [OF le0 lk le] by simp
  obtain z where z: "enc es = z @ ?k @ ?v @ ?y" using enc_split [of es ?i] enc_drop [OF assms(4)] s0 by (auto simp: put_entry_def)
  let ?p = "length (enc es) - length (?k @ ?v @ ?y)"
  have us: "unat (of_nat (length ?k) :: u32) = length ?k" using lk by (rule unat_small)
  have p: "?p = length z" using z by simp
  have rs: "bi_data it = Some ?d" "bi_restarts it = length (enc es)" using assms(2) by (auto simp: on_block_def)
  have inside: "?p + unat (of_nat (length ?k) :: u32) \<le> length ?d" unfolding us p by (simp add: block_bytes_def z)
  have "take (unat (of_nat (length ?k) :: u32)) (drop ?p ?d) = ?k" unfolding us p by (simp add: block_bytes_def z)
  then show ?thesis
    using restart_key_entry [OF rs(1) GetRestartPoint_ok [OF assms(1-3)] _ refl, unfolded rs(2) tk, OF dec inside] by simp
qed

lemma few_restarts: "fmt es R \<Longrightarrow> 4 * length R < 2 ^ 32"
proof -
  have "length (put_restarts rs) = 4 * length rs" for rs by (induction rs) (simp_all add: put_restarts_def)
  then show "fmt es R \<Longrightarrow> 4 * length R < 2 ^ 32" by (simp add: fmt_def block_bytes_def)
qed

definition keys_of :: "entries \<Rightarrow> bytes list" where
  "keys_of es = map (\<lambda>(s, k, v). k) es"

lemma keys_of_nth [simp]: "i < length es \<Longrightarrow> keys_of es ! i = ky es i" "length (keys_of es) = length es"
  by (simp_all add: keys_of_def ky_def split_beta)

context comparator
begin

definition sorted_keys :: "entries \<Rightarrow> bool" where
  "sorted_keys es \<longleftrightarrow> (\<forall>k \<in> set (keys_of es). valid k) \<and> sorted_wrt lt (keys_of es)"

lemma sorted_keysD: "sorted_keys es \<Longrightarrow> i < j \<Longrightarrow> j < length es \<Longrightarrow> lt (ky es i) (ky es j)"
  unfolding sorted_keys_def using sorted_wrt_nth_less [of lt "keys_of es" i j] by simp

lemma valid_key: "sorted_keys es \<Longrightarrow> i < length es \<Longrightarrow> valid (ky es i)"
  using nth_mem [of i "keys_of es"] by (auto simp: sorted_keys_def)

text \<open>The restart point found is not after the target, or the first one.\<close>

lemma BinarySeek_ok:
  "fmt es R \<Longrightarrow> on_block es R it \<Longrightarrow> sorted_keys es \<Longrightarrow> valid target \<Longrightarrow> left \<le> right \<Longrightarrow> right < length R \<Longrightarrow> \<forall>j < length R. R ! j < length es \<Longrightarrow>
   left = 0 \<or> le (ky es (R ! left)) target \<Longrightarrow>
   \<exists>j. BinarySeek compare target left right it = Some (Some j, it) \<and> j < length R \<and> (j = 0 \<or> le (ky es (R ! j)) target)"
proof (induction "right - left" arbitrary: left right rule: less_induct)
  case less
  show ?case
  proof (cases "left < right")
    case True
    have m: "(left + right + 1) mod 2 ^ 32 = left + right + 1" using few_restarts [OF less.prems(1)] less.prems(5,6) by (intro mod_less) linarith
    define mid where "mid = (left + right + 1) div 2"
    have mid: "left < mid" "mid \<le> right" using True by (auto simp: mid_def)
    then have ml: "mid < length R" "R ! mid < length es" using less.prems(6,7) by auto
    note rk = restart_key_ok [OF less.prems(1,2) ml]
    have vk: "valid (ky es (R ! mid))" using valid_key [OF less.prems(3) ml(2)] .
    obtain c where c: "compare (ky es (R ! mid)) target = Some c" using total [OF vk less.prems(4)] by blast
    let ?next = "if c < 0 then BinarySeek compare target mid right it else if c > 0 then BinarySeek compare target left (mid - 1) it
      else BinarySeek compare target mid mid it"
    have st: "BinarySeek compare target left right it = ?next"
      using True rk c by (subst BinarySeek.simps) (simp only: m mid_def [symmetric] Let_def, simp)
    consider "c < 0" | "c > 0" | "c = 0" by linarith
    then show ?thesis
    proof cases
      case 1
      then have "le (ky es (R ! mid)) target" using c by (auto simp: le_def)
      then show ?thesis using less.hyps [of right mid] less.prems mid 1 unfolding st by simp
    next
      case 2
      then show ?thesis using less.hyps [of "mid - 1" left] less.prems mid unfolding st by simp
    next
      case 3
      then have "le (ky es (R ! mid)) target" using c by (auto simp: le_def)
      then show ?thesis using less.hyps [of mid mid] less.prems mid ml(1) 3 unfolding st by simp
    qed
  next
    case False
    then show ?thesis using less.prems by (subst BinarySeek.simps) simp
  qed
qed

lemma seek_index_skip:
  "\<forall>i' < i. lt (ks ! i') target \<Longrightarrow> i \<le> length ks \<Longrightarrow> seek_index compare target ks = map_option (\<lambda>j. i + j) (seek_index compare target (drop i ks))"
proof (induction i arbitrary: ks)
  case 0
  then show ?case by (simp add: option.map_ident)
next
  case (Suc i)
  then obtain k ks' where ks: "ks = k # ks'" by (cases ks) auto
  have "lt k target" "\<forall>i' < i. lt (ks' ! i') target" using Suc.prems(1) ks by (auto simp: All_less_Suc2)
  then show ?case using Suc.IH [of ks'] Suc.prems(2) ks by (auto simp: lt_def option.map_comp comp_def)
qed

lemma linear_seek_ok:
  "fmt es R \<Longrightarrow> before es R i it \<Longrightarrow> sorted_keys es \<Longrightarrow> valid target \<Longrightarrow> \<forall>i' < i. lt (ky es i') target \<Longrightarrow>
   \<exists>it'. linear_seek compare target it = Some it' \<and> pos es R (seek_index compare target (keys_of es)) it'"
proof (induction "length es - i" arbitrary: i it)
  case 0
  then have i: "i = length es" by (simp add: before_def)
  obtain it' where it': "ParseNextKey it = Some (False, it')" "pos es R None it'" using parse_end [of es R it] "0.prems"(2) i by blast
  have "seek_index compare target (keys_of es) = None" using seek_index_skip [of i "keys_of es" target] "0.prems"(5) i by simp
  then show ?case using it' by (subst linear_seek.simps) simp
next
  case (Suc n)
  have i: "i < length es" using Suc.hyps(2) by simp
  obtain it1 where it1: "ParseNextKey it = Some (True, it1)" "at es R i it1" using parse_step [OF Suc.prems(1,2) i] by blast
  have key: "bi_key it1 = ky es i" using it1(2) by (simp add: at_def)
  obtain c where c: "compare (ky es i) target = Some c" using total [OF valid_key [OF Suc.prems(3) i] Suc.prems(4)] by blast
  show ?case
  proof (cases "c \<ge> 0")
    case True
    have "drop i (keys_of es) = ky es i # drop (Suc i) (keys_of es)" using i Cons_nth_drop_Suc [of i "keys_of es"] by simp
    then have "seek_index compare target (keys_of es) = Some i" using seek_index_skip [of i "keys_of es" target] Suc.prems(5) i c True by simp
    then show ?thesis using it1 key c True by (subst linear_seek.simps) (simp add: pos_def)
  next
    case False
    then have "lt (ky es i) target" using c by (auto simp: lt_def)
    then have "\<forall>i' < Suc i. lt (ky es i') target" using Suc.prems(5) by (simp add: less_Suc_eq)
    moreover have "n = length es - Suc i" using Suc.hyps(2) by simp
    ultimately obtain it' where "linear_seek compare target it1 = Some it'" "pos es R (seek_index compare target (keys_of es)) it'"
      using Suc.hyps(1) [OF _ Suc.prems(1) at_before [OF Suc.prems(1) it1(2)] Suc.prems(3,4)] by blast
    then show ?thesis using it1(1) key c False by (subst linear_seek.simps) simp
  qed
qed

lemma Seek_ok:
  assumes "fmt es R" "on_block es R it" "sorted_keys es" "valid target"
  shows "\<exists>it'. BlockIter_Seek compare target it = Some it' \<and> pos es R (seek_index compare target (keys_of es)) it'"
proof -
  obtain j where j: "BinarySeek compare target 0 (length R - 1) it = Some (Some j, it)" "j < length R" "\<forall>i' < R ! j. lt (ky es i') target"
  proof (cases "es = []")
    case True
    have R: "0 < length R" "sorted_wrt (<) R" "\<forall>i \<in> set R. i = 0" using assms(1) True by (auto simp: fmt_def restarts_ok_def)
    have "length R = 1"
    proof (rule ccontr)
      assume "length R \<noteq> 1"
      then have "1 < length R" using R(1) by linarith
      then have "R ! 0 < R ! 1" "R ! 1 = 0" using R(2,3) sorted_wrt_nth_less [of "(<)" R 0 1] nth_mem [of 1 R] by simp_all
      then show False by simp
    qed
    then have "BinarySeek compare target 0 (length R - 1) it = Some (Some 0, it)" by (subst BinarySeek.simps) simp
    then show ?thesis using that [of 0] R(1) first_restart [OF assms(1)] by simp
  next
    case False
    then have all: "\<forall>j < length R. R ! j < length es" using assms(1) by (auto simp: fmt_def restarts_ok_def)
    obtain j where j: "BinarySeek compare target 0 (length R - 1) it = Some (Some j, it)" "j < length R" "j = 0 \<or> le (ky es (R ! j)) target"
      using BinarySeek_ok [OF assms(1-4), of 0 "length R - 1"] all first_restart [OF assms(1)] by auto
    have "lt (ky es i') target" if i': "i' < R ! j" for i'
    proof -
      have "j \<noteq> 0" using i' first_restart [OF assms(1)] by (cases "j = 0") auto
      then have "le (ky es (R ! j)) target" using j(3) by simp
      moreover have "lt (ky es i') (ky es (R ! j))" using sorted_keysD [OF assms(3) i'] all j(2) by simp
      ultimately show ?thesis using lt_le_trans valid_key [OF assms(3)] assms(4) all j(2) i' by (meson less_trans)
    qed
    then show ?thesis using that j by blast
  qed
  obtain it1 where it1: "SeekToRestartPoint j it = Some it1" "before es R (R ! j) it1" using SeekToRestartPoint_ok [OF assms(1,2) j(2)] by blast
  have "BlockIter_Seek compare target it = linear_seek compare target it1"
    using assms(2) j(1) it1(1) by (simp add: BlockIter_Seek_def on_block_def)
  then show ?thesis using linear_seek_ok [OF assms(1) it1(2) assms(3,4) j(3)] by simp
qed

text \<open>Every move on the block is the move on the list.\<close>

lemma move_ok:
  assumes "fmt es R" "pos es R c it" "sorted_keys es" "list_move compare (keys_of es) m c = Some c'" "\<forall>t. m = Move_Seek t \<longrightarrow> valid t"
  shows "\<exists>it'. iter_move compare m it = Some it' \<and> pos es R c' it'"
proof -
  have on: "on_block es R it" using assms(2) by (auto simp: pos_def at_def split: option.splits)
  have len: "keys_of es = [] \<longleftrightarrow> es = []" by (simp add: keys_of_def)
  show ?thesis
  proof (cases m)
    case Move_First
    then show ?thesis using SeekToFirst_ok [OF assms(1) on] assms(4) len by auto
  next
    case Move_Last
    then show ?thesis using SeekToLast_ok [OF assms(1) on] assms(4) len by auto
  next
    case Move_Next
    then obtain i where "at es R i it" "c' = (if Suc i < length es then Some (Suc i) else None)" using assms(2,4) by (auto simp: pos_def split: option.splits)
    then show ?thesis using Next_ok [OF assms(1), of i it] Move_Next by simp
  next
    case Move_Prev
    then obtain i where "at es R i it" "c' = (if i = 0 then None else Some (i - 1))" using assms(2,4) by (auto simp: pos_def split: option.splits)
    then show ?thesis using Prev_ok [OF assms(1), of i it] Move_Prev by simp
  next
    case (Move_Seek t)
    then show ?thesis using Seek_ok [OF assms(1) on assms(3)] assms(4,5) by auto
  qed
qed

lemma moves_ok:
  "fmt es R \<Longrightarrow> sorted_keys es \<Longrightarrow> pos es R c it \<Longrightarrow> list_moves compare (keys_of es) ms c = Some c' \<Longrightarrow> \<forall>t. Move_Seek t \<in> set ms \<longrightarrow> valid t \<Longrightarrow>
   \<exists>it'. iter_moves compare ms it = Some it' \<and> pos es R c' it'"
proof (induction ms arbitrary: c it)
  case (Cons m ms)
  then obtain c1 where c1: "list_move compare (keys_of es) m c = Some c1" "list_moves compare (keys_of es) ms c1 = Some c'"
    by (auto split: bind_splits)
  obtain it1 where it1: "iter_move compare m it = Some it1" "pos es R c1 it1" using move_ok [OF Cons.prems(1,3,2) c1(1)] Cons.prems(5) by auto
  show ?case using Cons.IH [OF Cons.prems(1,2) it1(2) c1(2)] Cons.prems(5) it1(1) by auto
qed simp

end

section \<open>From the builder to the iterator\<close>

lemma new_iterator:
  assumes "fmt es R"
  shows "\<exists>blk it. Block_new (block_bytes es R) = Some blk \<and> Block_NewIterator BlockIter_new total_order blk = Some it \<and> pos es R None it"
proof -
  let ?d = "block_bytes es R" and ?n = "length R"
  have lp: "length (put_restarts rs) = 4 * length rs" for rs by (induction rs) (simp_all add: put_restarts_def)
  have len: "length ?d = length (enc es) + 4 * ?n + 4" "length ?d < 2 ^ 32" "0 < ?n" using assms first_restart [OF assms] by (auto simp: block_bytes_def lp fmt_def)
  then have room: "8 \<le> length ?d" by linarith
  have "drop (length ?d - 4) ?d = EncodeFixed32 (of_nat ?n)" by (simp add: block_bytes_def lp)
  then have dec: "DecodeFixed32 (drop (length ?d - 4) ?d) = Some (of_nat ?n)" using DecodeFixed32_Encode [of "of_nat ?n" "[]"] by simp
  have un: "unat (of_nat ?n :: u32) = ?n" using few_restarts [OF assms] by (intro unat_small) linarith
  let ?b = "\<lparr>blk_data = ?d, blk_size = length ?d, restart_offset = length (enc es), blk_hash_index = None, blk_prefix_index = None\<rparr>"
  have nr: "NumRestarts (?b\<lparr>restart_offset := x\<rparr>) = Some ?n" for x using room dec un by (simp add: NumRestarts_def)
  have "(2 ^ 64 + length ?d mod 2 ^ 32 - (1 + ?n) mod 2 ^ 32 * 4) mod 2 ^ 32 = length (enc es)"
  proof -
    have "length ?d mod 2 ^ 32 = length ?d" "(1 + ?n) mod 2 ^ 32 = 1 + ?n" using len by (auto intro!: mod_less)
    then have "2 ^ 64 + length ?d mod 2 ^ 32 - (1 + ?n) mod 2 ^ 32 * 4 = 2 ^ 64 + length (enc es)" using len by simp
    moreover have "(2 ^ 64 + length (enc es)) mod 2 ^ 32 = length (enc es)"
      using len mod_mult_self1 [of "length (enc es)" "2 ^ 32" "2 ^ 32"] by (simp add: add.commute)
    ultimately show ?thesis by simp
  qed
  then have new: "Block_new ?d = Some ?b" using nr [of 0] len by (simp add: Block_new_def Let_def)
  have "NumRestarts ?b = Some ?n" using nr [of "length (enc es)"] by simp
  then have "\<exists>it. Block_NewIterator BlockIter_new total_order ?b = Some it \<and> pos es R None it"
    using room len(3) by (simp add: Block_NewIterator_def BlockIter_Initialize_def BlockIter_new_def pos_def on_block_def)
  then show ?thesis using new by blast
qed

lemma observe_pos:
  assumes "fmt es R" "pos es R c it"
  shows "observe it = Some (map_option (\<lambda>i. (ky es i, vl es i)) c)" "bi_status it = Status_OK"
proof -
  show "bi_status it = Status_OK" using assms(2) by (auto simp: pos_def at_def on_block_def split: option.splits)
  show "observe it = Some (map_option (\<lambda>i. (ky es i, vl es i)) c)"
  proof (cases c)
    case None
    then show ?thesis using assms(2) by (simp add: pos_def observe_def BlockIter_Valid_def)
  next
    case (Some i)
    then have at: "at es R i it" using assms(2) by (simp add: pos_def)
    then have i: "i < length es" by (simp add: at_def)
    have v: "BlockIter_Valid it" using at off_less [of i "length es" es] by (simp add: at_def BlockIter_Valid_def on_block_def off_length)
    obtain z where z: "enc es = z @ vl es i @ enc (drop (Suc i) es)" using enc_split [of es i] enc_drop [OF i] by (auto simp: put_entry_def)
    have "length (enc (drop (Suc i) es)) = length (enc es) - off es (Suc i)" using drop_off [of es "Suc i"] by (metis length_drop)
    then have "off es (Suc i) - length (vl es i) = length z" using z off_le [of es "Suc i"] by simp
    then have "BlockIter_value it = Some (vl es i)" using at v z by (simp add: BlockIter_value_def at_def on_block_def block_bytes_def)
    then show ?thesis using v at Some by (simp add: observe_def BlockIter_key_def at_def)
  qed
qed

text \<open>
  C34. Blocks. Keys and values are added to a builder, in the order of the comparator and with distinct
  keys, for any restart interval and with or without delta encoding, and the block is smaller than 2^32
  bytes. Then an iterator over the finished block is a cursor over the list of keys and values: whatever
  the sequence of \<open>SeekToFirst\<close>, \<open>SeekToLast\<close>, \<open>Seek\<close>, and of \<open>Next\<close> and \<open>Prev\<close> at valid positions, every call
  returns, the iterator shows the key and value of the list at the cursor, and its status is OK.
\<close>

theorem block_iterator_refines:
  assumes "comparator Compare valid" "\<forall>k \<in> set (map fst kvs). valid k" "sorted_wrt (\<lambda>a b. \<exists>r < 0. Compare a b = Some r) (map fst kvs)"
    "1 \<le> interval" "BlockBuilder_new interval delta = Some b0" "BlockBuilder_AddAll kvs b0 = Some b" "length (fst (BlockBuilder_Finish b)) < 2 ^ 32"
    "list_moves Compare (map fst kvs) ms None = Some c" "\<forall>t. Move_Seek t \<in> set ms \<longrightarrow> valid t"
  shows "\<exists>blk it it'. Block_new (fst (BlockBuilder_Finish b)) = Some blk \<and> Block_NewIterator BlockIter_new total_order blk = Some it \<and>
    iter_moves Compare ms it = Some it' \<and> observe it' = Some (map_option (\<lambda>i. kvs ! i) c) \<and> bi_status it' = Status_OK"
proof -
  obtain es R where b: "fst (BlockBuilder_Finish b) = block_bytes es R" "map snd es = kvs" "chain es" "restarts_ok es R"
    using build_block [OF assms(4), of delta kvs] assms(5-7) by auto
  have f: "fmt es R" using b(1,3,4) assms(7) by (simp add: fmt_def)
  have ks: "keys_of es = map fst kvs" using b(2) by (auto simp: keys_of_def)
  have "comparator.lt Compare = (\<lambda>a b. \<exists>r < 0. Compare a b = Some r)" by (intro ext) (simp add: comparator.lt_def [OF assms(1)])
  then have "comparator.sorted_keys Compare valid es" using assms(2,3) by (simp add: comparator.sorted_keys_def [OF assms(1)] ks)
  moreover obtain blk it where it: "Block_new (block_bytes es R) = Some blk" "Block_NewIterator BlockIter_new total_order blk = Some it" "pos es R None it"
    using new_iterator [OF f] by blast
  ultimately obtain it' where it': "iter_moves Compare ms it = Some it'" "pos es R c it'"
    using comparator.moves_ok [OF assms(1) f _ it(3)] assms(8,9) ks by metis
  have "map_option (\<lambda>i. (ky es i, vl es i)) c = map_option (\<lambda>i. kvs ! i) c"
    using it'(2) b(2) by (auto simp: pos_def at_def ky_def vl_def split: option.splits)
  then show ?thesis using b(1) it(1,2) it'(1) observe_pos [OF f it'(2)] by auto
qed

theorem block_iterator_refines_witness:
  "\<exists>b0 b blk it it'. BlockBuilder_new 2 True = Some b0 \<and> BlockBuilder_AddAll [([1, 2], [7]), ([1, 3], []), ([4], [8, 9])] b0 = Some b \<and>
    Block_new (fst (BlockBuilder_Finish b)) = Some blk \<and> Block_NewIterator BlockIter_new True blk = Some it \<and>
    iter_moves Bytewise_Compare [Move_Seek [1, 3], Move_Next, Move_Prev, Move_Prev] it = Some it' \<and>
    observe it' = Some (Some ([1, 2], [7])) \<and> bi_status it' = Status_OK"
proof -
  let ?kvs = "[([1, 2], [7]), ([1, 3], []), ([4], [8, 9])] :: (bytes \<times> bytes) list"
    and ?ms = "[Move_Seek [1, 3], Move_Next, Move_Prev, Move_Prev]"
  define b0 where "b0 = \<lparr>block_restart_interval = 2, use_delta_encoding = True, bb_buffer = [], bb_restarts = [0], bb_counter = 0,
    bb_finished = False, bb_last_key = []\<rparr>"
  have b0: "BlockBuilder_new 2 True = Some b0" by (simp add: BlockBuilder_new_def b0_def)
  have "\<exists>b. BlockBuilder_AddAll ?kvs b0 = Some b \<and> length (fst (BlockBuilder_Finish b)) < 2 ^ 32"
    by (simp add: b0_def BlockBuilder_Add_def Let_def put_entry_def EncodeVarint32_def BlockBuilder_Finish_def PutFixed32_def put_restarts_def)
  then obtain b where b: "BlockBuilder_AddAll ?kvs b0 = Some b" "length (fst (BlockBuilder_Finish b)) < 2 ^ 32" by blast
  have c: "Bytewise_Compare [1, 2] [1, 3] = Some (- 1)" "Bytewise_Compare [1, 2] [4] = Some (- 3)" "Bytewise_Compare [1, 3] [4] = Some (- 3)"
    "Bytewise_Compare [1, 3] [1, 3] = Some 0" by (simp_all add: Bytewise_Compare_def Slice_compare_def Slice_of_string_def c_str_def)
  then have "sorted_wrt (\<lambda>a b. \<exists>r < 0. Bytewise_Compare a b = Some r) (map fst ?kvs)" by simp
  moreover have "list_moves Bytewise_Compare (map fst ?kvs) ?ms None = Some (Some 0)" by (simp add: c)
  ultimately show ?thesis
    using block_iterator_refines [OF bytewise.comparator_axioms _ _ _ b0 b, of ?ms "Some 0" True] b0 b(1) by simp
qed

section \<open>Blocks that were not built\<close>

text \<open>
  C37. The check for a block that is too small for its restart points misses counts whose size wraps around:
  eight bytes that claim 2^30 restart points are accepted as a block, an iterator over them has status
  OK, and its \<open>SeekToLast\<close> reads a restart point outside the block.
\<close>

theorem corrupt_block_out_of_bounds:
  "\<exists>blk it. Block_new ([w, x, y, z] @ EncodeFixed32 (2 ^ 30)) = Some blk \<and> Block_NewIterator BlockIter_new total_order blk = Some it \<and>
    bi_status it = Status_OK \<and> bi_num_restarts it = 2 ^ 30 \<and> SeekToLast it = None"
proof -
  let ?d = "[w, x, y, z] @ EncodeFixed32 (2 ^ 30)"
  have len: "length ?d = 8" by simp
  have dec: "DecodeFixed32 (drop 4 ?d) = Some (2 ^ 30)" using DecodeFixed32_Encode [of "2 ^ 30" "[]"] by simp
  let ?b = "\<lparr>blk_data = ?d, blk_size = 8, restart_offset = 4, blk_hash_index = None, blk_prefix_index = None\<rparr>"
  have u: "unat (2 ^ 30 :: u32) = 2 ^ 30" by simp
  have n: "NumRestarts (?b\<lparr>restart_offset := r\<rparr>) = Some (2 ^ 30)" for r using dec u by (simp add: NumRestarts_def)
  have new: "Block_new ?d = Some ?b" using n [of 0] len by (simp add: Block_new_def Let_def)
  let ?it = "BlockIter_new\<lparr>bi_data := Some ?d, bi_restarts := 4, bi_num_restarts := 2 ^ 30, bi_current := 4, bi_restart_index := 2 ^ 30\<rparr>"
  have it: "Block_NewIterator BlockIter_new total_order ?b = Some ?it"
    using n [of 4] by (simp add: Block_NewIterator_def BlockIter_Initialize_def BlockIter_new_def)
  have "drop (4 + (2 ^ 30 - 1) * 4) ?d = []" using len by (intro drop_all) simp
  then have "SeekToLast ?it = None" by (simp add: SeekToLast_def SeekToRestartPoint_def GetRestartPoint_def BlockIter_new_def)
  then show ?thesis using new it by (intro exI [of _ ?b] exI [of _ ?it]) (simp add: BlockIter_new_def)
qed

end
