(* ===== verification/Spec2Isabelle.thy ===== *)
theory Spec2Isabelle
  imports Scree_System Iter_Key Dynamic_Bloom Log_Files Block_Iterators
begin

text \<open>
  This development models parts of ScreeDB, a persistent key/value store (src/utilities/screedb/),
  and of the RocksDB code base it is built in, and proves what makes them correct.  C++ code with
  undefined behaviour, failed assertions or non-termination is modelled in the option monad: those
  outcomes are \<open>None\<close>, so a theorem that gives \<open>Some\<close> also excludes them.  Bytes are
  \<open>8 word\<close>, unsigned integers keep their width wherever they can wrap.

  Foundations.
  \<^item> Prelude: bytes, bounds-checked arrays, C strings (\<open>strlen\<close>, \<open>strcmp\<close>, \<open>strcpy\<close>).
  \<^item> Slices: \<open>Slice\<close> of include/rocksdb/slice.h and util/slice.cc.
  \<^item> Statuses: include/rocksdb/status.h, util/status.cc, util/status_message.cc, with the
    constructor's buffer arithmetic; a status keeps its messages.
  \<^item> Coding: util/coding.h and util/coding.cc; fixed and variable length integers and length-prefixed
    slices, with their round trips and the lengths of the encodings.

  ScreeDB (src/utilities/screedb/screedb.h and screedb.cc).
  \<^item> Scree_Data: constants, \<open>ScreeDBString\<close>, leaves, nodes and the tree object with its volatile
    and persistent heaps; \<open>PearsonHash\<close>.
  \<^item> Scree_Ops: every method of \<open>ScreeDBTree\<close>, in the order of the source; Scree_DB: the tree
    against the map it represents (\<open>dbR\<close>), and \<open>Get\<close>, \<open>Delete\<close>, \<open>MultiGet\<close>.
  \<^item> Scree_Tree, Scree_Split, Scree_Leaf, Scree_Layout: the B+tree as an abstract tree, the inner node
    split, leaf slots, and the layout of both heaps.
  \<^item> Scree_Put, Scree_Alloc, Scree_Recovery: \<open>Put\<close> with an allocator that may fail (the transaction
    rolls the pool back), and recovery of the volatile tree from the persistent leaves.
  \<^item> Scree_System: \<open>ScreeDB\<close> behind the RocksDB interface, every method of the class as a request, and
    the step relation of a database that is opened, used, closed and crashed.
  The persistent memory library is not part of the sources: pools are values, its allocator is an
  argument that may fail at any allocation.

  Keys.
  \<^item> Comparators: util/comparator.cc and the prefix transforms of util/slice.cc.  The locales
    \<open>comparator\<close> and \<open>separating_comparator\<close> state what include/rocksdb/comparator.h asks for,
    \<open>slice_transform\<close> what prefix filters need; they are interpreted on the comparators and the
    transforms of the code.
  \<^item> DBFormat: db/dbformat.h and db/dbformat.cc, internal keys and their order over any user
    comparator that satisfies the contract; lookup keys, separators, the transform on internal keys.
  \<^item> Iter_Key: \<open>IterKey\<close> of db/dbformat.h with its buffers, aliasing included.

  Checksums.
  \<^item> Crc_Tables, Crc32c: util/crc32c.h and util/crc32c.cc.  The four tables are checked against the
    bit-by-bit CRC, and both implementations, with their alignment prologue and unrolled loops, are
    proved equal to it.  The machine instruction is a parameter with its documented meaning.

  Hash functions and filters.
  \<^item> Hashing: \<open>Hash\<close> and \<open>BloomHash\<close> of util/hash.h and util/hash.cc, \<open>MurmurHash64A\<close> of util/murmurhash.cc,
    and the generator of util/random.h, proved to be multiplication modulo 2^31-1.
  \<^item> Bloom: util/bloom.cc, the full filters and the older filter policy.  The locale \<open>bloom_bits\<close> is the
    contract of a set of bits that only grows; it is interpreted on both kinds and, in Dynamic_Bloom, on both
    ways of setting bits of \<open>DynamicBloom\<close> (util/dynamic_bloom.h and dynamic_bloom.cc).  No filter has a
    false negative; for concurrent additions this is proved over all interleavings of atomic steps.

  Files.
  \<^item> Mock_Env: the in-memory file system of util/mock_env.h and mock_env.cc, with a heap of files that have
    reference counts.  Mock_Safety: the counts are the number of names and handles in every reachable state,
    so that no file is used after it was freed; what renaming does; what linking breaks.
  \<^item> File_Writer: \<open>AlignedBuffer\<close> (util/aligned_buffer.h), the base class \<open>WritableFile\<close> (include/rocksdb/env.h)
    with its virtual functions as a record, \<open>WritableFileWriter\<close> and \<open>SequentialFileReader\<close>
    (util/file_reader_writer.h and file_reader_writer.cc).  The locale \<open>written_file\<close> is what a buffered file
    promises; in it the writer is shown to lose, repeat and reorder nothing.  File_Pages: unbuffered files,
    which are the operating system's, under the named hypothesis \<open>positional\<close>.

  Write-ahead log.
  \<^item> Log_Writer: db/log_format.h, db/log_writer.h, db/log_writer.cc, and the bytes of a log as a function of
    its records (\<open>log_bytes\<close>); in the locale \<open>log_dest\<close> the writer is shown to produce them.
  \<^item> Log_Reader: db/log_reader.h and db/log_reader.cc; in the locale \<open>log_source\<close> reading any prefix of
    \<open>log_bytes\<close> returns the records that are complete.  A reader is a value of the option monad by
    \<open>partial_function\<close>, and the theorems give \<open>Some\<close>, so they include termination.
  \<^item> Log_Files: both locales interpreted on the file writer and the in-memory files, and the theorem that
    spans them: what was logged survives cutting the file off anywhere.

  Blocks of a table.
  \<^item> Blocks: table/block_builder.h and block_builder.cc, table/block.h and block.cc, and the indexes of
    table/block_hash_index.cc and block_prefix_index.cc; an iterator's loops are \<open>partial_function\<close>s, and a read
    outside the block is \<open>None\<close>.
  \<^item> Block_Format: the bytes of a block as a function of its entries and restart points, and that the builder
    produces them.  Block_Iterators: over such a block, and any comparator that satisfies its contract, the
    iterator without a hash or prefix index is a cursor over the list of keys and values; what the constructor
    accepts although it is no block.

  Bounds.  Lengths and offsets of buffers and files are natural numbers where the code has \<open>size_t\<close> or
  \<open>uint64_t\<close>: they would wrap only beyond 2^64 bytes.  Where 32-bit lengths or arithmetic that is meant to
  wrap occur (statuses, coding, hashes, filters, log and block offsets), words of that width are used or the
  wrap-around is written out.

  Not modelled.
  \<^item> The database engine (db/db_impl.cc, db/version_set.cc, column families, compaction and flush jobs,
    write threads): its state is spread over threads, locks and files, and ScreeDB replaces it.
  \<^item> \<open>CreateBlockHashIndexOnTheFly\<close>, which scans two iterators of a table, and estimates of memory usage.
  \<^item> Memtables and skip lists (db/memtable.cc, db/skiplist.h, memtable/), caches, arenas and table formats
    other than blocks (table/): independent of ScreeDB and of what is modelled here.
  \<^item> The operating system's files (util/env_posix.cc, util/io_posix.cc, port/, hdfs/): system calls.
  \<^item> Statistics, logging, options parsing, thread status, performance counters: they change no state that
    the modelled components read.
  \<^item> The C and Java interfaces, tools and utilities other than ScreeDB: wrappers and applications.
\<close>

section \<open>ScreeDB: properties across its components\<close>

definition two_leaves :: ScreeDBTree where
  "two_leaves = \<lparr>vheap = [0 \<mapsto> VLeaf (new_ScreeDBLeafNode\<lparr>is_leaf := True\<rparr>), 1 \<mapsto> VLeaf (new_ScreeDBLeafNode\<lparr>is_leaf := True\<rparr>)],
     vnext = 2, top_node = Some 0, pheap = Map.empty, pnext = 0, proot = new_ScreeDBRoot, allocs = 0\<rparr>"

lemma open_new_pool: "\<exists>db. ScreeDB_Open name (Some new_pool) = Some (Status_OK, db) \<and> dbR (dbtree db) Map.empty"
  using ScreeDBTree_new_ok [of Map.empty "Some new_pool"] persistent_inv_new by (auto simp: ScreeDB_Open_def)

lemma reach_open: "\<exists>db. reach (Up db) [EvOpen]"
  using reach_step [OF reach_start step_open] open_new_pool by fastforce

lemma reach_put:
  assumes "reach (Up db) tr" "text_key k" "text_val v"
  shows "\<exists>db'. reach (Up db') (tr @ [EvPut k v])"
proof -
  have R: "dbR (dbtree db) (history tr)" using reach_rel [OF assms(1)] by (simp add: world_rel_def)
  from Put_ok [OF R key_ok_string [OF assms(2)] val_ok_string [of v], of all_alloc] obtain s' where
    "Put all_alloc (Slice_of_string k) (Slice_of_string v) (dbtree db) = Some (Some Status_OK, s')" by auto
  then have "ScreeDB_Put all_alloc (Slice_of_string k) (Slice_of_string v) db = Some (RStatus Status_OK, db\<lparr>dbtree := s'\<rparr>)"
    by (simp add: ScreeDB_Put_def)
  from reach_step [OF assms(1) step_put [OF assms(2,3) this]] show ?thesis by blast
qed

lemma reach_reopen:
  assumes "reach (Up db) tr"
  shows "\<exists>db'. reach (Up db') (tr @ [EvCrash, EvOpen])"
proof -
  have "reach (Down (pool_of (dbtree db))) (tr @ [EvCrash])" by (rule reach_step [OF assms step_crash])
  moreover from reach_rel [OF this] obtain db' where "ScreeDB_Open [] (Some (pool_of (dbtree db))) = Some (Status_OK, db')"
    using ScreeDBTree_new_ok [of "history (tr @ [EvCrash])" "Some (pool_of (dbtree db))"]
    by (auto simp: world_rel_def ScreeDB_Open_def)
  ultimately show ?thesis using reach_step step_open by fastforce
qed

lemma sample_texts: "text_key [107, 101, 121]" "text_val [118]"
  by (simp_all add: text_key_def text_val_def ascii_def)

lemma sample_reach: "\<exists>db. reach (Up db) [EvOpen, EvPut [107, 101, 121] [118], EvCrash, EvOpen]"
proof -
  obtain db1 where "reach (Up db1) [EvOpen]" using reach_open by blast
  from reach_put [OF this sample_texts] obtain db2 where "reach (Up db2) [EvOpen, EvPut [107, 101, 121] [118]]" by auto
  from reach_reopen [OF this] show ?thesis by auto
qed



text \<open>
  C2. No request on keys the hash is defined for runs into undefined behaviour in a database that
  the operations produced, whatever the persistent allocator does: the call returns (or throws
  after a failed allocation).
\<close>

theorem requests_defined:
  assumes "reach (Up db) tr" "request_ok r"
  shows "\<exists>rep db'. ScreeDB_call alloc r db = Some (rep, db')"
  using reach_rel [OF assms(1)] ScreeDB_call_defined [OF _ assms(2)] by (auto simp: world_rel_def)

theorem requests_defined_witness:
  "\<exists>db rep db'. reach (Up db) [EvOpen, EvPut [107, 101, 121] [118], EvCrash, EvOpen] \<and>
     request_ok (ReqGet (Slice_of_string [107, 101, 121]) []) \<and>
     ScreeDB_call (\<lambda>_. False) (ReqGet (Slice_of_string [107, 101, 121]) []) db = Some (rep, db')"
proof -
  obtain db where "reach (Up db) [EvOpen, EvPut [107, 101, 121] [118], EvCrash, EvOpen]" using sample_reach by blast
  moreover have "request_ok (ReqGet (Slice_of_string [107, 101, 121]) [])"
    using key_ok_string [OF sample_texts(1)] by (simp add: request_ok_def)
  ultimately show ?thesis using requests_defined by blast
qed

text \<open>
  C3. \<open>Get\<close> on a database returns what its history says of the key: OK with the value appended to
  the caller's string, or NotFound with that string unchanged.
\<close>

theorem get_reads_history:
  assumes "reach (Up db) tr" "text_key k"
  shows "ScreeDB_call alloc (ReqGet (Slice_of_string k) v0) db =
    Some (case history tr k of None \<Rightarrow> RGet NotFound v0 | Some v \<Rightarrow> RGet Status_OK (v0 @ v), db)"
proof -
  have "dbR (dbtree db) (history tr)" using reach_rel [OF assms(1)] by (simp add: world_rel_def)
  from Get_ok [OF this key_ok_string [OF assms(2)], of v0] show ?thesis
    using assms(2) by (auto simp: text_key_def ktext_string split: option.splits)
qed

theorem get_reads_history_witness:
  "\<exists>db. ScreeDB_call all_alloc (ReqGet (Slice_of_string [107, 101, 121]) [120]) db = Some (RGet Status_OK [120, 118], db)"
proof -
  obtain db where "reach (Up db) [EvOpen, EvPut [107, 101, 121] [118], EvCrash, EvOpen]" using sample_reach by blast
  from get_reads_history [OF this sample_texts(1), of all_alloc "[120]"] show ?thesis by (auto simp: history_def)
qed


lemma sample_tree: "\<exists>s. dbR s Map.empty"
  using open_new_pool by blast

lemma sample_tree_put: "\<exists>s. dbR s [[107, 101, 121] \<mapsto> [118]]"
proof -
  obtain db where "reach (Up db) [EvOpen, EvPut [107, 101, 121] [118], EvCrash, EvOpen]" using sample_reach by blast
  from reach_rel [OF this] show ?thesis by (auto simp: world_rel_def history_def)
qed


text \<open>
  C5. \<open>Delete\<close> returns OK and removes the key from the map, also when the key is not there.
\<close>

theorem delete_removes:
  assumes "dbR s m" "key_ok key"
  shows "\<exists>s'. Delete key s = Some (Status_OK, s') \<and> dbR s' (m(ktext key := None))"
  using assms by (rule Delete_ok)

theorem delete_removes_witness:
  "\<exists>s s'. dbR s [[107, 101, 121] \<mapsto> [118]] \<and> Delete (Slice_of_string [107, 101, 121]) s = Some (Status_OK, s') \<and> dbR s' Map.empty"
proof -
  obtain s where s: "dbR s [[107, 101, 121] \<mapsto> [118]]" using sample_tree_put by blast
  from delete_removes [OF s key_ok_string [OF sample_texts(1)]] s show ?thesis by (auto simp: ktext_string)
qed



text \<open>
  C7. Reading your writes: after any batch of puts and deletes a key reads as the last value put,
  if no later write of the batch touches that key.
\<close>

theorem scree_reads_last_put:
  assumes "dbR s m" "\<forall>w\<in>set (us @ WPut k v # ws). scree.valid_write w" "\<forall>w\<in>set ws. write_key w \<noteq> k"
  shows "\<exists>s'. run_writes scree_put scree_del (us @ WPut k v # ws) s = Some s' \<and> scree_get k s' = Some (Some v)"
  using assms by (rule scree.read_last_put)

theorem scree_reads_last_put_witness:
  "\<exists>s s'. run_writes scree_put scree_del ([WDel [97]] @ WPut [98] [1] # [WPut [97] [2]]) s = Some s' \<and>
     scree_get [98] s' = Some (Some [1])"
proof -
  obtain s where s: "dbR s Map.empty" using sample_tree by blast
  have "\<forall>w\<in>set ([WDel [97]] @ WPut [98] [1] # [WPut [97] [2]]). scree.valid_write w"
    by (simp add: scree.valid_write_def text_key_def text_val_def ascii_def)
  from scree_reads_last_put [OF s this] show ?thesis by auto
qed

text \<open>
  C8. Recovery from the persistent leaves alone: opening the pool a running database leaves behind
  at any moment (a crash) rebuilds a tree that represents the same map.
\<close>

theorem recovery_restores:
  assumes "dbR s m"
  shows "\<exists>s'. ScreeDBTree_new (Some (pool_of s)) = Some s' \<and> dbR s' m"
  using ScreeDBTree_new_ok [of m "Some (pool_of s)"] dbR_persistent [OF assms] by simp

theorem recovery_restores_witness:
  "\<exists>s s'. dbR s [[107, 101, 121] \<mapsto> [118]] \<and> ScreeDBTree_new (Some (pool_of s)) = Some s' \<and> dbR s' [[107, 101, 121] \<mapsto> [118]]"
  using sample_tree_put recovery_restores by blast

text \<open>
  C9. \<open>LeafUpdateParentsAfterSplit\<close> ends and inserts exactly one separator and one leaf after the
  split leaf, keeping every other leaf and separator in its place, however many inner nodes it has
  to split, the top included; leaf contents and persistent data are untouched.
\<close>

theorem update_parents_inserts:
  assumes "tree_ok s t" "flat t = X @ L a # Y" "leafnode_at (vheap s) a = Some la"
    "leafnode_at (vheap s) b = Some lb" "is_leaf lb" "parent lb = parent la" "b \<notin> set (gaddrs t)" "b < vnext s"
    "sorted_wrt (<) (seps X @ k # seps Y)"
  shows "\<exists>s' t'. LeafUpdateParentsAfterSplit a b k s = Some s' \<and> tree_ok s' t' \<and>
     flat t' = X @ L a # K k # L b # Y \<and> volatile_step s s'"
  using assms by (rule update_parents_leaf)

theorem update_parents_inserts_witness:
  "\<exists>s' t'. LeafUpdateParentsAfterSplit 0 1 [109] two_leaves = Some s' \<and> tree_ok s' t' \<and> flat t' = [L 0, K [109], L 1]"
proof -
  let ?l = "new_ScreeDBLeafNode\<lparr>is_leaf := True\<rparr>"
  have "tree_ok two_leaves (GLeaf 0)" by (simp add: tree_ok_def two_leaves_def new_ScreeDBLeafNode_def)
  from update_parents_inserts [OF this, of "[]" 0 "[]" ?l 1 ?l "[109]"] show ?thesis
    by (auto simp: two_leaves_def leafnode_at_def)
qed

text \<open>
  C10. The Pearson hash is defined exactly on 7-bit text: a byte above 127 is a negative \<open>char\<close> and
  indexes the table out of bounds.
\<close>

theorem pearson_hash_defined_iff:
  assumes "n \<le> length d"
  shows "PearsonHash d n \<noteq> None \<longleftrightarrow> (\<forall>b\<in>set (take n d). b < 128)"
  using PearsonHash_defined [OF assms] by (simp add: ascii_def)

theorem pearson_hash_defined_iff_witness: "PearsonHash [128] 1 = None \<and> PearsonHash [65] 1 \<noteq> None"
  using pearson_hash_defined_iff [of 1 "[128]"] pearson_hash_defined_iff [of 1 "[65]"] by simp

end
